(* ===== verification/Cpp_Std.thy ===== *)
theory Cpp_Std
  imports Main "HOL-Library.Word" "HOL-Library.Sublist" "HOL-Library.AList"
    "HOL-Library.Code_Target_Nat"
begin

section \<open>Prelude: the C++ types and library functions the sources use\<close>

text \<open>
  Bytes and machine integers as words, \<^verbatim>\<open>std::string\<close> as a list of 8-bit characters,
  exceptions as the left side of a sum, and the standard functions the sources call:
  \<^verbatim>\<open>htons\<close>/\<^verbatim>\<open>memcpy\<close>, \<^verbatim>\<open>std::string::find\<close>, the \<^verbatim>\<open><cctype>\<close> classes of the "C" locale,
  \<^verbatim>\<open>std::stoull\<close>, \<^verbatim>\<open>std::stoi\<close>, \<^verbatim>\<open>std::to_string\<close> and the operations of
  \<^verbatim>\<open>std::unordered_map\<close>. The lemma collections declared here carry the proofs of the components.
\<close>

named_theorems wire_simps \<open>evaluation of the wire encoding\<close>
named_theorems guard_simps \<open>the constants that guards of the code compare with\<close>

type_synonym byte = "8 word"
type_synonym uint16 = "16 word"
type_synonym uint64 = "64 word"

text \<open>Exceptions. The text of \<^verbatim>\<open>what()\<close> is kept where the code builds it.\<close>

datatype exn =
    TftpException string
  | RuntimeError string
  | InvalidArgument
  | OutOfRange
  | FilesystemError
  | OtherException

type_synonym 'a result = "exn + 'a"

definition SIZE_MAX :: nat where
  "SIZE_MAX = 18446744073709551615"

subsection \<open>Characters and bytes\<close>

definition char_byte :: "char \<Rightarrow> byte" where
  "char_byte c = word_of_nat (of_char c)"

definition byte_char :: "byte \<Rightarrow> char" where
  "byte_char b = char_of (unat b)"

definition NUL :: char where
  "NUL = CHR 0x00"

abbreviation bytes_of :: "string \<Rightarrow> byte list" where
  "bytes_of \<equiv> map char_byte"

abbreviation string_of :: "byte list \<Rightarrow> string" where
  "string_of \<equiv> map byte_char"

lemma unat_char_byte [simp]: "unat (char_byte c) = of_char c"
  by (simp add: char_byte_def unat_of_nat)

lemma byte_char_char_byte [simp]: "byte_char (char_byte c) = c"
  by (simp add: byte_char_def)

lemma char_byte_byte_char [simp]: "char_byte (byte_char b) = b"
proof -
  have "unat b < 256"
    using unsigned_less [of b] by simp
  then show ?thesis
    by (simp add: char_byte_def byte_char_def)
qed

lemma byte_char_comp [simp]: "byte_char \<circ> char_byte = id"
  by (simp add: fun_eq_iff)

lemma string_of_bytes_of [simp]: "string_of (bytes_of s) = s"
  by (induction s) auto

lemma char_byte_inject [simp]: "char_byte c = char_byte d \<longleftrightarrow> c = d"
  by (metis byte_char_char_byte)

lemma char_byte_0 [simp]: "char_byte c = 0 \<longleftrightarrow> c = NUL"
proof -
  have "char_byte NUL = 0"
    by (simp add: char_byte_def NUL_def)
  then show ?thesis
    by (metis char_byte_inject)
qed

lemma byte_char_NUL [simp]: "byte_char b = NUL \<longleftrightarrow> b = 0"
  by (metis char_byte_0 char_byte_byte_char)

lemma zero_in_bytes_of [simp]: "0 \<in> set (bytes_of s) \<longleftrightarrow> NUL \<in> set s"
  by (metis (mono_tags, lifting) char_byte_0 image_iff list.set_map)

lemma NUL_in_string_of [simp]: "NUL \<in> set (string_of bs) \<longleftrightarrow> 0 \<in> set bs"
  by (metis (mono_tags, lifting) byte_char_NUL image_iff list.set_map)

subsection \<open>Byte order\<close>

text \<open>
  \<^verbatim>\<open>htons\<close> followed by \<^verbatim>\<open>memcpy\<close> of the two bytes, for a host of either byte order. Whatever
  the host, the bytes written are the high byte and then the low byte (\<open>put16\<close>), and reading
  them back with \<^verbatim>\<open>memcpy\<close> and \<^verbatim>\<open>ntohs\<close> gives the value (\<open>get16\<close>).
\<close>

datatype endian = Little | Big

definition hi_byte :: "uint16 \<Rightarrow> byte" where
  "hi_byte v = word_of_nat (unat v div 256)"

definition lo_byte :: "uint16 \<Rightarrow> byte" where
  "lo_byte v = word_of_nat (unat v mod 256)"

definition join16 :: "byte \<Rightarrow> byte \<Rightarrow> uint16" where
  "join16 h l = word_of_nat (unat h * 256 + unat l)"

definition bswap16 :: "uint16 \<Rightarrow> uint16" where
  "bswap16 v = join16 (lo_byte v) (hi_byte v)"

definition htons :: "endian \<Rightarrow> uint16 \<Rightarrow> uint16" where
  "htons e v = (case e of Big \<Rightarrow> v | Little \<Rightarrow> bswap16 v)"

definition memcpy16 :: "endian \<Rightarrow> uint16 \<Rightarrow> byte list" where
  "memcpy16 e v = (case e of Big \<Rightarrow> [hi_byte v, lo_byte v] | Little \<Rightarrow> [lo_byte v, hi_byte v])"

definition put16 :: "uint16 \<Rightarrow> byte list" where
  "put16 v = [hi_byte v, lo_byte v]"

definition get16 :: "byte list \<Rightarrow> nat \<Rightarrow> uint16" where
  "get16 bs i = join16 (bs ! i) (bs ! Suc i)"

lemma unat_less_256 [simp]: "unat (b :: byte) < 256"
  using unsigned_less [of b] by simp

lemma unat_less_65536 [simp]: "unat (v :: uint16) < 65536"
  using unsigned_less [of v] by simp

lemma unat_hi_byte [simp]: "unat (hi_byte v) = unat v div 256"
proof -
  have "unat v div 256 < 256"
    using unat_less_65536 [of v] by linarith
  then show ?thesis
    by (simp add: hi_byte_def unat_of_nat)
qed

lemma unat_lo_byte [simp]: "unat (lo_byte v) = unat v mod 256"
  by (simp add: lo_byte_def unat_of_nat)

lemma unat_join16 [simp]: "unat (join16 h l) = unat h * 256 + unat l"
proof -
  have "unat h \<le> 255" and "unat l \<le> 255"
    using unat_less_256 [of h] unat_less_256 [of l] by linarith+
  then have "unat h * 256 + unat l < 65536"
    by linarith
  then show ?thesis
    unfolding join16_def by (subst unat_of_nat) simp
qed

lemma join16_hi_lo [simp]: "join16 (hi_byte v) (lo_byte v) = v"
  by (simp add: word_unat_eq_iff)

lemma hi_byte_join16 [simp]: "hi_byte (join16 h l) = h"
  by (simp add: word_unat_eq_iff)

lemma lo_byte_join16 [simp]: "lo_byte (join16 h l) = l"
  by (simp add: word_unat_eq_iff)

lemma memcpy16_htons: "memcpy16 e (htons e v) = put16 v"
  by (cases e) (simp_all add: memcpy16_def htons_def bswap16_def put16_def)

lemma length_put16 [simp]: "length (put16 v) = 2"
  by (simp add: put16_def)

lemma get16_put16 [simp]: "get16 (put16 v @ bs) 0 = v"
  by (simp add: get16_def put16_def)

lemma get16_put16_2 [simp]: "get16 (put16 u @ put16 v @ bs) 2 = v"
  by (simp add: get16_def put16_def)

subsection \<open>Strings\<close>

text \<open>\<^verbatim>\<open>s.find(pat)\<close>: the position of the first occurrence, \<open>None\<close> for \<^verbatim>\<open>npos\<close>.\<close>

fun str_find :: "string \<Rightarrow> string \<Rightarrow> nat option" where
  "str_find [] pat = (if pat = [] then Some 0 else None)"
| "str_find (c # s) pat =
     (if prefix pat (c # s) then Some 0 else map_option Suc (str_find s pat))"

definition str_contains :: "string \<Rightarrow> string \<Rightarrow> bool" where
  "str_contains s pat = (str_find s pat \<noteq> None)"

lemma str_contains_sublist: "str_contains s pat \<longleftrightarrow> sublist pat s"
proof (induction s)
  case Nil
  then show ?case by (simp add: str_contains_def)
next
  case (Cons c s)
  then show ?case by (simp add: str_contains_def sublist_Cons_right)
qed

text \<open>The character classes of \<^verbatim>\<open><cctype>\<close> in the "C" locale.\<close>

definition isspace :: "char \<Rightarrow> bool" where
  "isspace c = (let n = of_char c :: nat in n = 32 \<or> (9 \<le> n \<and> n \<le> 13))"

definition isdigit :: "char \<Rightarrow> bool" where
  "isdigit c = (let n = of_char c :: nat in 48 \<le> n \<and> n \<le> 57)"

definition isalnum :: "char \<Rightarrow> bool" where
  "isalnum c = (let n = of_char c :: nat in
     (48 \<le> n \<and> n \<le> 57) \<or> (65 \<le> n \<and> n \<le> 90) \<or> (97 \<le> n \<and> n \<le> 122))"

definition iscntrl :: "char \<Rightarrow> bool" where
  "iscntrl c = (let n = of_char c :: nat in n < 32 \<or> n = 127)"

definition tolower :: "char \<Rightarrow> char" where
  "tolower c = (let n = of_char c :: nat in if 65 \<le> n \<and> n \<le> 90 then char_of (n + 32) else c)"

subsection \<open>Numbers in decimal\<close>

definition digit_value :: "char \<Rightarrow> nat" where
  "digit_value c = of_char c - 48"

definition digit_char :: "nat \<Rightarrow> char" where
  "digit_char n = char_of (48 + n)"

definition dec_value :: "string \<Rightarrow> nat" where
  "dec_value ds = foldl (\<lambda>a c. a * 10 + digit_value c) 0 ds"

text \<open>\<^verbatim>\<open>std::to_string\<close> of an unsigned and of a signed integer.\<close>

fun show_nat :: "nat \<Rightarrow> string" where
  "show_nat n = (if n < 10 then [digit_char n] else show_nat (n div 10) @ [digit_char (n mod 10)])"

declare show_nat.simps [simp del]

definition show_int :: "int \<Rightarrow> string" where
  "show_int i = (if i < 0 then CHR ''-'' # show_nat (nat (- i)) else show_nat (nat i))"

text \<open>
  The conversion shared by \<^verbatim>\<open>strtol\<close> and \<^verbatim>\<open>strtoull\<close> in base 10: skip white space, read an
  optional sign and then the longest run of digits; what follows is ignored.
\<close>

definition split_sign :: "string \<Rightarrow> bool \<times> string" where
  "split_sign s = (case s of
       [] \<Rightarrow> (False, [])
     | c # r \<Rightarrow> if c = CHR ''-'' then (True, r) else if c = CHR ''+'' then (False, r) else (False, s))"

definition strto :: "string \<Rightarrow> (bool \<times> nat) option" where
  "strto s = (let (neg, t) = split_sign (dropWhile isspace s); ds = takeWhile isdigit t in
     if ds = [] then None else Some (neg, dec_value ds))"

text \<open>\<^verbatim>\<open>std::stoull\<close>: a minus sign negates modulo \<open>2 ^ 64\<close>, as \<^verbatim>\<open>strtoull\<close> does.\<close>

definition stoull :: "string \<Rightarrow> uint64 result" where
  "stoull s = (case strto s of
       None \<Rightarrow> Inl InvalidArgument
     | Some (neg, n) \<Rightarrow>
         if n > SIZE_MAX then Inl OutOfRange
         else Inr (if neg then - word_of_nat n else word_of_nat n))"

definition INT_MAX :: int where
  "INT_MAX = 2147483647"

definition INT_MIN :: int where
  "INT_MIN = - 2147483648"

definition stoi :: "string \<Rightarrow> int result" where
  "stoi s = (case strto s of
       None \<Rightarrow> Inl InvalidArgument
     | Some (neg, n) \<Rightarrow> (let v = (if neg then - int n else int n) in
         if v < INT_MIN \<or> v > INT_MAX then Inl OutOfRange else Inr v))"

lemma of_char_digit_char: "n < 10 \<Longrightarrow> of_char (digit_char n) = 48 + n"
  by (simp add: digit_char_def)

lemma isdigit_digit_char: "n < 10 \<Longrightarrow> isdigit (digit_char n)"
  by (simp add: isdigit_def of_char_digit_char)

lemma digit_value_digit_char [simp]: "n < 10 \<Longrightarrow> digit_value (digit_char n) = n"
  by (simp add: digit_value_def of_char_digit_char)

lemma dec_value_snoc [simp]: "dec_value (ds @ [c]) = dec_value ds * 10 + digit_value c"
  by (simp add: dec_value_def)

lemma dec_value_show_nat [simp]: "dec_value (show_nat n) = n"
proof (induction n rule: show_nat.induct)
  case (1 n)
  show ?case
  proof (cases "n < 10")
    case True
    then show ?thesis
      by (simp add: show_nat.simps [of n] dec_value_def)
  next
    case False
    with 1 show ?thesis
      by (simp add: show_nat.simps [of n])
  qed
qed

lemma show_nat_digits: "list_all isdigit (show_nat n)"
proof (induction n rule: show_nat.induct)
  case (1 n)
  then show ?case
    by (cases "n < 10") (simp_all add: show_nat.simps [of n] isdigit_digit_char)
qed

lemma dec_value_bound:
  assumes "list_all isdigit ds"
  shows "dec_value ds < 10 ^ length ds"
  using assms
proof (induction ds rule: rev_induct)
  case (snoc c ds)
  then have "digit_value c \<le> 9"
    by (auto simp: digit_value_def isdigit_def Let_def)
  then show ?case
    using snoc by simp
qed (simp add: dec_value_def)

lemma length_show_nat: "0 < k \<Longrightarrow> n < 10 ^ k \<Longrightarrow> length (show_nat n) \<le> k"
proof (induction n arbitrary: k rule: show_nat.induct)
  case (1 n)
  show ?case
  proof (cases "n < 10")
    case False
    then obtain j where j: "k = Suc j" "0 < j"
      using 1(2,3) by (cases k; cases "k - 1") auto
    then have "n div 10 < 10 ^ j"
      using 1(3) by (simp add: less_mult_imp_div_less mult.commute)
    then show ?thesis
      using 1(1) [OF False j(2)] False j(1) by (simp add: show_nat.simps [of n])
  qed (use 1(2) in \<open>simp add: show_nat.simps [of n]\<close>)
qed

lemma show_nat_nonempty [simp]: "show_nat n \<noteq> []"
  by (subst show_nat.simps) simp

lemma isdigit_not_space: "isdigit c \<Longrightarrow> \<not> isspace c"
  by (auto simp: isdigit_def isspace_def Let_def)

lemma isdigit_not_sign: "isdigit c \<Longrightarrow> c \<noteq> CHR ''-'' \<and> c \<noteq> CHR ''+''"
  by (auto simp: isdigit_def)

lemma split_sign_digit: "isdigit c \<Longrightarrow> split_sign (c # r) = (False, c # r)"
  using isdigit_not_sign [of c] by (simp add: split_sign_def)

lemma strto_digits:
  assumes "list_all isdigit ds" and "ds \<noteq> []"
  shows "strto ds = Some (False, dec_value ds)"
proof -
  obtain c r where cr: "ds = c # r"
    using assms(2) by (cases ds) auto
  have tw: "takeWhile isdigit ds = ds"
    using assms(1) by (simp add: list_all_iff)
  have dw: "dropWhile isspace ds = ds" and sg: "split_sign ds = (False, ds)"
    using assms(1) by (simp_all add: cr isdigit_not_space split_sign_digit)
  show ?thesis
    unfolding strto_def dw sg Let_def prod.case tw using assms(2) by simp
qed

lemma strto_show_nat: "strto (show_nat n) = Some (False, n)"
  using strto_digits [OF show_nat_digits show_nat_nonempty, of n] by simp

lemma stoull_show_nat: "n \<le> SIZE_MAX \<Longrightarrow> stoull (show_nat n) = Inr (word_of_nat n)"
  by (simp add: stoull_def strto_show_nat)

subsection \<open>The interface of \<open>std::unordered_map\<close>\<close>

text \<open>
  What the code uses of the container: assignment through \<^verbatim>\<open>operator[]\<close>, \<^verbatim>\<open>find\<close> and iteration.
  The order of iteration is not specified by the language, so a client may rely only on the
  elements being the graph of \<^verbatim>\<open>find\<close>.
\<close>

locale unordered_map =
  fixes empty :: 'm
    and assign :: "'k \<Rightarrow> 'v \<Rightarrow> 'm \<Rightarrow> 'm"
    and find :: "'m \<Rightarrow> 'k \<Rightarrow> 'v option"
    and elems :: "'m \<Rightarrow> ('k \<times> 'v) list"
    and invar :: "'m \<Rightarrow> bool"
  assumes find_empty: "find empty k = None"
    and find_assign: "invar m \<Longrightarrow> find (assign k v m) = (find m)(k \<mapsto> v)"
    and find_elems: "invar m \<Longrightarrow> map_of (elems m) = find m"
    and distinct_elems: "invar m \<Longrightarrow> distinct (map fst (elems m))"
    and invar_empty: "invar empty"
    and invar_assign: "invar m \<Longrightarrow> invar (assign k v m)"
begin

definition assign_all :: "('k \<times> 'v) list \<Rightarrow> 'm \<Rightarrow> 'm" where
  "assign_all kvs m = fold (\<lambda>(k, v). assign k v) kvs m"

lemma assign_all_Nil [simp]: "assign_all [] m = m"
  by (simp add: assign_all_def)

lemma assign_all_Cons [simp]: "assign_all ((k, v) # kvs) m = assign_all kvs (assign k v m)"
  by (simp add: assign_all_def)

lemma invar_assign_all: "invar m \<Longrightarrow> invar (assign_all kvs m)"
  by (induction kvs arbitrary: m) (auto simp: invar_assign)

lemma find_assign_all: "invar m \<Longrightarrow> find (assign_all kvs m) = find m ++ map_of (rev kvs)"
proof (induction kvs arbitrary: m)
  case Nil
  then show ?case by simp
next
  case (Cons kv kvs)
  obtain k v where kv: "kv = (k, v)" by fastforce
  have "find (assign_all (kv # kvs) m) = (find m)(k \<mapsto> v) ++ map_of (rev kvs)"
    using Cons by (simp add: kv invar_assign find_assign fun_upd_def)
  then show ?case
    by (simp add: kv map_add_def fun_eq_iff split: option.splits)
qed

lemma length_elems: "invar m \<Longrightarrow> length (elems m) = card (dom (find m))"
  by (metis distinct_card distinct_elems dom_map_of_conv_image_fst find_elems length_map set_map)

lemma length_elems_assign: "invar m \<Longrightarrow> length (elems (assign k v m)) \<le> Suc (length (elems m))"
  using finite_dom_map_of [of "elems m"]
  by (simp add: length_elems invar_assign find_assign find_elems card_insert_if)

end

text \<open>
  The model's containers: association lists with distinct keys, the elements in their order of
  iteration. \<open>umap_assign\<close> replaces the value of a key it finds and otherwise adds the pair.
\<close>

type_synonym ('k, 'v) umap = "('k \<times> 'v) list"

definition umap_assign :: "'k \<Rightarrow> 'v \<Rightarrow> ('k, 'v) umap \<Rightarrow> ('k, 'v) umap" where
  "umap_assign k v m = AList.update k v m"

definition umap_find :: "('k, 'v) umap \<Rightarrow> 'k \<Rightarrow> 'v option" where
  "umap_find m k = map_of m k"

definition umap_ok :: "('k, 'v) umap \<Rightarrow> bool" where
  "umap_ok m = distinct (map fst m)"

interpretation umap: unordered_map "[]" umap_assign umap_find id umap_ok
proof unfold_locales
  show "umap_find [] k = None" for k :: 'a
    by (simp add: umap_find_def)
  show "umap_find (umap_assign k v m) = (umap_find m)(k \<mapsto> v)" for k :: 'a and v :: 'b and m
    by (simp add: umap_find_def umap_assign_def fun_eq_iff update_conv)
  show "map_of (id m) = umap_find m" for m :: "('a, 'b) umap"
    by (simp add: umap_find_def fun_eq_iff)
  show "umap_ok m \<Longrightarrow> distinct (map fst (id m))" for m :: "('a, 'b) umap"
    by (simp add: umap_ok_def)
  show "umap_ok ([] :: ('a, 'b) umap)"
    by (simp add: umap_ok_def)
  show "umap_ok m \<Longrightarrow> umap_ok (umap_assign k v m)" for k :: 'a and v :: 'b and m
    by (simp add: umap_ok_def umap_assign_def distinct_update)
qed

end
