(* ===== verification/Tftp_Common.thy ===== *)
theory Tftp_Common
  imports Cpp_Std
begin

section \<open>Protocol constants and enumerations\<close>

text \<open>
  The constants and enumerations of \<^verbatim>\<open>include/tftp/tftp_common.h\<close>. An \<^verbatim>\<open>enum class\<close> over
  \<^verbatim>\<open>uint16_t\<close> can hold any 16-bit value (the result of a \<^verbatim>\<open>static_cast\<close>), which is what the
  \<^verbatim>\<open>default:\<close> branches of the code are for; the extra constructor of each datatype holds the
  values that are no enumerator.
\<close>

definition kMaxPacketSize :: nat where [guard_simps]: "kMaxPacketSize = 516"
definition kMaxDataSize :: nat where [guard_simps]: "kMaxDataSize = 512"
definition kDefaultTftpPort :: uint16 where [guard_simps]: "kDefaultTftpPort = 69"
definition kDefaultTimeout :: int where [guard_simps]: "kDefaultTimeout = 5"
definition kMaxFilenameLength :: nat where [guard_simps]: "kMaxFilenameLength = 255"
definition kMaxOptionNameLength :: nat where [guard_simps]: "kMaxOptionNameLength = 64"
definition kMaxOptionValueLength :: nat where [guard_simps]: "kMaxOptionValueLength = 64"
definition kMaxErrorMessageLength :: nat where [guard_simps]: "kMaxErrorMessageLength = 255"
definition kMaxStringLength :: nat where [guard_simps]: "kMaxStringLength = 255"
definition kMaxOptionsCount :: nat where [guard_simps]: "kMaxOptionsCount = 16"
definition kMinPacketSize :: nat where [guard_simps]: "kMinPacketSize = 4"

subsection \<open>Operation codes\<close>

datatype OpCode =
    kReadRequest
  | kWriteRequest
  | kData
  | kAcknowledge
  | kError
  | kOACK
  | OpCode_unknown uint16

fun opcode_value :: "OpCode \<Rightarrow> uint16" where
  "opcode_value kReadRequest = 1"
| "opcode_value kWriteRequest = 2"
| "opcode_value kData = 3"
| "opcode_value kAcknowledge = 4"
| "opcode_value kError = 5"
| "opcode_value kOACK = 6"
| "opcode_value (OpCode_unknown v) = v"

text \<open>\<^verbatim>\<open>static_cast<OpCode>(v)\<close>.\<close>

definition opcode_of :: "uint16 \<Rightarrow> OpCode" where
  "opcode_of v =
     (if v = 1 then kReadRequest else if v = 2 then kWriteRequest else if v = 3 then kData
      else if v = 4 then kAcknowledge else if v = 5 then kError else if v = 6 then kOACK
      else OpCode_unknown v)"

fun opcode_known :: "OpCode \<Rightarrow> bool" where
  "opcode_known (OpCode_unknown v) = False"
| "opcode_known _ = True"

fun show_opcode :: "OpCode \<Rightarrow> string" where
  "show_opcode kReadRequest = ''ReadRequest''"
| "show_opcode kWriteRequest = ''WriteRequest''"
| "show_opcode kData = ''Data''"
| "show_opcode kAcknowledge = ''Acknowledge''"
| "show_opcode kError = ''Error''"
| "show_opcode kOACK = ''OACK''"
| "show_opcode (OpCode_unknown v) = ''Unknown('' @ show_nat (unat v) @ '')''"

lemma opcode_value_of [simp]: "opcode_value (opcode_of v) = v"
  by (simp add: opcode_of_def)

lemma opcode_of_value: "opcode_known c \<Longrightarrow> opcode_of (opcode_value c) = c"
  by (cases c) (simp_all add: opcode_of_def)

lemma opcode_of_eq_iff:
  "opcode_of v = kReadRequest \<longleftrightarrow> v = 1"
  "opcode_of v = kWriteRequest \<longleftrightarrow> v = 2"
  "opcode_of v = kData \<longleftrightarrow> v = 3"
  "opcode_of v = kAcknowledge \<longleftrightarrow> v = 4"
  "opcode_of v = kError \<longleftrightarrow> v = 5"
  "opcode_of v = kOACK \<longleftrightarrow> v = 6"
  by (auto simp: opcode_of_def)

text \<open>The range check \<open>1 \<le> v \<le> 6\<close> of the code accepts exactly the enumerators.\<close>

lemma opcode_known_iff: "opcode_known (opcode_of v) \<longleftrightarrow> \<not> (v < 1 \<or> v > 6)"
proof -
  have "\<not> (v < 1 \<or> v > 6) \<longleftrightarrow> v = 1 \<or> v = 2 \<or> v = 3 \<or> v = 4 \<or> v = 5 \<or> v = 6"
    by (auto simp: word_less_nat_alt word_unat_eq_iff)
  then show ?thesis
    by (auto simp: opcode_of_def)
qed

subsection \<open>Error codes\<close>

datatype ErrorCode =
    kNotDefined
  | kFileNotFound
  | kAccessViolation
  | kDiskFull
  | kIllegalOperation
  | kUnknownTransferId
  | kFileExists
  | kNoSuchUser
  | ErrorCode_unknown uint16

fun errorcode_value :: "ErrorCode \<Rightarrow> uint16" where
  "errorcode_value kNotDefined = 0"
| "errorcode_value kFileNotFound = 1"
| "errorcode_value kAccessViolation = 2"
| "errorcode_value kDiskFull = 3"
| "errorcode_value kIllegalOperation = 4"
| "errorcode_value kUnknownTransferId = 5"
| "errorcode_value kFileExists = 6"
| "errorcode_value kNoSuchUser = 7"
| "errorcode_value (ErrorCode_unknown v) = v"

definition errorcode_of :: "uint16 \<Rightarrow> ErrorCode" where
  "errorcode_of v =
     (if v = 0 then kNotDefined else if v = 1 then kFileNotFound else if v = 2 then kAccessViolation
      else if v = 3 then kDiskFull else if v = 4 then kIllegalOperation
      else if v = 5 then kUnknownTransferId else if v = 6 then kFileExists
      else if v = 7 then kNoSuchUser else ErrorCode_unknown v)"

fun errorcode_known :: "ErrorCode \<Rightarrow> bool" where
  "errorcode_known (ErrorCode_unknown v) = False"
| "errorcode_known _ = True"

fun show_errorcode :: "ErrorCode \<Rightarrow> string" where
  "show_errorcode kNotDefined = ''NotDefined''"
| "show_errorcode kFileNotFound = ''FileNotFound''"
| "show_errorcode kAccessViolation = ''AccessViolation''"
| "show_errorcode kDiskFull = ''DiskFull''"
| "show_errorcode kIllegalOperation = ''IllegalOperation''"
| "show_errorcode kUnknownTransferId = ''UnknownTransferId''"
| "show_errorcode kFileExists = ''FileExists''"
| "show_errorcode kNoSuchUser = ''NoSuchUser''"
| "show_errorcode (ErrorCode_unknown v) = ''Unknown('' @ show_nat (unat v) @ '')''"

lemma errorcode_of_value: "errorcode_known c \<Longrightarrow> errorcode_of (errorcode_value c) = c"
  by (cases c) (simp_all add: errorcode_of_def)

lemma errorcode_value_of [simp]: "errorcode_value (errorcode_of v) = v"
  by (simp add: errorcode_of_def)

lemma errorcode_known_iff: "errorcode_known (errorcode_of v) \<longleftrightarrow> \<not> v > 7"
proof -
  have "\<not> v > 7 \<longleftrightarrow> v = 0 \<or> v = 1 \<or> v = 2 \<or> v = 3 \<or> v = 4 \<or> v = 5 \<or> v = 6 \<or> v = 7"
    by (auto simp: word_less_nat_alt word_unat_eq_iff)
  then show ?thesis
    by (auto simp: errorcode_of_def)
qed

lemma errorcode_value_le_7: "errorcode_known c \<Longrightarrow> \<not> errorcode_value c > 7"
  by (cases c) simp_all

text \<open>The comparison operators of the header compare the underlying values.\<close>

definition opcode_eq :: "OpCode \<Rightarrow> OpCode \<Rightarrow> bool" where
  "opcode_eq lhs rhs = (uint (opcode_value lhs) = uint (opcode_value rhs))"

definition errorcode_eq :: "ErrorCode \<Rightarrow> ErrorCode \<Rightarrow> bool" where
  "errorcode_eq lhs rhs = (uint (errorcode_value lhs) = uint (errorcode_value rhs))"

subsection \<open>Transfer modes\<close>

datatype TransferMode = kNetAscii | kOctet | kMail | TransferMode_unknown int

fun transfermode_value :: "TransferMode \<Rightarrow> int" where
  "transfermode_value kNetAscii = 0"
| "transfermode_value kOctet = 1"
| "transfermode_value kMail = 2"
| "transfermode_value (TransferMode_unknown i) = i"

fun transfermode_known :: "TransferMode \<Rightarrow> bool" where
  "transfermode_known (TransferMode_unknown i) = False"
| "transfermode_known _ = True"

end
