(* ===== verification/Tftp_Packet.thy ===== *)
theory Tftp_Packet
  imports Tftp_Common
begin

section \<open>Packets: construction, serialization and parsing\<close>

text \<open>
  The class \<^verbatim>\<open>TftpPacket\<close> of \<^verbatim>\<open>include/tftp/tftp_packet.h\<close> and \<^verbatim>\<open>src/tftp_packet.cpp\<close>: the
  record of its members, the factory functions, the option accessors, \<^verbatim>\<open>Serialize\<close> and
  \<^verbatim>\<open>Deserialize\<close> with the helpers of the anonymous namespace. Logging is left out.
\<close>

record TftpPacket =
  pk_op_code :: OpCode
  pk_block_number :: uint16
  pk_error_code :: ErrorCode
  pk_filename :: string
  pk_mode :: TransferMode
  pk_data :: "byte list"
  pk_error_message :: string
  pk_options :: "(string, string) umap"

text \<open>The member initialisers of the class, which the default constructor leaves.\<close>

definition new_packet :: TftpPacket where
  "new_packet = \<lparr>pk_op_code = kReadRequest, pk_block_number = 0, pk_error_code = kNotDefined,
     pk_filename = [], pk_mode = kOctet, pk_data = [], pk_error_message = [], pk_options = []\<rparr>"

subsection \<open>Helpers of the anonymous namespace\<close>

text \<open>\<^verbatim>\<open>copy_string\<close>: writing past the end of the vector is undefined (\<open>None\<close>).\<close>

definition copy_string :: "byte list \<Rightarrow> nat \<Rightarrow> string \<Rightarrow> (byte list \<times> nat) option" where
  "copy_string dest offset src =
     (if offset + length src < length dest
      then Some (take offset dest @ bytes_of src @ 0 # drop (offset + length src + 1) dest,
                 offset + length src + 1)
      else None)"

text \<open>The loop of \<^verbatim>\<open>read_string_validated\<close>: result, offset and number of characters read.\<close>

function read_chars ::
  "byte list \<Rightarrow> nat \<Rightarrow> nat \<Rightarrow> nat \<Rightarrow> string \<Rightarrow> string \<times> nat \<times> nat" where
  "read_chars data max_length offset chars_read result =
     (if offset < length data \<and> data ! offset \<noteq> 0 \<and> chars_read < max_length
      then read_chars data max_length (Suc offset) (Suc chars_read)
             (result @ [byte_char (data ! offset)])
      else (result, offset, chars_read))"
  by pat_completeness auto
termination
  by (relation "measure (\<lambda>(data, m, offset, c, r). length data - offset)") auto

declare read_chars.simps [simp del]

text \<open>The string read and the new offset; the offset \<^verbatim>\<open>SIZE_MAX\<close> signals failure.\<close>

definition read_string_validated :: "byte list \<Rightarrow> nat \<Rightarrow> nat \<Rightarrow> string \<times> nat" where
  "read_string_validated data offset max_length =
     (if offset \<ge> length data then ([], SIZE_MAX)
      else let (result, off, chars_read) = read_chars data max_length offset 0 [] in
        if off \<ge> length data then ([], SIZE_MAX)
        else if chars_read \<ge> max_length \<and> off < length data \<and> data ! off \<noteq> 0 then ([], SIZE_MAX)
        else (result, if off < length data \<and> data ! off = 0 then off + 1 else off))"

definition read_string :: "byte list \<Rightarrow> nat \<Rightarrow> nat \<Rightarrow> string \<times> nat" where
  "read_string data offset max_length =
     (let (result, off) = read_string_validated data offset max_length in
      if off = SIZE_MAX then ([], offset) else (result, off))"

fun mode_to_string :: "TransferMode \<Rightarrow> string result" where
  "mode_to_string kNetAscii = Inr ''netascii''"
| "mode_to_string kOctet = Inr ''octet''"
| "mode_to_string kMail = Inr ''mail''"
| "mode_to_string (TransferMode_unknown i) = Inl (TftpException ''Unknown transfer mode'')"

definition string_to_mode :: "string \<Rightarrow> TransferMode result" where
  "string_to_mode mode_str =
     (let lower_mode = map tolower mode_str in
      if lower_mode = ''netascii'' then Inr kNetAscii
      else if lower_mode = ''octet'' then Inr kOctet
      else if lower_mode = ''mail'' then Inr kMail
      else Inl (TftpException (''Invalid transfer mode: '' @ mode_str)))"

subsection \<open>Factory functions and options\<close>

definition CreateReadRequest :: "string \<Rightarrow> TransferMode \<Rightarrow> TftpPacket" where
  "CreateReadRequest filename mode =
     new_packet\<lparr>pk_op_code := kReadRequest, pk_filename := filename, pk_mode := mode\<rparr>"

definition CreateWriteRequest :: "string \<Rightarrow> TransferMode \<Rightarrow> TftpPacket" where
  "CreateWriteRequest filename mode =
     new_packet\<lparr>pk_op_code := kWriteRequest, pk_filename := filename, pk_mode := mode\<rparr>"

definition CreateData :: "uint16 \<Rightarrow> byte list \<Rightarrow> TftpPacket result" where
  "CreateData block_number data =
     (if length data > kMaxDataSize
      then Inl (TftpException ''Data size exceeds maximum allowed size'')
      else Inr (new_packet\<lparr>pk_op_code := kData, pk_block_number := block_number, pk_data := data\<rparr>))"

definition CreateAck :: "uint16 \<Rightarrow> TftpPacket" where
  "CreateAck block_number = new_packet\<lparr>pk_op_code := kAcknowledge, pk_block_number := block_number\<rparr>"

definition CreateError :: "ErrorCode \<Rightarrow> string \<Rightarrow> TftpPacket" where
  "CreateError code message =
     new_packet\<lparr>pk_op_code := kError, pk_error_code := code, pk_error_message := message\<rparr>"

definition CreateOACK :: "(string, string) umap \<Rightarrow> TftpPacket" where
  "CreateOACK options = new_packet\<lparr>pk_op_code := kOACK, pk_options := options\<rparr>"

definition HasOption :: "TftpPacket \<Rightarrow> string \<Rightarrow> bool" where
  "HasOption p option_name = (umap_find (pk_options p) option_name \<noteq> None)"

definition GetOption :: "TftpPacket \<Rightarrow> string \<Rightarrow> string" where
  "GetOption p option_name =
     (case umap_find (pk_options p) option_name of Some v \<Rightarrow> v | None \<Rightarrow> [])"

definition SetOption :: "string \<Rightarrow> string \<Rightarrow> TftpPacket \<Rightarrow> TftpPacket" where
  "SetOption option_name option_value p =
     p\<lparr>pk_options := umap_assign option_name option_value (pk_options p)\<rparr>"

definition ResetState :: "TftpPacket \<Rightarrow> TftpPacket" where
  "ResetState p = p\<lparr>pk_op_code := kReadRequest, pk_block_number := 0, pk_error_code := kNotDefined,
     pk_filename := [], pk_mode := kOctet, pk_data := [], pk_error_message := [], pk_options := []\<rparr>"

subsection \<open>Serialization\<close>

definition put_string :: "string \<Rightarrow> byte list" where
  "put_string s = bytes_of s @ [0]"

fun put_options :: "(string, string) umap \<Rightarrow> byte list" where
  "put_options [] = []"
| "put_options ((name, value) # opts) = put_string name @ put_string value @ put_options opts"

definition Serialize :: "TftpPacket \<Rightarrow> byte list result" where
  "Serialize p =
     (let request = (case mode_to_string (pk_mode p) of
            Inl e \<Rightarrow> Inl e
          | Inr mode_str \<Rightarrow> Inr (put16 (opcode_value (pk_op_code p)) @ put_string (pk_filename p)
              @ put_string mode_str @ put_options (pk_options p)))
      in case pk_op_code p of
        kReadRequest \<Rightarrow> request
      | kWriteRequest \<Rightarrow> request
      | kData \<Rightarrow> Inr (put16 (opcode_value (pk_op_code p)) @ put16 (pk_block_number p) @ pk_data p)
      | kAcknowledge \<Rightarrow> Inr (put16 (opcode_value (pk_op_code p)) @ put16 (pk_block_number p))
      | kError \<Rightarrow> Inr (put16 (opcode_value (pk_op_code p)) @ put16 (errorcode_value (pk_error_code p))
          @ put_string (pk_error_message p))
      | kOACK \<Rightarrow> Inr (put16 (opcode_value (pk_op_code p)) @ put_options (pk_options p))
      | OpCode_unknown v \<Rightarrow> Inr [])"

subsection \<open>Parsing\<close>

text \<open>
  The option loop of a request: \<open>None\<close> where the code returns false, otherwise the offset, the
  number of options read and the options.
\<close>

function parse_options ::
  "byte list \<Rightarrow> nat \<Rightarrow> nat \<Rightarrow> (string, string) umap \<Rightarrow> (nat \<times> nat \<times> (string, string) umap) option"
where
  "parse_options data offset options_count temp_options =
     (if offset < length data \<and> options_count < kMaxOptionsCount then
        let (option_name, off1) = read_string_validated data offset kMaxOptionNameLength in
        if off1 = SIZE_MAX then None
        else if option_name = [] then Some (off1, options_count, temp_options)
        else if off1 \<ge> length data then None
        else let (option_value, off2) = read_string_validated data off1 kMaxOptionValueLength in
          if off2 = SIZE_MAX then None
          else if option_value = [] then None
          else parse_options data off2 (Suc options_count)
                 (umap_assign option_name option_value temp_options)
      else Some (offset, options_count, temp_options))"
  by pat_completeness auto
termination
  by (relation "measure (\<lambda>(data, offset, options_count, opts). kMaxOptionsCount - options_count)") auto

declare parse_options.simps [simp del]

text \<open>The loop of the \<^verbatim>\<open>kOACK\<close> case, which the source writes out a second time.\<close>

function parse_oack_options ::
  "byte list \<Rightarrow> nat \<Rightarrow> nat \<Rightarrow> (string, string) umap \<Rightarrow> (nat \<times> nat \<times> (string, string) umap) option"
where
  "parse_oack_options data offset options_count temp_oack_options =
     (if offset < length data \<and> options_count < kMaxOptionsCount then
        let (option_name, off1) = read_string_validated data offset kMaxOptionNameLength in
        if off1 = SIZE_MAX then None
        else if option_name = [] then Some (off1, options_count, temp_oack_options)
        else if off1 \<ge> length data then None
        else let (option_value, off2) = read_string_validated data off1 kMaxOptionValueLength in
          if off2 = SIZE_MAX then None
          else if option_value = [] then None
          else parse_oack_options data off2 (Suc options_count)
                 (umap_assign option_name option_value temp_oack_options)
      else Some (offset, options_count, temp_oack_options))"
  by pat_completeness auto
termination
  by (relation "measure (\<lambda>(data, offset, options_count, opts). kMaxOptionsCount - options_count)") auto

declare parse_oack_options.simps [simp del]

definition parse_request :: "byte list \<Rightarrow> TftpPacket \<Rightarrow> bool \<times> TftpPacket" where
  "parse_request data p =
     (let (temp_filename, off1) = read_string_validated data 2 kMaxFilenameLength in
      if off1 = SIZE_MAX then (False, p)
      else if temp_filename = [] then (False, p)
      else if off1 \<ge> length data then (False, p)
      else let (mode_str, off2) = read_string_validated data off1 kMaxStringLength in
        if off2 = SIZE_MAX then (False, p)
        else if mode_str = [] then (False, p)
        else (case string_to_mode mode_str of
            Inl e \<Rightarrow> (False, p)
          | Inr temp_mode \<Rightarrow> (case parse_options data off2 0 [] of
              None \<Rightarrow> (False, p)
            | Some (off3, options_count, temp_options) \<Rightarrow>
                if options_count \<ge> kMaxOptionsCount \<and> off3 < length data then (False, p)
                else (True, p\<lparr>pk_filename := temp_filename, pk_mode := temp_mode,
                                pk_options := temp_options\<rparr>))))"

definition parse_data :: "byte list \<Rightarrow> TftpPacket \<Rightarrow> bool \<times> TftpPacket" where
  "parse_data data p =
     (if length data < 4 then (False, p)
      else let q = p\<lparr>pk_block_number := get16 data 2\<rparr> in
        if length data - 4 > kMaxDataSize then (False, q)
        else (True, q\<lparr>pk_data := drop 4 data\<rparr>))"

definition parse_ack :: "byte list \<Rightarrow> TftpPacket \<Rightarrow> bool \<times> TftpPacket" where
  "parse_ack data p =
     (if length data \<noteq> 4 then (False, p) else (True, p\<lparr>pk_block_number := get16 data 2\<rparr>))"

definition parse_error :: "byte list \<Rightarrow> TftpPacket \<Rightarrow> bool \<times> TftpPacket" where
  "parse_error data p =
     (if length data < 5 then (False, p)
      else let error_code_value = get16 data 2 in
        if error_code_value > 7 then (False, p)
        else let (temp_error_message, off1) = read_string_validated data 4 kMaxErrorMessageLength in
          if off1 = SIZE_MAX then (False, p)
          else (True, p\<lparr>pk_error_code := errorcode_of error_code_value,
                          pk_error_message := temp_error_message\<rparr>))"

definition parse_oack :: "byte list \<Rightarrow> TftpPacket \<Rightarrow> bool \<times> TftpPacket" where
  "parse_oack data p =
     (case parse_oack_options data 2 0 [] of
        None \<Rightarrow> (False, p)
      | Some (off3, options_count, temp_oack_options) \<Rightarrow>
          if options_count \<ge> kMaxOptionsCount \<and> off3 < length data then (False, p)
          else (True, p\<lparr>pk_options := temp_oack_options\<rparr>))"

definition Deserialize :: "byte list \<Rightarrow> TftpPacket \<Rightarrow> bool \<times> TftpPacket" where
  "Deserialize data this =
     (let p = ResetState this in
      if data = [] then (False, p)
      else if length data < kMinPacketSize \<or> length data > kMaxPacketSize then (False, p)
      else if length data < 2 then (False, p)
      else let p = p\<lparr>pk_op_code := opcode_of (get16 data 0)\<rparr>;
               opcode_value = opcode_value (pk_op_code p) in
        if opcode_value < 1 \<or> opcode_value > 6 then (False, p)
        else (case pk_op_code p of
            kReadRequest \<Rightarrow> parse_request data p
          | kWriteRequest \<Rightarrow> parse_request data p
          | kData \<Rightarrow> parse_data data p
          | kAcknowledge \<Rightarrow> parse_ack data p
          | kError \<Rightarrow> parse_error data p
          | kOACK \<Rightarrow> parse_oack data p
          | OpCode_unknown v \<Rightarrow> (False, p)))"

subsection \<open>The string reader meets its specification\<close>

definition field_at :: "byte list \<Rightarrow> nat \<Rightarrow> byte list" where
  "field_at data offset = takeWhile (\<lambda>b. b \<noteq> 0) (drop offset data)"

lemma field_at_step:
  assumes "offset < length data" and "data ! offset \<noteq> 0"
  shows "field_at data offset = data ! offset # field_at data (Suc offset)"
  using assms by (simp add: field_at_def Cons_nth_drop_Suc [symmetric])

lemma field_at_stop: "offset < length data \<Longrightarrow> data ! offset = 0 \<Longrightarrow> field_at data offset = []"
  by (simp add: field_at_def Cons_nth_drop_Suc [symmetric])

lemma field_at_beyond: "length data \<le> offset \<Longrightarrow> field_at data offset = []"
  by (simp add: field_at_def)

lemma field_at_bound: "offset \<le> length data \<Longrightarrow> offset + length (field_at data offset) \<le> length data"
  using length_takeWhile_le [of "\<lambda>b. b \<noteq> 0" "drop offset data"]
  by (simp add: field_at_def)

lemma nth_field_at:
  assumes "i < length (field_at data offset)"
  shows "data ! (offset + i) \<noteq> 0"
proof -
  have "field_at data offset ! i = drop offset data ! i"
    using assms by (simp add: field_at_def takeWhile_nth)
  moreover have "field_at data offset ! i \<noteq> 0"
    using set_takeWhileD [OF nth_mem [OF assms, unfolded field_at_def]] by (simp add: field_at_def)
  moreover have "offset \<le> length data"
    using assms by (cases "offset \<le> length data") (simp_all add: field_at_def)
  ultimately show ?thesis
    by simp
qed

lemma nth_after_field:
  "offset + length (field_at data offset) < length data \<Longrightarrow>
   data ! (offset + length (field_at data offset)) = 0"
  using nth_length_takeWhile [of "\<lambda>b. b \<noteq> 0" "drop offset data"]
  by (simp add: field_at_def)

lemma read_chars_eq:
  "chars_read \<le> max_length \<Longrightarrow>
   read_chars data max_length offset chars_read result =
     (let n = min (length (field_at data offset)) (max_length - chars_read) in
      (result @ string_of (take n (field_at data offset)), offset + n, chars_read + n))"
proof (induction data max_length offset chars_read result rule: read_chars.induct)
  case (1 data max_length offset chars_read result)
  show ?case
  proof (cases "offset < length data \<and> data ! offset \<noteq> 0 \<and> chars_read < max_length")
    case True
    define s where "s = field_at data (Suc offset)"
    have "read_chars data max_length offset chars_read result =
        read_chars data max_length (Suc offset) (Suc chars_read) (result @ [byte_char (data ! offset)])"
      using True by (subst read_chars.simps) simp
    also have "\<dots> = (let n = min (length s) (max_length - Suc chars_read) in
        ((result @ [byte_char (data ! offset)]) @ string_of (take n s), Suc offset + n, Suc chars_read + n))"
      unfolding s_def using True by (intro "1.IH") auto
    also have "\<dots> = (let n = min (length (data ! offset # s)) (max_length - chars_read) in
        (result @ string_of (take n (data ! offset # s)), offset + n, chars_read + n))"
    proof -
      have "max_length - chars_read = Suc (max_length - Suc chars_read)"
        using True by linarith
      then show ?thesis by (simp add: Let_def)
    qed
    finally show ?thesis
      using True by (simp add: field_at_step s_def)
  next
    case False
    then have "field_at data offset = [] \<or> chars_read = max_length"
      using "1.prems" field_at_stop [of offset data] field_at_beyond [of data offset]
      by (metis linorder_not_le order_antisym_conv)
    with False show ?thesis
      by (subst read_chars.simps) (auto simp: Let_def)
  qed
qed

lemma read_string_validated_eq:
  "read_string_validated data offset max_length =
     (let s = field_at data offset in
      if offset + length s < length data \<and> length s \<le> max_length
      then (string_of s, offset + length s + 1) else ([], SIZE_MAX))"
proof (cases "offset < length data")
  case False
  then show ?thesis
    by (simp add: read_string_validated_def Let_def)
next
  case True
  let ?s = "field_at data offset"
  show ?thesis
  proof (cases "length ?s \<le> max_length")
    case le: True
    then show ?thesis
      using nth_after_field [of offset data] True
      by (auto simp: read_string_validated_def read_chars_eq Let_def min_def)
  next
    case False
    then have "data ! (offset + max_length) \<noteq> 0" and "offset + max_length < length data"
      using nth_field_at [of max_length data offset] field_at_bound [of offset data] True by auto
    with False True show ?thesis
      by (simp add: read_string_validated_def read_chars_eq Let_def min_def)
  qed
qed

lemma zero_notin_field_at [simp]: "0 \<notin> set (field_at data offset)"
  by (auto simp: field_at_def dest: set_takeWhileD)

lemma read_string_validated_ok:
  assumes "read_string_validated data offset max_length = (s, off)" and "off \<noteq> SIZE_MAX"
  shows "s = string_of (field_at data offset)" and "off = offset + length s + 1"
    and "off \<le> length data" and "length s \<le> max_length" and "NUL \<notin> set s"
  using assms by (auto simp: read_string_validated_eq Let_def simp flip: set_map split: if_splits)

lemma field_at_put_string:
  "NUL \<notin> set s \<Longrightarrow> field_at (pre @ put_string s @ rest) (length pre) = bytes_of s"
  by (simp add: field_at_def put_string_def) (subst takeWhile_append2; auto)

lemma read_put_string:
  assumes "NUL \<notin> set s" and "length s \<le> max_length"
  shows "read_string_validated (pre @ put_string s @ rest) (length pre) max_length =
    (s, length pre + length s + 1)"
  using assms field_at_put_string [of s pre rest]
  by (simp add: read_string_validated_eq put_string_def)

subsection \<open>The option list\<close>

definition option_text_ok :: "nat \<Rightarrow> string \<Rightarrow> bool" where
  "option_text_ok max_length s = (s \<noteq> [] \<and> length s \<le> max_length \<and> NUL \<notin> set s)"

definition option_ok :: "string \<times> string \<Rightarrow> bool" where
  "option_ok kv = (option_text_ok kMaxOptionNameLength (fst kv) \<and>
     option_text_ok kMaxOptionValueLength (snd kv))"

lemma length_put_string [simp]: "length (put_string s) = Suc (length s)"
  by (simp add: put_string_def)

lemma parse_options_stop:
  "\<not> (offset < length data \<and> options_count < kMaxOptionsCount) \<Longrightarrow>
   parse_options data offset options_count opts = Some (offset, options_count, opts)"
  by (subst parse_options.simps) (simp only: if_False)

lemma parse_options_step:
  assumes "option_ok (k, v)" and "options_count < kMaxOptionsCount"
    and "length (pre @ put_string k @ put_string v @ rest) < SIZE_MAX"
  shows "parse_options (pre @ put_string k @ put_string v @ rest) (length pre) options_count opts =
    parse_options (pre @ put_string k @ put_string v @ rest)
      (length (pre @ put_string k @ put_string v)) (Suc options_count) (umap_assign k v opts)"
proof -
  let ?data = "pre @ put_string k @ put_string v @ rest"
  have k: "read_string_validated ?data (length pre) kMaxOptionNameLength = (k, length pre + length k + 1)"
    using assms(1) by (intro read_put_string) (simp_all add: option_ok_def option_text_ok_def)
  have "read_string_validated ((pre @ put_string k) @ put_string v @ rest)
      (length (pre @ put_string k)) kMaxOptionValueLength =
      (v, length (pre @ put_string k) + length v + 1)"
    using assms(1) by (intro read_put_string) (simp_all add: option_ok_def option_text_ok_def)
  then have v: "read_string_validated ?data (Suc (length pre + length k)) kMaxOptionValueLength =
      (v, length pre + length k + length v + 2)"
    by simp
  have "k \<noteq> []" and "v \<noteq> []"
    using assms(1) by (simp_all add: option_ok_def option_text_ok_def)
  then show ?thesis
    using assms(2,3) by (subst parse_options.simps) (simp add: k v add.assoc)
qed

lemma parse_put_options:
  assumes "list_all option_ok kvs" and "options_count + length kvs \<le> kMaxOptionsCount"
    and "length (pre @ put_options kvs) < SIZE_MAX"
  shows "parse_options (pre @ put_options kvs) (length pre) options_count opts =
    Some (length (pre @ put_options kvs), options_count + length kvs, umap.assign_all kvs opts)"
  using assms
proof (induction kvs arbitrary: pre options_count opts)
  case Nil
  then show ?case by (simp add: parse_options_stop)
next
  case (Cons kv kvs)
  obtain k v where kv: "kv = (k, v)" by fastforce
  let ?pre = "pre @ put_string k @ put_string v"
  have "parse_options (pre @ put_options (kv # kvs)) (length pre) options_count opts =
      parse_options (?pre @ put_options kvs) (length ?pre) (Suc options_count) (umap_assign k v opts)"
    using parse_options_step [of k v options_count pre "put_options kvs" opts] Cons.prems
    by (simp add: kv)
  also have "\<dots> = Some (length (?pre @ put_options kvs), Suc options_count + length kvs,
      umap.assign_all kvs (umap_assign k v opts))"
    using Cons.prems by (intro Cons.IH) (simp_all add: kv)
  finally show ?case by (simp add: kv)
qed

lemma parse_oack_options_eq:
  "parse_oack_options data offset options_count opts = parse_options data offset options_count opts"
proof (induction data offset options_count opts rule: parse_options.induct)
  case (1 data offset options_count opts)
  show ?case
    by (subst parse_options.simps, subst parse_oack_options.simps)
      (simp add: "1.IH" Let_def split: prod.splits)
qed

lemma put_options_assign_length:
  "length (put_options (umap_assign k v m)) \<le> length (put_options m) + length k + length v + 2"
  unfolding umap_assign_def
  by (induction m) auto

lemma list_all_umap_assign:
  "list_all P m \<Longrightarrow> P (k, v) \<Longrightarrow> list_all P (umap_assign k v m)"
  unfolding umap_assign_def
  by (induction m) auto

text \<open>What every accepted option list satisfies.\<close>

definition options_ok :: "(string, string) umap \<Rightarrow> bool" where
  "options_ok m = (umap_ok m \<and> list_all option_ok m \<and> length m \<le> kMaxOptionsCount)"

lemma parse_options_ok:
  assumes "parse_options data offset options_count opts = Some (off', count', opts')"
    and "offset \<le> length data" and "options_count \<le> kMaxOptionsCount"
    and "umap_ok opts" and "list_all option_ok opts" and "length opts \<le> options_count"
  shows "umap_ok opts' \<and> list_all option_ok opts' \<and> length opts' \<le> count' \<and>
    count' \<le> kMaxOptionsCount \<and> off' \<le> length data \<and>
    length (put_options opts') + offset \<le> length (put_options opts) + off'"
  using assms
proof (induction data offset options_count opts rule: parse_options.induct)
  case (1 data offset options_count opts)
  show ?case
  proof (cases "offset < length data \<and> options_count < kMaxOptionsCount")
    case False
    then show ?thesis using "1.prems" by (simp add: parse_options_stop)
  next
    case go: True
    obtain k off1 where k: "read_string_validated data offset kMaxOptionNameLength = (k, off1)"
      by fastforce
    obtain v off2 where v: "read_string_validated data off1 kMaxOptionValueLength = (v, off2)"
      by fastforce
    have off1: "off1 \<noteq> SIZE_MAX"
      using "1.prems"(1) go k by (subst (asm) parse_options.simps) (auto split: if_splits)
    note kf = read_string_validated_ok [OF k off1]
    show ?thesis
    proof (cases "k = []")
      case True
      then show ?thesis
        using "1.prems" go k off1 kf by (subst (asm) parse_options.simps) simp
    next
      case False
      then have off2: "off2 \<noteq> SIZE_MAX" and "v \<noteq> []" and lt: "off1 < length data"
        and rec: "parse_options data off2 (Suc options_count) (umap_assign k v opts) = Some (off', count', opts')"
        using "1.prems"(1) go k v off1
        by (subst (asm) parse_options.simps; auto split: if_splits)+
      note vf = read_string_validated_ok [OF v off2]
      have "option_ok (k, v)"
        using kf vf False \<open>v \<noteq> []\<close> by (simp add: option_ok_def option_text_ok_def)
      then have "umap_ok opts' \<and> list_all option_ok opts' \<and> length opts' \<le> count' \<and>
          count' \<le> kMaxOptionsCount \<and> off' \<le> length data \<and>
          length (put_options opts') + off2 \<le> length (put_options (umap_assign k v opts)) + off'"
        using "1.prems" go vf umap.length_elems_assign [of opts k v]
        by (intro "1.IH" [OF go k [symmetric] refl off1 False _ v [symmetric] refl off2 \<open>v \<noteq> []\<close> rec])
          (auto simp: lt umap.invar_assign list_all_umap_assign)
      then show ?thesis
        using put_options_assign_length [of k v opts] kf(2) vf(2) by linarith
    qed
  qed
qed

subsection \<open>Well-formed packets\<close>

text \<open>
  What the fields of a packet of each kind satisfy; the members a kind does not use keep the
  values of the default constructor.
\<close>

definition message_ok :: "nat \<Rightarrow> string \<Rightarrow> bool" where
  "message_ok max_length s = (length s \<le> max_length \<and> NUL \<notin> set s)"

definition request_ok :: "TftpPacket \<Rightarrow> bool" where
  "request_ok p = (option_text_ok kMaxFilenameLength (pk_filename p) \<and>
     transfermode_known (pk_mode p) \<and> options_ok (pk_options p) \<and>
     p = new_packet\<lparr>pk_op_code := pk_op_code p, pk_filename := pk_filename p, pk_mode := pk_mode p,
           pk_options := pk_options p\<rparr>)"

definition packet_ok :: "TftpPacket \<Rightarrow> bool" where
  "packet_ok p = (case pk_op_code p of
       kReadRequest \<Rightarrow> request_ok p
     | kWriteRequest \<Rightarrow> request_ok p
     | kData \<Rightarrow> length (pk_data p) \<le> kMaxDataSize \<and>
         p = new_packet\<lparr>pk_op_code := kData, pk_block_number := pk_block_number p, pk_data := pk_data p\<rparr>
     | kAcknowledge \<Rightarrow> p = CreateAck (pk_block_number p)
     | kError \<Rightarrow> errorcode_known (pk_error_code p) \<and>
         message_ok kMaxErrorMessageLength (pk_error_message p) \<and>
         p = CreateError (pk_error_code p) (pk_error_message p)
     | kOACK \<Rightarrow> options_ok (pk_options p) \<and> p = CreateOACK (pk_options p)
     | OpCode_unknown v \<Rightarrow> False)"

lemma ResetState_new [simp]: "ResetState p = new_packet"
  by (simp add: ResetState_def new_packet_def)

lemma mode_to_string_known: "transfermode_known m \<Longrightarrow> \<exists>s. mode_to_string m = Inr s"
  by (cases m) auto

lemma string_to_mode_to_string: "mode_to_string m = Inr s \<Longrightarrow> string_to_mode s = Inr m"
  by (cases m) (auto simp: string_to_mode_def tolower_def)

lemma mode_string_ok: "mode_to_string m = Inr s \<Longrightarrow> s \<noteq> [] \<and> length s \<le> 8 \<and> NUL \<notin> set s"
  by (cases m) (auto simp: NUL_def)

lemma string_to_mode_known: "string_to_mode s = Inr m \<Longrightarrow> transfermode_known m"
  by (auto simp: string_to_mode_def Let_def split: if_splits)

lemma mode_string_length:
  "string_to_mode s = Inr m \<Longrightarrow> mode_to_string m = Inr s' \<Longrightarrow> length s' = length s"
  by (auto simp: string_to_mode_def Let_def dest!: arg_cong [of "map tolower s" _ length] split: if_splits)

lemma Deserialize_dispatch:
  assumes "kMinPacketSize \<le> length data" and "length data \<le> kMaxPacketSize"
  shows "Deserialize data q =
    (let c = opcode_of (get16 data 0); p = new_packet\<lparr>pk_op_code := c\<rparr> in
     case c of
       kReadRequest \<Rightarrow> parse_request data p
     | kWriteRequest \<Rightarrow> parse_request data p
     | kData \<Rightarrow> parse_data data p
     | kAcknowledge \<Rightarrow> parse_ack data p
     | kError \<Rightarrow> parse_error data p
     | kOACK \<Rightarrow> parse_oack data p
     | OpCode_unknown v \<Rightarrow> (False, p))"
proof -
  have "data \<noteq> []" and "\<not> length data < 2"
    using assms(1) by (auto simp: guard_simps)
  moreover have "opcode_known c \<Longrightarrow> c \<noteq> OpCode_unknown v" for c v
    by auto
  ultimately show ?thesis
    using assms opcode_known_iff [of "get16 data 0"]
    by (auto simp: Deserialize_def Let_def split: OpCode.splits)
qed

lemma umap_assign_all_append:
  "distinct (map fst (m @ kvs)) \<Longrightarrow> umap.assign_all kvs m = m @ kvs"
proof (induction kvs arbitrary: m)
  case Nil
  then show ?case by simp
next
  case (Cons kv kvs)
  obtain k v where kv: "kv = (k, v)" by fastforce
  have "k \<notin> set (map fst m)"
    using Cons.prems by (simp add: kv)
  then have "umap_assign k v m = m @ [(k, v)]"
    unfolding umap_assign_def by (induction m) auto
  then show ?case
    using Cons.IH [of "m @ [(k, v)]"] Cons.prems by (simp add: kv)
qed

lemma parse_request_encoded:
  assumes ok: "option_text_ok kMaxFilenameLength fname" and m: "mode_to_string m = Inr ms"
    and opts: "options_ok opts" and op: "length op = 2"
    and len: "length (op @ put_string fname @ put_string ms @ put_options opts) < SIZE_MAX"
  shows "parse_request (op @ put_string fname @ put_string ms @ put_options opts) p =
    (True, p\<lparr>pk_filename := fname, pk_mode := m, pk_options := opts\<rparr>)"
proof -
  let ?data = "op @ put_string fname @ put_string ms @ put_options opts"
  let ?pre = "op @ put_string fname @ put_string ms"
  have f: "read_string_validated ?data 2 kMaxFilenameLength = (fname, Suc (Suc (Suc (length fname))))"
    using read_put_string [of fname kMaxFilenameLength op] ok op by (simp add: option_text_ok_def)
  have "read_string_validated ((op @ put_string fname) @ put_string ms @ put_options opts)
      (length (op @ put_string fname)) kMaxStringLength = (ms, length (op @ put_string fname) + length ms + 1)"
    using mode_string_ok [OF m] by (intro read_put_string) (auto simp: guard_simps)
  then have ms: "read_string_validated ?data (Suc (Suc (Suc (length fname)))) kMaxStringLength = (ms, length ?pre)"
    using op by simp
  have "parse_options (?pre @ put_options opts) (length ?pre) 0 [] =
      Some (length (?pre @ put_options opts), 0 + length opts, umap.assign_all opts [])"
    using opts len by (intro parse_put_options) (simp_all add: options_ok_def)
  then have o: "parse_options ?data (length ?pre) 0 [] = Some (length ?data, length opts, opts)"
    using opts by (simp add: options_ok_def umap_ok_def umap_assign_all_append)
  show ?thesis
    using f ms o len op ok mode_string_ok [OF m] string_to_mode_to_string [OF m]
    by (simp add: parse_request_def option_text_ok_def)
qed

text \<open>The packets agree: every member is equal, the options as maps.\<close>

definition same_packet :: "TftpPacket \<Rightarrow> TftpPacket \<Rightarrow> bool" where
  "same_packet p q = (p\<lparr>pk_options := []\<rparr> = q\<lparr>pk_options := []\<rparr> \<and>
     umap_find (pk_options p) = umap_find (pk_options q))"

lemma same_packet_refl [simp]: "same_packet p p"
  by (simp add: same_packet_def)

lemma parse_error_encoded:
  assumes "errorcode_known code" and "message_ok kMaxErrorMessageLength msg"
  shows "parse_error (put16 5 @ put16 (errorcode_value code) @ put_string msg) p =
    (True, p\<lparr>pk_error_code := code, pk_error_message := msg\<rparr>)"
proof -
  let ?data = "put16 5 @ put16 (errorcode_value code) @ put_string msg"
  have "read_string_validated ?data 4 kMaxErrorMessageLength = (msg, 4 + length msg + 1)"
    using read_put_string [of msg kMaxErrorMessageLength
        "put16 5 @ put16 (errorcode_value code)" "[]"] assms(2)
    by (simp add: message_ok_def)
  moreover have "4 + length msg + 1 \<noteq> SIZE_MAX"
    using assms(2) by (simp add: message_ok_def guard_simps SIZE_MAX_def)
  ultimately show ?thesis
    using assms(1) by (simp add: parse_error_def errorcode_value_le_7 errorcode_of_value)
qed

lemma parse_oack_encoded:
  assumes "options_ok opts" and "length (put16 6 @ put_options opts) < SIZE_MAX"
  shows "parse_oack (put16 6 @ put_options opts) p = (True, p\<lparr>pk_options := opts\<rparr>)"
proof -
  have "parse_options (put16 6 @ put_options opts) (length (put16 6)) 0 [] =
      Some (length (put16 6 @ put_options opts), length opts, opts)"
    using assms
    by (subst parse_put_options) (auto simp: options_ok_def umap_ok_def umap_assign_all_append)
  then show ?thesis
    by (simp add: parse_oack_def parse_oack_options_eq)
qed

lemma Serialize_request:
  assumes "request_ok p" and "pk_op_code p = kReadRequest \<or> pk_op_code p = kWriteRequest"
  obtains ms where "mode_to_string (pk_mode p) = Inr ms"
    and "Serialize p = Inr (put16 (opcode_value (pk_op_code p)) @ put_string (pk_filename p)
           @ put_string ms @ put_options (pk_options p))"
  using assms mode_to_string_known [of "pk_mode p"]
  by (auto simp: request_ok_def Serialize_def)

lemma Deserialize_Serialize_request:
  assumes ok: "request_ok p" and op: "pk_op_code p = kReadRequest \<or> pk_op_code p = kWriteRequest"
    and ser: "Serialize p = Inr bs" and size: "kMinPacketSize \<le> length bs" "length bs \<le> kMaxPacketSize"
  shows "Deserialize bs q = (True, p)"
proof -
  obtain ms where ms: "mode_to_string (pk_mode p) = Inr ms"
    and bs: "bs = put16 (opcode_value (pk_op_code p)) @ put_string (pk_filename p)
           @ put_string ms @ put_options (pk_options p)"
    using Serialize_request [OF ok op] ser by auto
  have lt: "length bs < SIZE_MAX"
    using size(2) by (simp add: guard_simps SIZE_MAX_def)
  have "parse_request bs (new_packet\<lparr>pk_op_code := pk_op_code p\<rparr>) = (True, p)"
    using ok lt ms unfolding bs by (subst parse_request_encoded) (auto simp: request_ok_def)
  moreover have "opcode_of (get16 bs 0) = pk_op_code p"
    using op bs by (auto simp: opcode_of_eq_iff)
  ultimately show ?thesis
    using op by (auto simp: Deserialize_dispatch [OF size])
qed

lemma Deserialize_Serialize:
  assumes ok: "packet_ok p" and ser: "Serialize p = Inr bs"
    and size: "kMinPacketSize \<le> length bs" "length bs \<le> kMaxPacketSize"
  shows "Deserialize bs q = (True, p)"
proof -
  have op: "opcode_of (get16 bs 0) = pk_op_code p"
    using ok ser
    by (auto simp: packet_ok_def Serialize_def opcode_of_eq_iff split: OpCode.splits sum.splits)
  note disp = Deserialize_dispatch [OF size, of q, unfolded op]
  show ?thesis
  proof (cases "pk_op_code p")
    case kData
    then show ?thesis
      using ok ser disp
      by (auto simp: packet_ok_def Serialize_def parse_data_def guard_simps Let_def get16_def put16_def)
  next
    case kAcknowledge
    then show ?thesis
      using ok ser disp
      by (auto simp: packet_ok_def Serialize_def parse_ack_def CreateAck_def get16_def put16_def)
  next
    case kError
    then show ?thesis
      using ok ser disp
      by (auto simp: packet_ok_def Serialize_def parse_error_encoded CreateError_def)
  next
    case kOACK
    then show ?thesis
      using ok ser disp size
      by (auto simp: packet_ok_def Serialize_def parse_oack_encoded CreateOACK_def guard_simps SIZE_MAX_def)
  qed (use Deserialize_Serialize_request [OF _ _ ser size] ok in \<open>auto simp: packet_ok_def\<close>)
qed

subsection \<open>What a parse guarantees\<close>

lemma Deserialize_size:
  assumes "Deserialize bs q = (True, p)"
  shows "kMinPacketSize \<le> length bs" and "length bs \<le> kMaxPacketSize"
  using assms by (auto simp: Deserialize_def split: if_splits)

lemma parse_request_ok:
  assumes "parse_request bs p0 = (True, p)"
  obtains fname ms m opts where "p = p0\<lparr>pk_filename := fname, pk_mode := m, pk_options := opts\<rparr>"
    and "option_text_ok kMaxFilenameLength fname" and "string_to_mode ms = Inr m" and "options_ok opts"
    and "4 + length fname + length ms + length (put_options opts) \<le> length bs"
proof -
  obtain fname off1 where f: "read_string_validated bs 2 kMaxFilenameLength = (fname, off1)"
    by fastforce
  obtain ms off2 where m: "read_string_validated bs off1 kMaxStringLength = (ms, off2)"
    by fastforce
  have off1: "off1 \<noteq> SIZE_MAX" and fne: "fname \<noteq> []"
    using assms f by (auto simp: parse_request_def split: if_splits)
  have off2: "off2 \<noteq> SIZE_MAX"
    using assms f m off1 fne by (auto simp: parse_request_def split: if_splits)
  obtain md off3 c opts where md: "string_to_mode ms = Inr md"
    and o: "parse_options bs off2 0 [] = Some (off3, c, opts)"
    and p: "p = p0\<lparr>pk_filename := fname, pk_mode := md, pk_options := opts\<rparr>"
    using assms f m off1 fne off2
    by (auto simp: parse_request_def split: if_splits sum.splits option.splits)
  note ff = read_string_validated_ok [OF f off1] and mf = read_string_validated_ok [OF m off2]
  have "umap_ok opts \<and> list_all option_ok opts \<and> length opts \<le> c \<and> c \<le> kMaxOptionsCount \<and>
      off3 \<le> length bs \<and> length (put_options opts) + off2 \<le> length (put_options []) + off3"
    using mf by (intro parse_options_ok [OF o]) (auto simp: umap_ok_def)
  then show thesis
    using p md ff mf fne by (intro that) (auto simp: options_ok_def option_text_ok_def)
qed

lemma parse_error_ok:
  assumes "parse_error bs p0 = (True, p)"
  obtains code msg where "p = p0\<lparr>pk_error_code := code, pk_error_message := msg\<rparr>"
    and "errorcode_known code" and "message_ok kMaxErrorMessageLength msg"
    and "5 + length msg \<le> length bs"
proof -
  obtain msg off1 where m: "read_string_validated bs 4 kMaxErrorMessageLength = (msg, off1)"
    by fastforce
  have off1: "off1 \<noteq> SIZE_MAX" and code: "\<not> get16 bs 2 > 7"
    and p: "p = p0\<lparr>pk_error_code := errorcode_of (get16 bs 2), pk_error_message := msg\<rparr>"
    using assms m by (auto simp: parse_error_def Let_def split: if_splits)
  show thesis
    using read_string_validated_ok [OF m off1] p code errorcode_known_iff [of "get16 bs 2"]
    by (intro that) (auto simp: message_ok_def)
qed

lemma parse_oack_ok:
  assumes "parse_oack bs p0 = (True, p)" and "2 \<le> length bs"
  obtains opts where "p = p0\<lparr>pk_options := opts\<rparr>" and "options_ok opts"
    and "2 + length (put_options opts) \<le> length bs"
proof -
  obtain off3 c opts where o: "parse_options bs 2 0 [] = Some (off3, c, opts)"
    and p: "p = p0\<lparr>pk_options := opts\<rparr>"
    using assms(1) by (auto simp: parse_oack_def parse_oack_options_eq split: if_splits option.splits)
  have "umap_ok opts \<and> list_all option_ok opts \<and> length opts \<le> c \<and> c \<le> kMaxOptionsCount \<and>
      off3 \<le> length bs \<and> length (put_options opts) + 2 \<le> length (put_options []) + off3"
    using assms(2) by (intro parse_options_ok [OF o]) (auto simp: umap_ok_def)
  then show thesis
    using p by (intro that) (auto simp: options_ok_def)
qed

text \<open>
  A successful parse yields a well-formed packet whose serialization exists and is no longer
  than the bytes that were parsed.
\<close>

lemma parse_request_wf:
  assumes "parse_request bs (new_packet\<lparr>pk_op_code := c\<rparr>) = (True, p)"
    and "c = kReadRequest \<or> c = kWriteRequest"
  shows "packet_ok p \<and> (\<exists>bs'. Serialize p = Inr bs' \<and> length bs' \<le> length bs)"
proof -
  obtain fname ms m opts where p: "p = new_packet\<lparr>pk_op_code := c, pk_filename := fname, pk_mode := m, pk_options := opts\<rparr>"
    and f: "option_text_ok kMaxFilenameLength fname" and m: "string_to_mode ms = Inr m" and o: "options_ok opts"
    and len: "4 + length fname + length ms + length (put_options opts) \<le> length bs"
    by (rule parse_request_ok [OF assms(1)])
  have ok: "request_ok p"
    using p f o string_to_mode_known [OF m] by (simp add: request_ok_def)
  have op: "pk_op_code p = kReadRequest \<or> pk_op_code p = kWriteRequest"
    using assms(2) p by simp
  obtain s where "mode_to_string m = Inr s" and "Serialize p = Inr (put16 (opcode_value c)
      @ put_string fname @ put_string s @ put_options opts)"
    using Serialize_request [OF ok op] p by auto
  moreover from this(1) have "length s = length ms"
    by (rule mode_string_length [OF m])
  ultimately show ?thesis
    using ok op len by (auto simp: packet_ok_def)
qed

lemma Deserialize_wf:
  assumes d: "Deserialize bs q = (True, p)"
  shows "packet_ok p \<and> (\<exists>bs'. Serialize p = Inr bs' \<and> length bs' \<le> length bs)"
proof -
  note size = Deserialize_size [OF d]
  let ?c = "opcode_of (get16 bs 0)"
  let ?p0 = "new_packet\<lparr>pk_op_code := ?c\<rparr>"
  note disp = d [unfolded Deserialize_dispatch [OF size] Let_def]
  show ?thesis
  proof (cases ?c)
    case kData
    then show ?thesis
      using disp size by (auto simp: parse_data_def packet_ok_def Serialize_def guard_simps Let_def split: if_splits)
  next
    case kAcknowledge
    then show ?thesis
      using disp by (auto simp: parse_ack_def packet_ok_def Serialize_def CreateAck_def split: if_splits)
  next
    case kError
    then have "parse_error bs ?p0 = (True, p)"
      using disp by simp
    then obtain code msg where "p = ?p0\<lparr>pk_error_code := code, pk_error_message := msg\<rparr>"
      and "errorcode_known code" and "message_ok kMaxErrorMessageLength msg" and "5 + length msg \<le> length bs"
      by (rule parse_error_ok)
    then show ?thesis
      using kError by (simp add: packet_ok_def Serialize_def CreateError_def)
  next
    case kOACK
    then have "parse_oack bs ?p0 = (True, p)" and "2 \<le> length bs"
      using disp size by (simp_all add: guard_simps)
    then obtain opts where "p = ?p0\<lparr>pk_options := opts\<rparr>" and "options_ok opts"
      and "2 + length (put_options opts) \<le> length bs"
      by (rule parse_oack_ok)
    then show ?thesis
      using kOACK by (simp add: packet_ok_def Serialize_def CreateOACK_def)
  qed (use disp parse_request_wf [of bs ?c p] in auto)
qed

lemma Deserialize_failure:
  assumes "Deserialize bs q = (False, p)"
  shows "p = new_packet\<lparr>pk_op_code := pk_op_code p\<rparr>"
proof (cases "kMinPacketSize \<le> length bs \<and> length bs \<le> kMaxPacketSize")
  case True
  then show ?thesis
    using assms
    by (auto simp: Deserialize_dispatch Let_def parse_request_def parse_data_def parse_ack_def
        parse_error_def parse_oack_def guard_simps split: OpCode.splits if_splits prod.splits sum.splits option.splits)
next
  case False
  then have "length bs < kMinPacketSize \<or> length bs > kMaxPacketSize"
    by linarith
  then have "p = new_packet"
    using assms by (simp add: Deserialize_def split: if_splits)
  then show ?thesis
    by (simp add: new_packet_def)
qed

lemma factories_ok:
  "option_text_ok kMaxFilenameLength f \<Longrightarrow> transfermode_known m \<Longrightarrow> packet_ok (CreateReadRequest f m)"
  "option_text_ok kMaxFilenameLength f \<Longrightarrow> transfermode_known m \<Longrightarrow> packet_ok (CreateWriteRequest f m)"
  "CreateData n bs = Inr p \<Longrightarrow> packet_ok p"
  "packet_ok (CreateAck n)"
  "errorcode_known c \<Longrightarrow> message_ok kMaxErrorMessageLength msg \<Longrightarrow> packet_ok (CreateError c msg)"
  "options_ok opts \<Longrightarrow> packet_ok (CreateOACK opts)"
  by (auto simp: packet_ok_def request_ok_def CreateReadRequest_def CreateWriteRequest_def
      CreateData_def CreateAck_def CreateError_def CreateOACK_def options_ok_def umap_ok_def
      new_packet_def split: if_splits)

lemma HasOption_SetOption:
  "GetOption (SetOption k v p) k' = (if k' = k then v else GetOption p k')"
  "HasOption (SetOption k v p) k' \<longleftrightarrow> k' = k \<or> HasOption p k'"
  by (simp_all add: GetOption_def HasOption_def SetOption_def umap_find_def umap_assign_def update_conv)

lemma Deserialize_failure_op:
  assumes "Deserialize bs q = (False, p)"
  shows "pk_op_code p =
    (if kMinPacketSize \<le> length bs \<and> length bs \<le> kMaxPacketSize
     then opcode_of (get16 bs 0) else kReadRequest)"
proof (cases "kMinPacketSize \<le> length bs \<and> length bs \<le> kMaxPacketSize")
  case True
  then show ?thesis
    using assms
    by (auto simp: Deserialize_dispatch Let_def parse_request_def parse_data_def parse_ack_def
        parse_error_def parse_oack_def guard_simps split: OpCode.splits if_splits prod.splits sum.splits option.splits)
next
  case False
  then have "length bs < kMinPacketSize \<or> length bs > kMaxPacketSize"
    by linarith
  then have "p = new_packet"
    using assms by (simp add: Deserialize_def split: if_splits)
  then show ?thesis
    using False by (auto simp: new_packet_def)
qed

lemma Serialize_min_size:
  assumes "packet_ok p" and "Serialize p = Inr bs" and "pk_op_code p = kOACK \<longrightarrow> pk_options p \<noteq> []"
  shows "kMinPacketSize \<le> length bs"
proof (cases "pk_op_code p")
  case kOACK
  then obtain k v opts where "pk_options p = (k, v) # opts" and "k \<noteq> []"
    using assms by (cases "pk_options p") (auto simp: packet_ok_def options_ok_def option_ok_def option_text_ok_def)
  then show ?thesis
    using assms(2) kOACK by (auto simp: Serialize_def guard_simps)
qed (use assms in \<open>auto simp: Serialize_def packet_ok_def guard_simps split: sum.splits\<close>)

subsection \<open>Properties\<close>

text \<open>
  C1. Round trip: a well-formed packet whose serialization has an admissible size is read back
  from its bytes as the same packet, whatever the receiving object held before.
\<close>

theorem packet_roundtrip:
  assumes "packet_ok p" and "Serialize p = Inr bs"
    and "kMinPacketSize \<le> length bs" and "length bs \<le> kMaxPacketSize"
  shows "\<exists>p'. Deserialize bs q = (True, p') \<and> same_packet p' p"
  using Deserialize_Serialize [OF assms] by auto

definition wrq_example :: TftpPacket where
  "wrq_example = SetOption ''tsize'' ''1024'' (CreateWriteRequest ''fw.bin'' kOctet)"

theorem packet_roundtrip_witness:
  "packet_ok wrq_example \<and>
   (\<exists>p'. Deserialize ([0, 2] @ bytes_of ''fw.bin'' @ [0] @ bytes_of ''octet'' @ [0] @
      bytes_of ''tsize'' @ [0] @ bytes_of ''1024'' @ [0]) new_packet = (True, p') \<and>
     same_packet p' wrq_example)"
proof -
  let ?bs = "[0, 2] @ bytes_of ''fw.bin'' @ [0] @ bytes_of ''octet'' @ [0] @
      bytes_of ''tsize'' @ [0] @ bytes_of ''1024'' @ [0]"
  have ok: "packet_ok wrq_example" by code_simp
  have "Serialize wrq_example = Inr ?bs" by code_simp
  moreover have "kMinPacketSize \<le> length ?bs" and "length ?bs \<le> kMaxPacketSize"
    by (simp_all add: guard_simps)
  ultimately show ?thesis
    using ok packet_roundtrip [OF ok] by blast
qed

text \<open>
  C18. Every accepted datagram yields a well-formed packet (bounded, NUL-free strings, known codes,
  at most 16 options with distinct names, at most 512 bytes of data), whose serialization is no longer
  than the datagram. The serialization parses to the same packet again, whatever the receiving object
  held, for all packets but one: an acknowledgement of options without any option, which can be received
  with trailing bytes, is written as the two bytes of the operation code, and these are refused.
\<close>

theorem parsed_packet_normal_form:
  assumes "Deserialize bs q = (True, p)"
  shows "packet_ok p \<and> (\<exists>bs'. Serialize p = Inr bs' \<and> length bs' \<le> length bs \<and>
    (if pk_op_code p = kOACK \<and> pk_options p = [] then bs' = [0, 6] \<and> fst (Deserialize bs' q') = False
     else (\<exists>p'. Deserialize bs' q' = (True, p') \<and> same_packet p' p)))"
proof -
  obtain bs' where ok: "packet_ok p" and ser: "Serialize p = Inr bs'" and len: "length bs' \<le> length bs"
    using Deserialize_wf [OF assms] by blast
  show ?thesis
  proof (cases "pk_op_code p = kOACK \<and> pk_options p = []")
    case True
    then have "bs' = [0, 6]"
      using ser by (auto simp: Serialize_def put16_def hi_byte_def lo_byte_def)
    moreover have "fst (Deserialize [0, 6] q') = False"
      by (simp add: Deserialize_def guard_simps)
    ultimately show ?thesis
      using True ok ser len by auto
  next
    case False
    then have "kMinPacketSize \<le> length bs'" and "length bs' \<le> kMaxPacketSize"
      using Serialize_min_size [OF ok ser] len Deserialize_size [OF assms] by auto
    then have "Deserialize bs' q' = (True, p)"
      by (rule Deserialize_Serialize [OF ok ser])
    then show ?thesis
      using False ok ser len by auto
  qed
qed

theorem parsed_packet_normal_form_witness:
  "packet_ok (CreateReadRequest ''a'' kNetAscii) \<and>
   (\<exists>bs'. Serialize (CreateReadRequest ''a'' kNetAscii) = Inr bs' \<and> length bs' \<le> 13 \<and>
     (\<exists>p'. Deserialize bs' new_packet = (True, p') \<and> same_packet p' (CreateReadRequest ''a'' kNetAscii))) \<and>
   (\<exists>p. Deserialize [0, 6, 0, 0] new_packet = (True, p) \<and> Serialize p = Inr [0, 6])"
proof -
  let ?bs = "[0, 1] @ bytes_of ''a'' @ [0] @ bytes_of ''NetASCII'' @ [0]"
  let ?p = "CreateReadRequest ''a'' kNetAscii" and ?q = "new_packet\<lparr>pk_op_code := kOACK\<rparr>"
  have d: "Deserialize ?bs new_packet = (True, ?p)" and e: "Deserialize [0, 6, 0, 0] new_packet = (True, ?q)"
    by code_simp+
  have "length ?bs = 13" "pk_op_code ?p \<noteq> kOACK" "pk_op_code ?q = kOACK" "pk_options ?q = []"
    by (simp_all add: CreateReadRequest_def new_packet_def)
  then show ?thesis
    using parsed_packet_normal_form [OF d, of new_packet] parsed_packet_normal_form [OF e, of new_packet] e by auto
qed

text \<open>
  A rejected datagram leaves the object with the members of a new packet, except for the
  operation code: once the size check is passed it is the one read from the datagram, also when it
  is no operation code at all.
\<close>

lemma rejected_packet_state:
  assumes "Deserialize bs q = (False, p)"
  shows "p = new_packet\<lparr>pk_op_code :=
    (if kMinPacketSize \<le> length bs \<and> length bs \<le> kMaxPacketSize
     then opcode_of (get16 bs 0) else kReadRequest)\<rparr>"
  using Deserialize_failure [OF assms] Deserialize_failure_op [OF assms] by simp

text \<open>
  The string reader accepts at an offset exactly the NUL-terminated strings of admissible
  length that stand there: with data shorter than \<^verbatim>\<open>SIZE_MAX\<close> the failure value of the offset
  is never confused with a position.
\<close>

lemma string_reader_exact:
  assumes "length data < SIZE_MAX"
  shows "(read_string_validated data offset max_length = (s, off') \<and> off' \<noteq> SIZE_MAX) \<longleftrightarrow>
    (\<exists>pre rest. data = pre @ put_string s @ rest \<and> length pre = offset \<and>
      length s \<le> max_length \<and> NUL \<notin> set s \<and> off' = offset + length s + 1)"
    (is "?read \<longleftrightarrow> ?stands")
proof
  assume r: ?read
  note ok = read_string_validated_ok [OF conjunct1 [OF r] conjunct2 [OF r]]
  let ?n = "offset + length s"
  have s: "take (length s) (drop offset data) = bytes_of s"
    using ok(1) by (simp add: field_at_def takeWhile_eq_take o_def flip: takeWhile_eq_take)
  have "data ! ?n = 0"
    using ok nth_after_field [of offset data] by simp
  then have "drop ?n data = 0 # drop (Suc ?n) data"
    using ok by (metis Cons_nth_drop_Suc Suc_eq_plus1 Suc_le_eq)
  moreover have "data = take offset data @ take (length s) (drop offset data) @ drop ?n data"
    by (metis add.commute append_take_drop_id drop_drop)
  ultimately have "data = take offset data @ put_string s @ drop (Suc ?n) data"
    using s by (simp add: put_string_def)
  moreover have "length (take offset data) = offset"
    using ok by simp
  ultimately show ?stands
    using ok by blast
next
  assume ?stands
  then show ?read
    using assms by (auto simp: read_put_string)
qed

end
