(* ===== verification/Cpp_Filesystem.thy ===== *)
theory Cpp_Filesystem
  imports Cpp_Std
begin

section \<open>Paths and the file system\<close>

text \<open>
  What the sources use of \<^verbatim>\<open>std::filesystem\<close>, on POSIX: paths as strings, and a file system that
  maps absolute locations (lists of names) to files, directories and symbolic links. Resolving a
  path follows links as the kernel does, at most \<open>MAXSYMLINKS\<close> of them. Failures other than
  \<^verbatim>\<open>ENOENT\<close>, \<^verbatim>\<open>ENOTDIR\<close> and \<^verbatim>\<open>ELOOP\<close> (permissions, name lengths, I/O errors) are not modelled.
\<close>

datatype node = File "byte list" | Dir | Symlink string

type_synonym location = "string list"

text \<open>
  \<open>fs_dir_read\<close> says what reading a directory as a file does, which differs between platforms:
  opening fails (\<open>None\<close>) or the stream operations throw.
\<close>

record filesystem =
  fs_nodes :: "(location \<times> node) list"
  fs_cwd :: location
  fs_dir_read :: "exn option"

datatype fs_error = ENOENT | ENOTDIR | ELOOP

definition MAXSYMLINKS :: nat where
  "MAXSYMLINKS = 40"

definition fs_lookup :: "filesystem \<Rightarrow> location \<Rightarrow> node option" where
  "fs_lookup fs loc = (if loc = [] then Some Dir else map_of (fs_nodes fs) loc)"

definition valid_name :: "string \<Rightarrow> bool" where
  "valid_name c = (c \<noteq> [] \<and> c \<noteq> ''.'' \<and> c \<noteq> ''..'' \<and> CHR ''/'' \<notin> set c)"

definition fs_ok :: "filesystem \<Rightarrow> bool" where
  "fs_ok fs = (list_all (\<lambda>(loc, nd). loc \<noteq> [] \<and> valid_name (last loc) \<and>
       fs_lookup fs (butlast loc) = Some Dir) (fs_nodes fs) \<and> fs_lookup fs (fs_cwd fs) = Some Dir)"

subsection \<open>Path strings\<close>

fun segs :: "string \<Rightarrow> string list" where
  "segs [] = [[]]"
| "segs (c # s) = (if c = CHR ''/'' then [] # segs s
     else (case segs s of [] \<Rightarrow> [[c]] | x # xs \<Rightarrow> (c # x) # xs))"

definition is_absolute :: "string \<Rightarrow> bool" where
  "is_absolute p = (p \<noteq> [] \<and> hd p = CHR ''/'')"

text \<open>The elements a path iterates over: the root, the names, and \<open>[]\<close> for a trailing separator.\<close>

definition path_names :: "string \<Rightarrow> string list" where
  "path_names p = filter (\<lambda>c. c \<noteq> []) (segs p)"

definition path_elems :: "string \<Rightarrow> string list" where
  "path_elems p = (if is_absolute p then [''/''] else []) @ path_names p @
     (if path_names p \<noteq> [] \<and> last p = CHR ''/'' then [[]] else [])"

definition has_filename :: "string \<Rightarrow> bool" where
  "has_filename p = (p \<noteq> [] \<and> last p \<noteq> CHR ''/'')"

text \<open>\<^verbatim>\<open>operator/\<close>.\<close>

definition path_append :: "string \<Rightarrow> string \<Rightarrow> string" where
  "path_append p q =
     (if is_absolute q then q else if has_filename p then p @ ''/'' @ q else p @ q)"

fun join_names :: "string list \<Rightarrow> string" where
  "join_names [] = []"
| "join_names [c] = c"
| "join_names (c # cs) = c @ ''/'' @ join_names cs"

definition show_location :: "location \<Rightarrow> string" where
  "show_location loc = (if loc = [] then ''/'' else concat (map (\<lambda>c. CHR ''/'' # c) loc))"

text \<open>
  \<^verbatim>\<open>lexically_normal\<close>: the names that remain and whether the last thing removed or read leaves a
  trailing separator.
\<close>

fun norm_names :: "bool \<Rightarrow> string list \<Rightarrow> bool \<Rightarrow> string list \<Rightarrow> string list \<times> bool" where
  "norm_names rooted kept trail [] = (kept, trail)"
| "norm_names rooted kept trail (c # cs) =
     (if c = [] \<or> c = ''.'' then norm_names rooted kept True cs
      else if c = ''..'' then
        (if kept \<noteq> [] \<and> last kept \<noteq> ''..'' then norm_names rooted (butlast kept) True cs
         else if kept = [] \<and> rooted then norm_names rooted kept True cs
         else norm_names rooted (kept @ [c]) False cs)
      else norm_names rooted (kept @ [c]) False cs)"

definition path_rel_elems :: "string \<Rightarrow> string list" where
  "path_rel_elems p =
     path_names p @ (if path_names p \<noteq> [] \<and> last p = CHR ''/'' then [[]] else [])"

definition show_normal :: "bool \<Rightarrow> string list \<times> bool \<Rightarrow> string" where
  "show_normal rooted kt =
     (let (kept, trail) = kt;
          s = (if rooted then ''/'' else []) @ join_names kept @
              (if trail \<and> kept \<noteq> [] \<and> last kept \<noteq> ''..'' then ''/'' else [])
      in if s = [] then ''.'' else s)"

definition lexically_normal :: "string \<Rightarrow> string" where
  "lexically_normal p =
     (if p = [] then []
      else show_normal (is_absolute p) (norm_names (is_absolute p) [] False (path_rel_elems p)))"

text \<open>\<^verbatim>\<open>lexically_relative\<close>, with the empty path where there is no relative path.\<close>

fun strip_common :: "string list \<Rightarrow> string list \<Rightarrow> string list \<times> string list" where
  "strip_common (x # xs) (y # ys) = (if x = y then strip_common xs ys else (x # xs, y # ys))"
| "strip_common xs ys = (xs, ys)"

fun climb :: "string list \<Rightarrow> int" where
  "climb [] = 0"
| "climb (c # cs) = (if c = ''..'' then -1 else if c = [] \<or> c = ''.'' then 0 else 1) + climb cs"

definition lexically_relative :: "string \<Rightarrow> string \<Rightarrow> string" where
  "lexically_relative p base =
     (if is_absolute p \<noteq> is_absolute base then []
      else let (a, b) = strip_common (path_elems p) (path_elems base); n = climb b in
        if a = [] \<and> b = [] then ''.''
        else if n < 0 then []
        else if n = 0 \<and> (a = [] \<or> hd a = []) then ''.''
        else foldl path_append [] (replicate (nat n) ''..'' @ a))"

subsection \<open>Resolution\<close>

text \<open>
  One walk along the components of a path from a directory, with the number of links that may
  still be followed; the result carries the number left.
\<close>

fun walk :: "filesystem \<Rightarrow> nat \<Rightarrow> location \<Rightarrow> string list \<Rightarrow> fs_error + nat \<times> location" where
  "walk fs n cur [] = Inr (n, cur)"
| "walk fs n cur (c # cs) =
     (if fs_lookup fs cur \<noteq> Some Dir then Inl ENOTDIR
      else if c = [] \<or> c = ''.'' then walk fs n cur cs
      else if c = ''..'' then walk fs n (butlast cur) cs
      else (case fs_lookup fs (cur @ [c]) of
          None \<Rightarrow> Inl ENOENT
        | Some nd \<Rightarrow> (case nd of
            Symlink t \<Rightarrow> if n = 0 then Inl ELOOP
              else walk fs (n - 1) (if is_absolute t then [] else cur) (segs t @ cs)
          | _ \<Rightarrow> walk fs n (cur @ [c]) cs)))"

definition start_of :: "filesystem \<Rightarrow> string \<Rightarrow> location" where
  "start_of fs p = (if is_absolute p then [] else fs_cwd fs)"

definition resolve :: "filesystem \<Rightarrow> string \<Rightarrow> fs_error + location" where
  "resolve fs p =
     (if p = [] then Inl ENOENT
      else map_sum id snd (walk fs MAXSYMLINKS (start_of fs p) (segs p)))"

text \<open>\<^verbatim>\<open>exists(p)\<close>: a missing file is no error, a loop of links is.\<close>

definition fs_exists :: "filesystem \<Rightarrow> string \<Rightarrow> bool result" where
  "fs_exists fs p = (case resolve fs p of
       Inr loc \<Rightarrow> Inr True
     | Inl ELOOP \<Rightarrow> Inl FilesystemError
     | Inl e \<Rightarrow> Inr False)"

definition canonical :: "filesystem \<Rightarrow> string \<Rightarrow> string result" where
  "canonical fs p = (case resolve fs p of
       Inr loc \<Rightarrow> Inr (show_location loc)
     | Inl e \<Rightarrow> Inl FilesystemError)"

definition absolute :: "filesystem \<Rightarrow> string \<Rightarrow> string" where
  "absolute fs p = (if is_absolute p then p else path_append (show_location (fs_cwd fs)) p)"

text \<open>
  \<^verbatim>\<open>weakly_canonical\<close>: the longest leading sequence of elements that exists is made canonical, the
  rest is appended, and the result is normalised. A relative path none of whose elements exists is
  only normalised.
\<close>

fun existing_prefix ::
  "filesystem \<Rightarrow> location \<Rightarrow> string list \<Rightarrow> string list \<Rightarrow> (string list \<times> string list) result" where
  "existing_prefix fs start found [] = Inr (found, [])"
| "existing_prefix fs start found (e # es) = (case walk fs MAXSYMLINKS start (found @ [e]) of
       Inr r \<Rightarrow> existing_prefix fs start (found @ [e]) es
     | Inl ELOOP \<Rightarrow> Inl FilesystemError
     | Inl x \<Rightarrow> Inr (found, e # es))"

definition weakly_canonical :: "filesystem \<Rightarrow> string \<Rightarrow> string result" where
  "weakly_canonical fs p = (case fs_exists fs p of
       Inl x \<Rightarrow> Inl x
     | Inr True \<Rightarrow> canonical fs p
     | Inr False \<Rightarrow> (case existing_prefix fs (start_of fs p) [] (path_rel_elems p) of
           Inl x \<Rightarrow> Inl x
         | Inr (found, rest) \<Rightarrow>
             if \<not> is_absolute p \<and> found = [] then Inr (lexically_normal p)
             else (case walk fs MAXSYMLINKS (start_of fs p) found of
                 Inl x \<Rightarrow> Inl FilesystemError
               | Inr (m, loc) \<Rightarrow> Inr (show_normal True (norm_names True [] False (loc @ rest))))))"

definition relative :: "filesystem \<Rightarrow> string \<Rightarrow> string \<Rightarrow> string result" where
  "relative fs p base = (case weakly_canonical fs p of
       Inl x \<Rightarrow> Inl x
     | Inr p' \<Rightarrow> (case weakly_canonical fs base of
           Inl x \<Rightarrow> Inl x
         | Inr base' \<Rightarrow> Inr (lexically_relative p' base')))"

subsection \<open>Lemmas on path strings\<close>

lemma segs_nonempty [simp]: "segs s \<noteq> []"
  by (induction s) (auto split: list.splits)

lemma segs_append_slash: "segs (a @ CHR ''/'' # b) = segs a @ segs b"
proof (induction a)
  case Nil
  then show ?case by simp
next
  case (Cons c a)
  then show ?case by (cases "segs a") auto
qed

lemma segs_name [simp]: "CHR ''/'' \<notin> set c \<Longrightarrow> segs c = [c]"
  by (induction c) auto

lemma segs_no_slash: "c \<in> set (segs s) \<Longrightarrow> CHR ''/'' \<notin> set c"
  by (induction s arbitrary: c) (auto split: list.splits if_splits)

lemma show_location_absolute [simp]: "is_absolute (show_location loc)" "show_location loc \<noteq> []"
  by (cases loc; simp add: show_location_def is_absolute_def)+

lemma segs_concat_slash:
  "list_all (\<lambda>c. CHR ''/'' \<notin> set c) loc \<Longrightarrow>
   segs (s @ concat (map (\<lambda>c. CHR ''/'' # c) loc)) = segs s @ loc"
proof (induction loc arbitrary: s)
  case Nil
  then show ?case by simp
next
  case (Cons c loc)
  have "segs (s @ concat (map (\<lambda>c. CHR ''/'' # c) (c # loc))) =
      segs ((s @ CHR ''/'' # c) @ concat (map (\<lambda>c. CHR ''/'' # c) loc))"
    by simp
  also have "\<dots> = segs (s @ CHR ''/'' # c) @ loc"
    using Cons.prems by (intro Cons.IH) simp
  also have "\<dots> = segs s @ c # loc"
    using Cons.prems by (simp add: segs_append_slash)
  finally show ?case .
qed

lemma segs_show_location:
  "list_all valid_name loc \<Longrightarrow> segs (show_location loc) = [] # (if loc = [] then [[]] else loc)"
  using segs_concat_slash [of loc "[]"]
  by (auto simp: show_location_def valid_name_def list_all_iff)

subsection \<open>Lemmas on resolution\<close>

text \<open>A location that is a file or a directory itself, not a link.\<close>

definition present :: "filesystem \<Rightarrow> location \<Rightarrow> bool" where
  "present fs loc = (case fs_lookup fs loc of Some Dir \<Rightarrow> True | Some (File b) \<Rightarrow> True | _ \<Rightarrow> False)"

lemma present_Dir [simp]: "fs_lookup fs loc = Some Dir \<Longrightarrow> present fs loc"
  by (simp add: present_def)

lemma fs_lookup_Nil [simp]: "fs_lookup fs [] = Some Dir"
  by (simp add: fs_lookup_def)

lemma fs_ok_entry:
  assumes "fs_ok fs" and "fs_lookup fs (d @ [c]) = Some nd"
  shows "valid_name c" and "fs_lookup fs d = Some Dir"
proof -
  have "(d @ [c], nd) \<in> set (fs_nodes fs)"
    using assms(2) by (simp add: fs_lookup_def map_of_SomeD)
  then show "valid_name c" and "fs_lookup fs d = Some Dir"
    using assms(1) by (auto simp: fs_ok_def list_all_iff)
qed

lemma fs_ok_names:
  assumes "fs_ok fs" and "fs_lookup fs loc = Some nd"
  shows "list_all valid_name loc"
  using assms(2)
proof (induction loc arbitrary: nd rule: rev_induct)
  case Nil
  then show ?case by simp
next
  case (snoc c d)
  then show ?case
    using fs_ok_entry [OF assms(1) snoc.prems] by simp
qed

lemma fs_ok_butlast:
  "fs_ok fs \<Longrightarrow> fs_lookup fs loc = Some nd \<Longrightarrow> fs_lookup fs (butlast loc) = Some Dir"
  by (cases loc rule: rev_cases) (auto dest: fs_ok_entry)

lemma walk_append:
  "walk fs n cur (xs @ ys) = (case walk fs n cur xs of Inl e \<Rightarrow> Inl e | Inr (m, d) \<Rightarrow> walk fs m d ys)"
  by (induction fs n cur xs rule: walk.induct) (auto split: option.splits node.splits)

lemma walk_fuel_mono:
  "walk fs n cur cs \<noteq> Inl ELOOP \<Longrightarrow>
   walk fs (n + k) cur cs = map_sum id (apfst (\<lambda>m. m + k)) (walk fs n cur cs)"
proof (induction fs n cur cs rule: walk.induct)
  case (2 fs n cur c cs)
  then show ?case
    by (auto split: option.splits node.splits)
qed simp

lemma present_File [simp]: "fs_lookup fs loc = Some (File b) \<Longrightarrow> present fs loc"
  by (simp add: present_def)

lemma present_lookup: "present fs loc \<Longrightarrow> \<exists>nd. fs_lookup fs loc = Some nd \<and> (\<forall>t. nd \<noteq> Symlink t)"
  by (auto simp: present_def split: option.splits node.splits)

lemma walk_present:
  "fs_ok fs \<Longrightarrow> present fs cur \<Longrightarrow> walk fs n cur cs = Inr (m, loc) \<Longrightarrow> present fs loc"
proof (induction fs n cur cs rule: walk.induct)
  case (2 fs n cur c cs)
  have "fs_lookup fs cur = Some Dir"
    using "2.prems" by (auto split: if_splits)
  moreover from this have "fs_lookup fs (butlast cur) = Some Dir"
    by (rule fs_ok_butlast [OF "2.prems"(1)])
  ultimately show ?case
    using 2 by (auto split: option.splits node.splits if_splits)
qed simp

text \<open>Walking the names of a location that is present leads to it, without following a link.\<close>

lemma walk_location:
  assumes "fs_ok fs" and "present fs loc"
  shows "walk fs n [] loc = Inr (n, loc)"
  using assms(2)
proof (induction loc rule: rev_induct)
  case Nil
  then show ?case by simp
next
  case (snoc c d)
  obtain nd where nd: "fs_lookup fs (d @ [c]) = Some nd" and "\<forall>t. nd \<noteq> Symlink t"
    using present_lookup [OF snoc.prems] by blast
  moreover from nd have d: "fs_lookup fs d = Some Dir" and "valid_name c"
    using fs_ok_entry [OF assms(1)] by blast+
  moreover have "walk fs n [] d = Inr (n, d)"
    using d by (intro snoc.IH) simp
  ultimately show ?case
    by (cases nd) (auto simp: walk_append valid_name_def)
qed

lemma resolve_show_location:
  assumes "fs_ok fs" and "present fs loc"
  shows "resolve fs (show_location loc) = Inr loc"
proof -
  have "list_all valid_name loc"
    using present_lookup [OF assms(2)] fs_ok_names [OF assms(1)] by blast
  then show ?thesis
    using walk_location [OF assms]
    by (auto simp: resolve_def start_of_def segs_show_location)
qed

lemma resolve_Inr_iff:
  "resolve fs p = Inr loc \<longleftrightarrow>
   p \<noteq> [] \<and> (\<exists>m. walk fs MAXSYMLINKS (start_of fs p) (segs p) = Inr (m, loc))"
  by (cases "walk fs MAXSYMLINKS (start_of fs p) (segs p)") (auto simp: resolve_def)

lemma resolve_Inl_iff:
  "resolve fs p = Inl e \<longleftrightarrow>
   (if p = [] then e = ENOENT else walk fs MAXSYMLINKS (start_of fs p) (segs p) = Inl e)"
  by (cases "walk fs MAXSYMLINKS (start_of fs p) (segs p)") (auto simp: resolve_def)

lemma start_of_Dir: "fs_ok fs \<Longrightarrow> fs_lookup fs (start_of fs p) = Some Dir"
  by (simp add: start_of_def fs_ok_def)

lemma resolve_present:
  assumes "fs_ok fs" and "resolve fs p = Inr loc"
  shows "present fs loc"
proof -
  obtain m where "walk fs MAXSYMLINKS (start_of fs p) (segs p) = Inr (m, loc)"
    using assms(2) by (auto simp: resolve_Inr_iff)
  then show ?thesis
    by (rule walk_present [OF assms(1) present_Dir [OF start_of_Dir [OF assms(1)]]])
qed

text \<open>Directories as strings: a string prefix that ends with a separator is a location prefix.\<close>

lemma show_location_prefix:
  assumes "list_all valid_name r" and "list_all valid_name t"
    and "prefix (show_location r @ (if r = [] then [] else ''/'')) (show_location t)"
  shows "prefix r t"
proof (cases "r = []")
  case False
  then obtain s where s: "show_location t = show_location r @ CHR ''/'' # s"
    using assms(3) by (auto elim: prefixE)
  have "segs (show_location t) = segs (show_location r) @ segs s"
    unfolding s by (rule segs_append_slash)
  then have "(if t = [] then [[]] else t) = r @ segs s"
    using False by (simp add: segs_show_location assms(1,2))
  then show ?thesis
    using False assms(1) by (cases "t = []") (auto simp: Cons_eq_append_conv valid_name_def)
qed simp

subsection \<open>Walking the elements of a path\<close>

lemma segs_eq_empty: "segs p = [[]] \<longleftrightarrow> p = []"
  by (cases p) (auto split: list.splits)

lemma last_segs: "last (segs p) = [] \<longleftrightarrow> p = [] \<or> last p = CHR ''/''"
proof (induction p)
  case (Cons c p)
  then show ?case
    using segs_eq_empty [of p] by (cases "segs p") (auto split: if_splits)
qed simp

lemma walk_skip_empty: "walk fs n cur ([] # c # cs) = walk fs n cur (c # cs)"
  by simp

lemma walk_squeeze:
  "walk fs n cur cs =
   walk fs n cur (filter (\<lambda>c. c \<noteq> []) cs @ (if cs \<noteq> [] \<and> last cs = [] then [[]] else []))"
proof (induction cs arbitrary: n cur)
  case (Cons c cs)
  show ?case
  proof (cases "c = []")
    case True
    then show ?thesis
    proof (cases cs)
      case (Cons d ds)
      then show ?thesis
        using True walk_skip_empty [of fs n cur d ds] Cons.IH [of n cur] by simp
    qed simp
  next
    case False
    let ?ys = "filter (\<lambda>c. c \<noteq> []) cs @ (if cs \<noteq> [] \<and> last cs = [] then [[]] else [])"
    have "walk fs n cur ([c] @ cs) = walk fs n cur ([c] @ ?ys)"
      unfolding walk_append [of fs n cur "[c]"] Cons.IH [symmetric] by (rule refl)
    then show ?thesis
      using False by (simp del: walk.simps)
  qed
qed simp

lemma walk_segs:
  assumes "p \<noteq> []" and "fs_lookup fs cur = Some Dir"
  shows "walk fs n cur (segs p) = walk fs n cur (path_rel_elems p)"
  using walk_squeeze [of fs n cur "segs p"] assms
  by (auto simp: path_rel_elems_def path_names_def last_segs)

lemma walk_fuel_le: "walk fs n cur cs = Inr (m, d) \<Longrightarrow> m \<le> n"
  by (induction fs n cur cs rule: walk.induct)
    (fastforce split: if_splits option.splits node.splits)+

text \<open>What the search for the existing part of a path returns.\<close>

lemma existing_prefix_ok:
  "existing_prefix fs start found es = Inr (f, rest) \<Longrightarrow> walk fs MAXSYMLINKS start found = Inr r \<Longrightarrow>
   \<exists>taken m l. f = found @ taken \<and> es = taken @ rest \<and> walk fs MAXSYMLINKS start f = Inr (m, l) \<and>
     (rest \<noteq> [] \<longrightarrow> (\<exists>x. x \<noteq> ELOOP \<and> walk fs m l [hd rest] = Inl x))"
proof (induction fs start found es arbitrary: r rule: existing_prefix.induct)
  case (1 fs start found)
  then show ?case by (cases r) auto
next
  case (2 fs start found e es)
  show ?case
  proof (cases "walk fs MAXSYMLINKS start (found @ [e])")
    case (Inl x)
    obtain m l where r: "r = (m, l)"
      by (cases r) auto
    have "x \<noteq> ELOOP" and "f = found" and "rest = e # es"
      using "2.prems"(1) Inl by (auto split: fs_error.splits)
    moreover have "walk fs m l [e] = Inl x"
      using Inl "2.prems"(2) r by (simp add: walk_append del: walk.simps)
    ultimately show ?thesis
      using "2.prems"(2) r by auto
  next
    case (Inr r')
    then have "existing_prefix fs start (found @ [e]) es = Inr (f, rest)"
      using "2.prems"(1) by simp
    from "2.IH" [OF Inr this Inr] show ?thesis
      by fastforce
  qed
qed

lemma existing_prefix_append:
  "walk fs MAXSYMLINKS start (found @ pre) = Inr r \<Longrightarrow>
   existing_prefix fs start found (pre @ es) = existing_prefix fs start (found @ pre) es"
proof (induction pre arbitrary: found)
  case (Cons e pre)
  obtain r' where "walk fs MAXSYMLINKS start (found @ [e]) = Inr r'"
    using Cons.prems walk_append [of fs MAXSYMLINKS start "found @ [e]" pre]
    by (auto split: sum.splits)
  then show ?case
    using Cons.IH [of "found @ [e]"] Cons.prems by simp
qed simp

lemma existing_prefix_shift:
  assumes "\<And>xs. walk fs MAXSYMLINKS s (pre @ xs) = walk fs MAXSYMLINKS s' xs"
  shows "existing_prefix fs s (pre @ found) es =
    map_sum id (apfst ((@) pre)) (existing_prefix fs s' found es)"
proof (induction es arbitrary: found)
  case (Cons e es)
  show ?case
    using Cons.IH [of "found @ [e]"] assms [of "found @ [e]"]
    by (auto split: sum.splits fs_error.splits)
qed simp

subsection \<open>Normal forms without parent references\<close>

lemma norm_names_plain:
  "''..'' \<notin> set cs \<Longrightarrow> norm_names rooted kept trail cs =
   (kept @ filter (\<lambda>c. c \<noteq> [] \<and> c \<noteq> ''.'') cs,
    if cs = [] then trail else last cs = [] \<or> last cs = ''.'')"
  by (induction cs arbitrary: kept trail) auto

lemma segs_join_names:
  "list_all (\<lambda>c. CHR ''/'' \<notin> set c) ks \<Longrightarrow> ks \<noteq> [] \<Longrightarrow> segs (join_names ks @ s) =
   (if s = [] then ks else butlast ks @ segs (last ks @ s))"
proof (induction ks rule: join_names.induct)
  case (3 c d cs)
  then show ?case
    by (simp add: segs_append_slash)
qed auto

lemma segs_show_normal:
  assumes "list_all (\<lambda>c. CHR ''/'' \<notin> set c) ks" and "ks \<noteq> []"
  shows "segs (show_normal True (ks, t)) = [] # ks @ (if t \<and> last ks \<noteq> ''..'' then [[]] else [])"
proof -
  have "CHR ''/'' \<notin> set (last ks)"
    using assms by (simp add: list_all_iff)
  then have "segs (last ks @ ''/'') = [last ks, []]"
    using segs_append_slash [of "last ks" "[]"] by simp
  then show ?thesis
    using segs_join_names [OF assms, of "[]"] segs_join_names [OF assms, of "''/''"] assms(2)
    by (auto simp: show_normal_def)
qed

end
