(* ===== verification/Tftp_Util.thy ===== *)
theory Tftp_Util
  imports Cpp_Filesystem
begin

section \<open>Path utilities\<close>

text \<open>
  The functions of \<^verbatim>\<open>src/tftp_util.cpp\<close>, in the branch for POSIX systems: the check that a requested
  name stays below the root directory, and the normalisation of the path that is then opened. The
  lemmas show what the two promise together about the file that is accessed.
\<close>

text \<open>\<^verbatim>\<open>IsPathSecure\<close>: every exception is caught and counts as insecure.\<close>

definition dangerous_patterns :: "string list" where
  "dangerous_patterns = [''..'', ''..'' @ [CHR 92], ''../'', [CHR 92] @ ''..'' @ [CHR 92], ''/..'',
     ''.'' @ [CHR 92], ''./'', [CHR 92] @ ''.'' @ [CHR 92], ''/./'',
     ''~'', ''$'', ''%'', ''<'', ''>'', ''|'', ''?'', ''*'']"

definition with_separator :: "string \<Rightarrow> string" where
  "with_separator s = (if s \<noteq> [] \<and> last s \<noteq> CHR ''/'' then s @ ''/'' else s)"

definition IsPathSecure :: "filesystem \<Rightarrow> string \<Rightarrow> string \<Rightarrow> bool" where
  "IsPathSecure fs path root_dir =
     (if path = [] \<or> root_dir = [] then False
      else if NUL \<in> set path then False
      else if hd path = CHR ''/'' then False
      else if list_ex (\<lambda>pat. str_contains path pat) dangerous_patterns then False
      else let root_path = absolute fs root_dir; target_path = path_append root_path path in
        case weakly_canonical fs root_path of
          Inl x \<Rightarrow> False
        | Inr canonical_root \<Rightarrow> (case weakly_canonical fs target_path of
            Inl x \<Rightarrow> False
          | Inr canonical_target \<Rightarrow>
              if \<not> prefix (with_separator canonical_root) canonical_target then False
              else (case relative fs canonical_target canonical_root of
                  Inl x \<Rightarrow> False
                | Inr relative_path \<Rightarrow> \<not> str_contains relative_path ''..'')))"

definition NormalizePath :: "filesystem \<Rightarrow> string \<Rightarrow> string" where
  "NormalizePath fs path =
     (if path = [] then path
      else if NUL \<in> set path then []
      else (case weakly_canonical fs path of Inl x \<Rightarrow> [] | Inr normalized \<Rightarrow> normalized))"

subsection \<open>The path that is opened\<close>

lemma path_rel_elems_append:
  assumes "root \<noteq> []" and "last root = CHR ''/''" and "p \<noteq> []" and "\<not> is_absolute p"
  shows "path_rel_elems (root @ p) = path_names root @ path_rel_elems p"
proof -
  obtain root' where root: "root = root' @ ''/''"
    using assms(1,2) by (metis append_butlast_last_id)
  have "segs p \<noteq> [[]]"
    using assms(3) by (simp add: segs_eq_empty)
  moreover have "hd (segs p) \<noteq> []"
    using assms(3,4) by (cases p) (auto simp: is_absolute_def split: list.splits)
  ultimately have "path_names p \<noteq> []"
    by (cases "segs p") (auto simp: path_names_def)
  then show ?thesis
    using assms(3) by (auto simp: root path_rel_elems_def path_names_def segs_append_slash)
qed

lemma segs_absolute:
  assumes "fs_ok fs" and "q \<noteq> []" and "\<not> is_absolute q"
  shows "segs (absolute fs q) = [] # fs_cwd fs @ segs q" and "is_absolute (absolute fs q)"
proof -
  have names: "list_all valid_name (fs_cwd fs)"
    using assms(1) fs_ok_names by (auto simp: fs_ok_def)
  then have "last (show_location (fs_cwd fs)) = CHR ''/'' \<longleftrightarrow> fs_cwd fs = []"
    by (cases "fs_cwd fs" rule: rev_cases) (auto simp: show_location_def valid_name_def last_append dest: last_in_set)
  then have "absolute fs q = (if fs_cwd fs = [] then ''/'' @ q else show_location (fs_cwd fs) @ ''/'' @ q)"
    using assms(3) by (auto simp: absolute_def path_append_def has_filename_def show_location_def)
  then show "segs (absolute fs q) = [] # fs_cwd fs @ segs q"
    using names by (auto simp: segs_append_slash segs_show_location)
  show "is_absolute (absolute fs q)"
    using assms(3)
    by (cases "fs_cwd fs") (auto simp: absolute_def path_append_def is_absolute_def show_location_def)
qed

lemma absolute_append:
  assumes "root \<noteq> []"
  shows "absolute fs (root @ p) = absolute fs root @ p"
  using assms by (auto simp: absolute_def path_append_def is_absolute_def)

lemma walk_cwd:
  assumes "fs_ok fs"
  shows "walk fs n [] (fs_cwd fs @ xs) = walk fs n (fs_cwd fs) xs"
proof -
  have "present fs (fs_cwd fs)"
    using assms by (simp add: fs_ok_def)
  then show ?thesis
    using walk_location [OF assms] by (simp add: walk_append)
qed

lemma resolve_absolute:
  assumes "fs_ok fs" and "q \<noteq> []"
  shows "resolve fs (absolute fs q) = resolve fs q"
proof (cases "is_absolute q")
  case False
  then show ?thesis
    using segs_absolute [OF assms] walk_cwd [OF assms(1)] assms(2)
    by (auto simp: resolve_def start_of_def is_absolute_def)
qed (simp add: absolute_def)

text \<open>
  A path that cannot be resolved normalises to one that cannot be resolved either, as long as the
  part that is missing has no parent references.
\<close>

lemma segs_norm_rest:
  assumes "list_all valid_name l" and "rest \<noteq> []" and "''..'' \<notin> set rest"
    and "list_all (\<lambda>c. CHR ''/'' \<notin> set c) rest" and "l \<noteq> [] \<or> hd rest \<noteq> [] \<and> hd rest \<noteq> ''.''"
  obtains y ys where
    "segs (show_normal True (norm_names True [] False (l @ rest))) = [] # l @ y # ys"
    and "hd rest \<noteq> [] \<and> hd rest \<noteq> ''.'' \<longrightarrow> y = hd rest"
proof -
  let ?names = "filter (\<lambda>c. c \<noteq> [] \<and> c \<noteq> ''.'') rest"
  let ?t = "last rest = [] \<or> last rest = ''.''"
  let ?xs = "?names @ (if ?t \<and> last (l @ ?names) \<noteq> ''..'' then [[]] else [])"
  have filter_l: "filter (\<lambda>c. c \<noteq> [] \<and> c \<noteq> ''.'') l = l" and no_dots: "''..'' \<notin> set l"
    using assms(1) by (auto simp: list_all_iff valid_name_def intro!: filter_True)
  have norm: "norm_names True [] False (l @ rest) = (l @ ?names, ?t)"
    using assms(2,3) no_dots by (simp add: norm_names_plain filter_l)
  obtain c cs where rest: "rest = c # cs"
    using assms(2) by (cases rest) auto
  have "l @ ?names \<noteq> []"
    using assms(5) by (cases "l = []") (simp_all add: rest)
  moreover have "list_all (\<lambda>c. CHR ''/'' \<notin> set c) (l @ ?names)"
    using assms(1,4) by (auto simp: list_all_iff valid_name_def)
  ultimately have segs_eq: "segs (show_normal True (l @ ?names, ?t)) = [] # l @ ?xs"
    using segs_show_normal [of "l @ ?names" ?t] by simp
  have "?xs \<noteq> []"
  proof (cases "?names = []")
    case True
    then have "?t"
      using last_in_set [OF assms(2)] by (simp only: filter_empty_conv) blast
    moreover have "last l \<noteq> ''..''"
      using True \<open>l @ ?names \<noteq> []\<close> no_dots last_in_set [of l] by (metis append_Nil2)
    ultimately show ?thesis
      using True by simp
  qed simp
  then obtain y ys where "?xs = y # ys"
    by (cases ?xs) auto
  moreover have "hd rest \<noteq> [] \<and> hd rest \<noteq> ''.'' \<longrightarrow> hd ?xs = hd rest"
    by (simp add: rest)
  ultimately show ?thesis
    using that [of y ys] segs_eq norm by simp
qed

lemma show_normal_missing:
  assumes "fs_ok fs" and "present fs l" and "rest \<noteq> []" and "''..'' \<notin> set rest"
    and "list_all (\<lambda>c. CHR ''/'' \<notin> set c) rest"
    and "walk fs m l [hd rest] = Inl x" and "x \<noteq> ELOOP" and "m \<le> MAXSYMLINKS"
  shows "resolve fs (show_normal True (norm_names True [] False (l @ rest))) \<noteq> Inr loc"
proof -
  have names: "list_all valid_name l"
    using present_lookup [OF assms(2)] fs_ok_names [OF assms(1)] by blast
  have fail: "walk fs MAXSYMLINKS l [hd rest] = Inl x"
    using walk_fuel_mono [of fs m l "[hd rest]" "MAXSYMLINKS - m"] assms(6-8) by simp
  then have dir: "fs_lookup fs l = Some Dir \<Longrightarrow> hd rest \<noteq> [] \<and> hd rest \<noteq> ''.''"
    by auto
  then have "l \<noteq> [] \<or> hd rest \<noteq> [] \<and> hd rest \<noteq> ''.''"
    by (cases "l = []") simp_all
  then obtain y ys where
    segs_eq: "segs (show_normal True (norm_names True [] False (l @ rest))) = [] # l @ y # ys"
    and y: "hd rest \<noteq> [] \<and> hd rest \<noteq> ''.'' \<longrightarrow> y = hd rest"
    by (rule segs_norm_rest [OF names assms(3-5)])
  have "\<exists>e. walk fs MAXSYMLINKS l [y] = Inl e"
    using fail y dir by (cases "fs_lookup fs l = Some Dir") auto
  then have "\<exists>e. walk fs MAXSYMLINKS l ([y] @ ys) = Inl e"
    unfolding walk_append by auto
  then have "\<exists>e. walk fs MAXSYMLINKS [] (l @ y # ys) = Inl e"
    by (simp add: walk_append [of fs MAXSYMLINKS "[]" l] walk_location [OF assms(1,2)]
        del: walk.simps)
  moreover have "is_absolute (show_normal True k)" for k
    by (simp add: show_normal_def is_absolute_def split: prod.split)
  ultimately show ?thesis
    by (auto simp: resolve_Inr_iff start_of_def segs_eq)
qed

lemma weakly_canonical_missing:
  assumes "fs_ok fs" and "weakly_canonical fs q = Inr fp" and "resolve fs q = Inl e" and "q \<noteq> []"
    and "path_rel_elems q = pre @ post" and "is_absolute q \<or> pre \<noteq> []"
    and "walk fs MAXSYMLINKS (start_of fs q) pre = Inr r" and "''..'' \<notin> set post"
  obtains l rest where "fp = show_normal True (norm_names True [] False (l @ rest))"
    and "list_all valid_name l" and "suffix rest post" and "\<forall>loc. resolve fs fp \<noteq> Inr loc"
proof -
  have not_found: "fs_exists fs q = Inr False"
    using assms(2,3) by (auto simp: weakly_canonical_def fs_exists_def split: fs_error.splits)
  have start: "present fs (start_of fs q)"
    using start_of_Dir [OF assms(1)] by simp
  have ep: "existing_prefix fs (start_of fs q) [] (path_rel_elems q) =
      existing_prefix fs (start_of fs q) pre post"
    using existing_prefix_append [of fs _ "[]" pre] assms(5,7) by simp
  obtain found rest where found: "existing_prefix fs (start_of fs q) pre post = Inr (found, rest)"
    using assms(2) not_found ep by (auto simp: weakly_canonical_def split: sum.splits)
  obtain taken m l where taken: "found = pre @ taken" "post = taken @ rest"
    and walk: "walk fs MAXSYMLINKS (start_of fs q) found = Inr (m, l)"
    and stop: "rest \<noteq> [] \<longrightarrow> (\<exists>x. x \<noteq> ELOOP \<and> walk fs m l [hd rest] = Inl x)"
    using existing_prefix_ok [OF found assms(7)] by blast
  have fp: "fp = show_normal True (norm_names True [] False (l @ rest))"
    using assms(2,6) not_found ep found walk taken
    by (auto simp: weakly_canonical_def split: if_splits)
  have "rest \<noteq> []"
    using walk taken assms(3-5) walk_segs [OF assms(4) start_of_Dir [OF assms(1)], of MAXSYMLINKS q]
    by (auto simp: resolve_Inl_iff)
  moreover from this obtain x where x: "x \<noteq> ELOOP" "walk fs m l [hd rest] = Inl x"
    using stop by blast
  moreover have "list_all (\<lambda>c. CHR ''/'' \<notin> set c) (path_rel_elems q)"
    by (auto simp: list_all_iff path_rel_elems_def path_names_def segs_no_slash)
  ultimately have "\<forall>loc. resolve fs fp \<noteq> Inr loc"
    unfolding fp using assms(5,8) taken walk_fuel_le [OF walk]
    by (intro allI show_normal_missing [OF assms(1) walk_present [OF assms(1) start walk], of _ m x]) auto
  moreover obtain nd where "fs_lookup fs l = Some nd"
    using present_lookup [OF walk_present [OF assms(1) start walk]] by blast
  ultimately show ?thesis
    using that [OF fp fs_ok_names [OF assms(1)]] taken by (auto simp: suffix_def)
qed

lemma segs_sublist: "c \<in> set (segs p) \<Longrightarrow> sublist c p"
proof (induction p arbitrary: c)
  case (Cons d p)
  show ?case
  proof (cases "d = CHR ''/''")
    case True
    then show ?thesis
      using Cons by (auto intro: sublist_Cons_right [THEN iffD2])
  next
    case False
    obtain x xs where segs: "segs p = x # xs"
      by (cases "segs p") auto
    have "prefix x p"
      using segs by (induction p arbitrary: x xs) (auto split: if_splits list.splits)
    then show ?thesis
      using Cons False segs by (auto simp: sublist_Cons_right)
  qed
qed simp

text \<open>What the checks on the name itself establish.\<close>

lemma IsPathSecure_name:
  assumes "IsPathSecure fs p root"
  shows "p \<noteq> []" and "root \<noteq> []" and "\<not> is_absolute p" and "''..'' \<notin> set (path_rel_elems p)"
    and "NUL \<notin> set p"
proof -
  show "p \<noteq> []" and "root \<noteq> []" and "\<not> is_absolute p" and "NUL \<notin> set p"
    using assms by (auto simp: IsPathSecure_def is_absolute_def split: if_splits)
  have "\<not> str_contains p ''..''"
    using assms by (auto simp: IsPathSecure_def dangerous_patterns_def split: if_splits)
  then show "''..'' \<notin> set (path_rel_elems p)"
    using segs_sublist [of "''..''" p]
    by (auto simp: str_contains_sublist path_rel_elems_def path_names_def)
qed

lemma weakly_canonical_absolute:
  assumes "fs_ok fs" and "q \<noteq> []"
    and "path_rel_elems q = pre @ post" and "is_absolute q \<or> pre \<noteq> []"
    and "walk fs MAXSYMLINKS (start_of fs q) pre = Inr r"
  shows "weakly_canonical fs (absolute fs q) = weakly_canonical fs q"
proof (cases "is_absolute q")
  case False
  let ?a = "absolute fs q"
  have pre: "pre \<noteq> []"
    using False assms(4) by simp
  have abs: "is_absolute ?a" "segs ?a = [] # fs_cwd fs @ segs q"
    using segs_absolute [OF assms(1,2) False] by simp_all
  have cwd: "list_all valid_name (fs_cwd fs)"
    using assms(1) fs_ok_names by (auto simp: fs_ok_def)
  have "last ?a = last q"
    using assms(2) False by (simp add: absolute_def path_append_def)
  moreover have "path_names ?a = fs_cwd fs @ path_names q"
    using cwd by (auto simp: path_names_def abs list_all_iff valid_name_def intro!: filter_True)
  moreover have "path_names q \<noteq> []"
    using pre assms(3) by (auto simp: path_rel_elems_def split: if_splits)
  ultimately have elems: "path_rel_elems ?a = fs_cwd fs @ path_rel_elems q"
    by (simp add: path_rel_elems_def)
  have walk: "walk fs MAXSYMLINKS [] (fs_cwd fs @ xs) = walk fs MAXSYMLINKS (fs_cwd fs) xs" for xs
    by (rule walk_cwd [OF assms(1)])
  have "existing_prefix fs [] [] (fs_cwd fs @ path_rel_elems q) =
      existing_prefix fs [] (fs_cwd fs @ []) (path_rel_elems q)"
    using existing_prefix_append [of fs "[]" "[]" "fs_cwd fs"] walk [of "[]"] by simp
  also have "\<dots> = map_sum id (apfst ((@) (fs_cwd fs)))
      (existing_prefix fs (fs_cwd fs) [] (path_rel_elems q))"
    by (rule existing_prefix_shift [OF walk])
  finally have ep: "existing_prefix fs [] [] (fs_cwd fs @ path_rel_elems q) = \<dots>" .
  have start: "start_of fs q = fs_cwd fs" "start_of fs ?a = []"
    using False abs by (simp_all add: start_of_def)
  have ep': "existing_prefix fs (fs_cwd fs) [] (path_rel_elems q) =
      existing_prefix fs (fs_cwd fs) pre post"
    using existing_prefix_append [of fs "fs_cwd fs" "[]" pre r post] assms(3,5) start by simp
  have found: "fst fr \<noteq> []" if "existing_prefix fs (fs_cwd fs) pre post = Inr fr" for fr
    using existing_prefix_ok [of fs "fs_cwd fs" pre post "fst fr" "snd fr" r] that assms(5) start pre
    by auto
  show ?thesis
    using resolve_absolute [OF assms(1,2)] ep ep' found abs(1) False
    by (auto simp: weakly_canonical_def fs_exists_def canonical_def elems start walk
        split: sum.splits fs_error.splits bool.splits)
qed (simp add: absolute_def)

text \<open>
  A root directory that exists and ends with a separator. The constructor of the server appends one,
  unless the text ends with a backslash, which is no separator here; such a root is excluded.
\<close>

definition root_at :: "filesystem \<Rightarrow> string \<Rightarrow> location \<Rightarrow> bool" where
  "root_at fs root r = (fs_ok fs \<and> root \<noteq> [] \<and> last root = CHR ''/'' \<and> resolve fs root = Inr r)"

lemma root_at_walk:
  assumes "root_at fs root r"
  shows "is_absolute root \<or> path_names root \<noteq> []"
    and "\<exists>m. walk fs MAXSYMLINKS (start_of fs root) (path_names root) = Inr m"
proof -
  have fs: "fs_ok fs" and root: "root \<noteq> []" "last root = CHR ''/''" and "resolve fs root = Inr r"
    using assms by (auto simp: root_at_def)
  then obtain m where "walk fs MAXSYMLINKS (start_of fs root) (path_rel_elems root) = Inr (m, r)"
    using walk_segs [OF root(1) start_of_Dir [OF fs], of MAXSYMLINKS root]
    by (auto simp: resolve_Inr_iff)
  then show "\<exists>m. walk fs MAXSYMLINKS (start_of fs root) (path_names root) = Inr m"
    by (auto simp: path_rel_elems_def walk_append split: if_splits sum.splits)
  show "is_absolute root \<or> path_names root \<noteq> []"
  proof (rule disjCI)
    assume "\<not> path_names root \<noteq> []"
    then have "\<forall>c \<in> set (segs root). c = []"
      by (simp add: path_names_def filter_empty_conv)
    then show "is_absolute root"
      using root(1) by (cases root) (auto simp: is_absolute_def split: list.splits if_splits)
  qed
qed

lemma with_separator_show_location:
  assumes "list_all valid_name r"
  shows "with_separator (show_location r) = show_location r @ (if r = [] then [] else ''/'')"
proof (cases r rule: rev_cases)
  case (snoc ys y)
  then show ?thesis
    using assms
    by (auto simp: with_separator_def show_location_def valid_name_def dest: last_in_set)
qed (simp add: with_separator_def show_location_def)

lemma IsPathSecure_target:
  assumes "root_at fs root r" and "IsPathSecure fs p root"
  shows "\<exists>t. weakly_canonical fs (root @ p) = Inr t \<and> prefix (with_separator (show_location r)) t"
proof -
  note name = IsPathSecure_name [OF assms(2)]
  have fs: "fs_ok fs" and root: "root \<noteq> []" "last root = CHR ''/''" and r: "resolve fs root = Inr r"
    using assms(1) by (auto simp: root_at_def)
  obtain m where m: "walk fs MAXSYMLINKS (start_of fs root) (path_names root) = Inr m"
    using root_at_walk(2) [OF assms(1)] by blast
  have abs_root: "is_absolute (root @ p) = is_absolute root"
    using root by (simp add: is_absolute_def)
  have wc: "weakly_canonical fs (absolute fs (root @ p)) = weakly_canonical fs (root @ p)"
  proof (rule weakly_canonical_absolute [OF fs])
    show "path_rel_elems (root @ p) = path_names root @ path_rel_elems p"
      by (rule path_rel_elems_append [OF root name(1,3)])
    show "is_absolute (root @ p) \<or> path_names root \<noteq> []"
      using root_at_walk(1) [OF assms(1)] abs_root by simp
    show "walk fs MAXSYMLINKS (start_of fs (root @ p)) (path_names root) = Inr m"
      using m by (simp add: start_of_def abs_root)
  qed (simp add: root)
  have "last (absolute fs root) = CHR ''/''" "absolute fs root \<noteq> []"
    using root by (auto simp: absolute_def path_append_def)
  then have target: "path_append (absolute fs root) p = absolute fs (root @ p)"
    using name(3) by (simp add: path_append_def has_filename_def absolute_append [OF root(1)])
  have "weakly_canonical fs (absolute fs root) = Inr (show_location r)"
    using resolve_absolute [OF fs root(1)] r
    by (simp add: weakly_canonical_def fs_exists_def canonical_def)
  then show ?thesis
    using assms(2) wc
    by (auto simp: IsPathSecure_def Let_def target split: if_splits sum.splits)
qed

lemma secure_lookup_confined:
  assumes "root_at fs root r" and "IsPathSecure fs p root"
    and "resolve fs (NormalizePath fs (root @ p)) = Inr loc"
  shows "prefix r loc"
proof -
  note name = IsPathSecure_name [OF assms(2)]
  have fs: "fs_ok fs" and root: "root \<noteq> []" "last root = CHR ''/''" and r: "resolve fs root = Inr r"
    using assms(1) by (auto simp: root_at_def)
  obtain t where t: "weakly_canonical fs (root @ p) = Inr t" "prefix (with_separator (show_location r)) t"
    using IsPathSecure_target [OF assms(1,2)] by blast
  then have norm: "NormalizePath fs (root @ p) = t"
    using assms(3) root by (auto simp: NormalizePath_def resolve_def split: if_splits)
  obtain m where m: "walk fs MAXSYMLINKS (start_of fs root) (path_names root) = Inr m"
    using root_at_walk(2) [OF assms(1)] by blast
  have abs_root: "is_absolute (root @ p) = is_absolute root"
    using root by (simp add: is_absolute_def)
  have "resolve fs (root @ p) \<noteq> Inl e" for e
  proof
    assume e: "resolve fs (root @ p) = Inl e"
    have "\<exists>l rest. \<forall>loc. resolve fs t \<noteq> Inr loc"
      using root_at_walk(1) [OF assms(1)] m root name
      by (auto simp: start_of_def abs_root intro: weakly_canonical_missing
          [OF fs t(1) e _ path_rel_elems_append [OF root name(1,3)]])
    then show False
      using assms(3) norm by simp
  qed
  then obtain l where l: "resolve fs (root @ p) = Inr l"
    by (cases "resolve fs (root @ p)") auto
  have present: "present fs l" "present fs r"
    using resolve_present [OF fs] l r by blast+
  have "t = show_location l"
    using t(1) l by (simp add: weakly_canonical_def fs_exists_def canonical_def)
  moreover from this have "loc = l"
    using assms(3) norm resolve_show_location [OF fs present(1)] by simp
  moreover have "list_all valid_name l" "list_all valid_name r"
    using present_lookup [OF present(1)] present_lookup [OF present(2)] fs_ok_names [OF fs] by blast+
  ultimately show ?thesis
    using t(2) by (auto simp: with_separator_show_location intro: show_location_prefix)
qed

text \<open>The other direction: plain names below the root are accepted.\<close>

definition plain_name :: "string \<Rightarrow> bool" where
  "plain_name c = (valid_name c \<and> NUL \<notin> set c \<and>
     \<not> list_ex (\<lambda>pat. str_contains c pat) dangerous_patterns)"

lemma valid_name_relative [simp]: "valid_name c \<Longrightarrow> \<not> is_absolute c"
  by (cases c) (auto simp: valid_name_def is_absolute_def)

lemma show_location_snoc:
  assumes "list_all valid_name r"
  shows "show_location (r @ [c]) = with_separator (show_location r) @ c"
  unfolding with_separator_show_location [OF assms] by (simp add: show_location_def)

lemma join_names_location: "ks \<noteq> [] \<Longrightarrow> CHR ''/'' # join_names ks = show_location ks"
  unfolding show_location_def by (induction ks rule: join_names.induct) auto

lemma show_normal_location:
  assumes "list_all valid_name l" and "l \<noteq> []"
  shows "show_normal True (norm_names True [] False l) = show_location l"
proof -
  have "filter (\<lambda>c. c \<noteq> [] \<and> c \<noteq> ''.'') l = l" and "''..'' \<notin> set l"
    and "last l \<noteq> []" "last l \<noteq> ''.''"
    using assms last_in_set [OF assms(2)] by (auto simp: list_all_iff valid_name_def intro!: filter_True)
  then show ?thesis
    using assms(2) by (simp add: norm_names_plain show_normal_def join_names_location)
qed

lemma path_names_show_location:
  assumes "list_all valid_name l"
  shows "path_names (show_location l) = l" and "path_elems (show_location l) = ''/'' # l"
proof -
  have "list_all (\<lambda>c. c \<noteq> []) l"
    using assms by (auto simp: list_all_iff valid_name_def)
  then show names: "path_names (show_location l) = l"
    by (simp add: path_names_def segs_show_location [OF assms] list_all_iff)
  have "l \<noteq> [] \<Longrightarrow> last (show_location l) \<noteq> CHR ''/''"
    using with_separator_show_location [OF assms] by (auto simp: with_separator_def split: if_splits)
  then show "path_elems (show_location l) = ''/'' # l"
    by (auto simp: path_elems_def names)
qed

lemma root_at_names:
  assumes "root_at fs root r"
  shows "list_all valid_name r"
proof -
  have fs: "fs_ok fs" and "resolve fs root = Inr r"
    using assms by (auto simp: root_at_def)
  then obtain nd where "fs_lookup fs r = Some nd"
    using resolve_present present_lookup by blast
  then show ?thesis
    by (rule fs_ok_names [OF fs])
qed

lemma weakly_canonical_child:
  assumes "root_at fs root r" and "fs_lookup fs r = Some Dir" and "valid_name c"
    and "\<forall>t. fs_lookup fs (r @ [c]) \<noteq> Some (Symlink t)"
  shows "weakly_canonical fs (root @ c) = Inr (show_location (r @ [c]))"
proof -
  have fs: "fs_ok fs" and root: "root \<noteq> []" "last root = CHR ''/''" and r: "resolve fs root = Inr r"
    using assms(1) by (auto simp: root_at_def)
  have c: "c \<noteq> []" "c \<noteq> ''.''" "c \<noteq> ''..''" "CHR ''/'' \<notin> set c" "\<not> is_absolute c"
    using assms(3) by (simp_all add: valid_name_def)
  have names: "list_all valid_name r"
    by (rule root_at_names [OF assms(1)])
  have abs_root: "is_absolute (root @ c) = is_absolute root" and start: "start_of fs (root @ c) = start_of fs root"
    using root by (simp_all add: is_absolute_def start_of_def)
  have elems: "path_rel_elems (root @ c) = path_names root @ [c]"
    using path_rel_elems_append [OF root c(1,5)] c
    by (auto simp: path_rel_elems_def path_names_def dest: last_in_set)
  obtain m where "walk fs MAXSYMLINKS (start_of fs root) (path_rel_elems root) = Inr (m, r)"
    using walk_segs [OF root(1) start_of_Dir [OF fs], of MAXSYMLINKS root] r
    by (auto simp: resolve_Inr_iff)
  then have m: "walk fs MAXSYMLINKS (start_of fs root) (path_names root) = Inr (m, r)"
    by (auto simp: path_rel_elems_def walk_append split: if_splits sum.splits)
  have res: "resolve fs (root @ c) = map_sum id snd (walk fs m r [c])"
    using walk_segs [of "root @ c" fs "start_of fs root" MAXSYMLINKS] start_of_Dir [OF fs] root m
    by (simp add: resolve_def start elems walk_append del: walk.simps)
  show ?thesis
  proof (cases "fs_lookup fs (r @ [c])")
    case None
    have norm: "show_normal True (norm_names True [] False (r @ [c])) = show_location (r @ [c])"
      using names assms(3) by (intro show_normal_location) simp_all
    show ?thesis
      using None res c assms(2) root_at_walk(1) [OF assms(1)] norm
        existing_prefix_append [of fs "start_of fs root" "[]" "path_names root" "(m, r)" "[c]"] m
      by (auto simp: weakly_canonical_def fs_exists_def start elems abs_root walk_append)
  next
    case (Some nd)
    then show ?thesis
      using assms(2,4) res c
      by (cases nd) (auto simp: weakly_canonical_def fs_exists_def canonical_def)
  qed
qed

lemma strip_common_append: "strip_common (xs @ ys) xs = (ys, [])"
  by (induction xs) (cases ys; simp)+

lemma resolve_with_separator:
  assumes "fs_ok fs" and "fs_lookup fs l = Some Dir"
  shows "resolve fs (with_separator (show_location l)) = Inr l"
proof -
  have names: "list_all valid_name l"
    by (rule fs_ok_names [OF assms])
  have "segs (show_location l @ ''/'') = segs (show_location l) @ [[]]"
    using segs_append_slash [of _ "[]"] by simp
  moreover have "is_absolute (with_separator (show_location l))" "with_separator (show_location l) \<noteq> []"
    using show_location_absolute [of l] by (auto simp: with_separator_def is_absolute_def)
  ultimately show ?thesis
    using walk_location [OF assms(1) present_Dir [OF assms(2)]] assms(2) names
    by (auto simp: resolve_def start_of_def with_separator_show_location segs_show_location walk_append)
qed

lemma IsPathSecure_child:
  assumes "root_at fs root r" and "fs_lookup fs r = Some Dir" and "plain_name c"
    and "\<forall>t. fs_lookup fs (r @ [c]) \<noteq> Some (Symlink t)"
  shows "IsPathSecure fs c root"
proof -
  have fs: "fs_ok fs" and root: "root \<noteq> []" "last root = CHR ''/''" and r: "resolve fs root = Inr r"
    using assms(1) by (auto simp: root_at_def)
  have c: "valid_name c" "\<not> is_absolute c" "c \<noteq> []" "\<not> str_contains c ''..''"
    using assms(3) by (auto simp: plain_name_def dangerous_patterns_def valid_name_def)
  have names: "list_all valid_name r"
    by (rule root_at_names [OF assms(1)])
  have abs: "root_at fs (absolute fs root) r"
    using assms(1) resolve_absolute [OF fs root(1)] by (auto simp: root_at_def absolute_def path_append_def)
  have canon: "root_at fs (with_separator (show_location r)) r"
    using fs resolve_with_separator [OF fs assms(2)]
    by (auto simp: root_at_def with_separator_def)
  have "path_append (absolute fs root) c = absolute fs root @ c"
    using abs c by (auto simp: root_at_def path_append_def has_filename_def)
  moreover have "weakly_canonical fs (absolute fs root) = Inr (show_location r)"
    "weakly_canonical fs (show_location r) = Inr (show_location r)"
    using abs resolve_show_location [OF fs resolve_present [OF fs r]]
    by (auto simp: weakly_canonical_def fs_exists_def canonical_def root_at_def)
  moreover note weakly_canonical_child [OF abs assms(2) c(1) assms(4)]
  moreover have "weakly_canonical fs (show_location (r @ [c])) = Inr (show_location (r @ [c]))"
    using weakly_canonical_child [OF canon assms(2) c(1) assms(4)] by (simp add: show_location_snoc [OF names])
  moreover have "lexically_relative (show_location (r @ [c])) (show_location r) = c"
    using names c by (simp add: lexically_relative_def path_names_show_location strip_common_append
        path_append_def has_filename_def)
  moreover have "prefix (with_separator (show_location r)) (show_location (r @ [c]))"
    by (simp add: show_location_snoc [OF names])
  ultimately show ?thesis
    using assms(3) c root by (simp add: IsPathSecure_def relative_def Let_def plain_name_def is_absolute_def)
qed

subsection \<open>Properties\<close>

definition fs_example :: filesystem where
  "fs_example = \<lparr>fs_nodes =
     [([''srv''], Dir), ([''srv'', ''tftp''], Dir), ([''srv'', ''tftp'', ''fw.bin''], File [1, 2, 3]),
      ([''srv'', ''tftp'', ''cur''], Symlink ''fw.bin''), ([''srv'', ''tftp'', ''up''], Symlink ''../../etc''),
      ([''srv'', ''tftp'', ''new''], Symlink ''/etc/cron''), ([''etc''], Dir), ([''etc'', ''passwd''], File [9])],
     fs_cwd = [''srv''], fs_dir_read = None\<rparr>"

text \<open>
  C4. Confinement: for a root directory that exists and is written with a final separator, a name
  that passes the check leads, after normalisation, to a path below the canonical root; and whatever
  file or directory that path resolves to, through any symbolic links, lies inside the root
  directory.
\<close>

theorem secure_path_confined:
  assumes "root_at fs root r" and "NUL \<notin> set root" and "IsPathSecure fs p root"
  shows "prefix (with_separator (show_location r)) (NormalizePath fs (root @ p)) \<and>
    (\<forall>loc. resolve fs (NormalizePath fs (root @ p)) = Inr loc \<longrightarrow> prefix r loc)"
proof (intro conjI allI impI)
  have "NormalizePath fs (root @ p) = t" if "weakly_canonical fs (root @ p) = Inr t" for t
    using that assms(1,2) IsPathSecure_name(5) [OF assms(3)]
    by (auto simp: NormalizePath_def root_at_def)
  then show "prefix (with_separator (show_location r)) (NormalizePath fs (root @ p))"
    using IsPathSecure_target [OF assms(1,3)] by auto
  show "prefix r loc" if "resolve fs (NormalizePath fs (root @ p)) = Inr loc" for loc
    by (rule secure_lookup_confined [OF assms(1,3) that])
qed

theorem secure_path_confined_witness:
  "prefix ''/srv/tftp/'' (NormalizePath fs_example (''./tftp/'' @ ''cur'')) \<and>
   prefix [''srv'', ''tftp''] [''srv'', ''tftp'', ''fw.bin'']"
proof -
  have root: "root_at fs_example ''./tftp/'' [''srv'', ''tftp'']" "NUL \<notin> set ''./tftp/''"
    and secure: "IsPathSecure fs_example ''cur'' ''./tftp/''"
    and res: "resolve fs_example (NormalizePath fs_example (''./tftp/'' @ ''cur'')) =
      Inr [''srv'', ''tftp'', ''fw.bin'']"
    and sep: "with_separator (show_location [''srv'', ''tftp'']) = ''/srv/tftp/''"
    by code_simp+
  show ?thesis
    using secure_path_confined [OF root secure] res
    unfolding sep by blast
qed

text \<open>
  Ordinary names are accepted: a file name without separators and without any of the rejected
  patterns, which is no symbolic link, passes the check below an existing root directory, and its
  normal form is its location below the root.
\<close>

lemma plain_names_accepted:
  assumes "root_at fs root r" and "NUL \<notin> set root" and "fs_lookup fs r = Some Dir"
    and "plain_name c" and "\<forall>t. fs_lookup fs (r @ [c]) \<noteq> Some (Symlink t)"
  shows "IsPathSecure fs c root \<and> NormalizePath fs (root @ c) = show_location (r @ [c])"
proof -
  have "valid_name c"
    using assms(4) by (simp add: plain_name_def)
  then show ?thesis
    using IsPathSecure_child [OF assms(1,3-5)] weakly_canonical_child [OF assms(1,3) _ assms(5)] assms(1,2,4)
    by (auto simp: NormalizePath_def plain_name_def root_at_def)
qed

end
