(* ===== verification/Tftp_File_Handlers.thy ===== *)
theory Tftp_File_Handlers
  imports Tftp_Util
begin

section \<open>The default file handlers\<close>

text \<open>
  \<^verbatim>\<open>DefaultReadHandler\<close> and \<^verbatim>\<open>DefaultWriteHandler\<close> of \<^verbatim>\<open>src/internal/tftp_server_impl.cpp\<close>, with what
  they use of streams and \<^verbatim>\<open>std::filesystem\<close>: opening a path for reading and for writing (the latter
  creates the file, also through a symbolic link that dangles) and \<^verbatim>\<open>create_directories\<close>. A full
  disk and I/O errors during a transfer of bytes are left to \<^verbatim>\<open>Tftp_File_Errors\<close>. The locale \<open>file_store\<close> is what
  the transfers rely on.
\<close>

text \<open>\<^verbatim>\<open>parent_path\<close>.\<close>

definition parent_path :: "string \<Rightarrow> string" where
  "parent_path p =
     (if path_names p = [] then p
      else let d = rev (dropWhile (\<lambda>c. c \<noteq> CHR ''/'') (rev p));
               e = rev (dropWhile (\<lambda>c. c = CHR ''/'') (rev d))
           in if e = [] \<and> d \<noteq> [] then ''/'' else e)"

text \<open>
  Opening with \<^verbatim>\<open>O_CREAT\<close>: the location of the file that is created or truncated, \<open>None\<close> when the
  call fails.
\<close>

fun open_creat :: "filesystem \<Rightarrow> nat \<Rightarrow> location \<Rightarrow> string list \<Rightarrow> location option" where
  "open_creat fs n cur [] = None"
| "open_creat fs n cur (c # cs) =
     (if fs_lookup fs cur \<noteq> Some Dir then None
      else if c = [] \<or> c = ''.'' then open_creat fs n cur cs
      else if c = ''..'' then open_creat fs n (butlast cur) cs
      else (case fs_lookup fs (cur @ [c]) of
          None \<Rightarrow> if cs = [] then Some (cur @ [c]) else None
        | Some nd \<Rightarrow> (case nd of
            File b \<Rightarrow> if cs = [] then Some (cur @ [c]) else None
          | Dir \<Rightarrow> open_creat fs n (cur @ [c]) cs
          | Symlink t \<Rightarrow> if n = 0 then None
              else open_creat fs (n - 1) (if is_absolute t then [] else cur) (segs t @ cs))))"

definition fs_put :: "location \<Rightarrow> node \<Rightarrow> filesystem \<Rightarrow> filesystem" where
  "fs_put loc nd fs = fs\<lparr>fs_nodes := AList.update loc nd (fs_nodes fs)\<rparr>"

text \<open>
  \<^verbatim>\<open>create_directories\<close> along the elements of a path; \<open>False\<close> stands for the exception. Directories
  that were created before a failure stay.
\<close>

fun make_dirs :: "filesystem \<Rightarrow> location \<Rightarrow> string list \<Rightarrow> string list \<Rightarrow> bool \<times> filesystem" where
  "make_dirs fs start found [] = (True, fs)"
| "make_dirs fs start found (c # cs) =
     (if c = [] \<or> c = ''.'' \<or> c = ''..'' then make_dirs fs start (found @ [c]) cs
      else (case walk fs MAXSYMLINKS start (found @ [c]) of
          Inr (m, l) \<Rightarrow>
            if fs_lookup fs l = Some Dir then make_dirs fs start (found @ [c]) cs else (False, fs)
        | Inl ENOENT \<Rightarrow> (case walk fs MAXSYMLINKS start found of
              Inl e \<Rightarrow> (False, fs)
            | Inr (m, l) \<Rightarrow>
                if fs_lookup fs l = Some Dir \<and> fs_lookup fs (l @ [c]) = None
                then make_dirs (fs_put (l @ [c]) Dir fs) start (found @ [c]) cs
                else (False, fs))
        | Inl e \<Rightarrow> (False, fs)))"

definition create_directories :: "filesystem \<Rightarrow> string \<Rightarrow> bool \<times> filesystem" where
  "create_directories fs p = make_dirs fs (start_of fs p) [] (path_rel_elems p)"

text \<open>
  The handlers. The read handler returns whether it succeeded with the data, or the exception that
  the stream operations on a directory throw.
\<close>

definition DefaultReadHandler :: "filesystem \<Rightarrow> string \<Rightarrow> (bool \<times> byte list) result" where
  "DefaultReadHandler fs path = (case resolve fs path of
       Inl e \<Rightarrow> Inr (False, [])
     | Inr loc \<Rightarrow> (case fs_lookup fs loc of
         Some (File data) \<Rightarrow> Inr (True, data)
       | Some Dir \<Rightarrow> (case fs_dir_read fs of None \<Rightarrow> Inr (False, []) | Some x \<Rightarrow> Inl x)
       | _ \<Rightarrow> Inr (False, [])))"

definition write_file :: "filesystem \<Rightarrow> string \<Rightarrow> byte list \<Rightarrow> bool result \<times> filesystem" where
  "write_file fs path data =
     (case (if path = [] then None else open_creat fs MAXSYMLINKS (start_of fs path) (segs path)) of
       None \<Rightarrow> (Inr False, fs)
     | Some loc \<Rightarrow>
         let fs' = fs_put loc (File data) fs in
         case fs_exists fs' path of
           Inl x \<Rightarrow> (Inl x, fs')
         | Inr found \<Rightarrow> (Inr found, fs'))"

definition DefaultWriteHandler :: "filesystem \<Rightarrow> string \<Rightarrow> byte list \<Rightarrow> bool result \<times> filesystem" where
  "DefaultWriteHandler fs path data =
     (let parent = parent_path path in
      if parent = [] then write_file fs path data
      else (case fs_exists fs parent of
          Inl x \<Rightarrow> (Inl x, fs)
        | Inr True \<Rightarrow> write_file fs path data
        | Inr False \<Rightarrow> (case create_directories fs parent of
              (False, fs') \<Rightarrow> (Inr False, fs')
            | (True, fs') \<Rightarrow> write_file fs' path data)))"

subsection \<open>Updating the file system\<close>

lemma lookup_fs_put [simp]:
  "fs_lookup (fs_put loc nd fs) l = (if l = loc \<and> loc \<noteq> [] then Some nd else fs_lookup fs l)"
  by (auto simp: fs_lookup_def fs_put_def update_conv')

lemma fs_put_same [simp]: "fs_cwd (fs_put loc nd fs) = fs_cwd fs" "fs_dir_read (fs_put loc nd fs) = fs_dir_read fs"
  by (simp_all add: fs_put_def)

lemma start_of_fs_put [simp]: "start_of (fs_put loc nd fs) p = start_of fs p"
  by (simp add: start_of_def)

lemma set_update_subset: "set (AList.update k v al) \<subseteq> insert (k, v) (set al)"
  by (induction al) auto

lemma fs_ok_put:
  assumes "fs_ok fs" and "loc \<noteq> []" and "valid_name (last loc)" and "fs_lookup fs (butlast loc) = Some Dir"
    and "fs_lookup fs loc \<noteq> Some Dir"
  shows "fs_ok (fs_put loc nd fs)"
proof -
  have keep: "fs_lookup (fs_put loc nd fs) d = Some Dir" if "fs_lookup fs d = Some Dir" for d
    using that assms(5) by auto
  have "l \<noteq> [] \<and> valid_name (last l) \<and> fs_lookup (fs_put loc nd fs) (butlast l) = Some Dir"
    if "(l, x) \<in> set (fs_nodes (fs_put loc nd fs))" for l x
  proof (cases "(l, x) \<in> set (fs_nodes fs)")
    case True
    then show ?thesis
      using assms(1) keep by (auto simp: fs_ok_def list_all_iff simp del: lookup_fs_put)
  next
    case False
    then have "l = loc"
      using that set_update_subset [of loc nd "fs_nodes fs"] by (auto simp: fs_put_def)
    then show ?thesis
      using assms(2-4) keep by blast
  qed
  then show ?thesis
    using assms(1) keep [of "fs_cwd fs"] unfolding fs_ok_def list_all_iff by auto
qed

text \<open>A file that opening for writing creates or truncates: its parent exists, and it is no directory.\<close>

lemma open_creat_ok:
  assumes "open_creat fs n cur cs = Some loc" and "list_all (\<lambda>c. CHR ''/'' \<notin> set c) cs"
  shows "loc \<noteq> [] \<and> valid_name (last loc) \<and> fs_lookup fs (butlast loc) = Some Dir \<and>
    (fs_lookup fs loc = None \<or> (\<exists>b. fs_lookup fs loc = Some (File b)))"
  using assms
proof (induction fs n cur cs rule: open_creat.induct)
  case (2 fs n cur c cs)
  have "list_all (\<lambda>c. CHR ''/'' \<notin> set c) (segs t @ cs)" for t
    using "2.prems"(2) by (auto simp: list_all_iff dest: segs_no_slash)
  then show ?case
    using 2 by (auto simp: valid_name_def split: if_splits option.splits node.splits)
qed simp

lemma open_creat_walk:
  assumes "open_creat fs n cur cs = Some loc"
  shows "\<exists>m. walk (fs_put loc (File data) fs) n cur cs = Inr (m, loc)"
proof -
  have "fs_lookup fs loc = None \<or> (\<exists>b. fs_lookup fs loc = Some (File b))" "loc \<noteq> []"
    using assms by (induction fs n cur cs rule: open_creat.induct)
      (auto split: if_splits option.splits node.splits)
  then show ?thesis
    using assms
  proof (induction fs n cur cs rule: open_creat.induct)
    case (2 fs n cur c cs)
    then show ?case
      by (auto split: if_splits option.splits node.splits)
  qed simp
qed

definition creat_location :: "filesystem \<Rightarrow> string \<Rightarrow> location option" where
  "creat_location fs path =
     (if path = [] then None else open_creat fs MAXSYMLINKS (start_of fs path) (segs path))"

lemma resolve_created:
  "creat_location fs path = Some loc \<Longrightarrow> resolve (fs_put loc (File data) fs) path = Inr loc"
  using open_creat_walk [of fs MAXSYMLINKS "start_of fs path" "segs path" loc data]
  by (auto simp: creat_location_def resolve_def split: if_splits)

lemma creat_location_ok:
  assumes "creat_location fs path = Some loc"
  shows "loc \<noteq> []" and "valid_name (last loc)" and "fs_lookup fs (butlast loc) = Some Dir"
    and "fs_lookup fs loc = None \<or> (\<exists>b. fs_lookup fs loc = Some (File b))"
proof -
  have "open_creat fs MAXSYMLINKS (start_of fs path) (segs path) = Some loc"
    using assms by (auto simp: creat_location_def split: if_splits)
  moreover have "list_all (\<lambda>c. CHR ''/'' \<notin> set c) (segs path)"
    by (auto simp: list_all_iff dest: segs_no_slash)
  ultimately show "loc \<noteq> []" and "valid_name (last loc)" and "fs_lookup fs (butlast loc) = Some Dir"
    and "fs_lookup fs loc = None \<or> (\<exists>b. fs_lookup fs loc = Some (File b))"
    using open_creat_ok by blast+
qed

text \<open>The verification after the write never fails.\<close>

lemma write_file_eq:
  "write_file fs path data = (case creat_location fs path of
     None \<Rightarrow> (Inr False, fs) | Some loc \<Rightarrow> (Inr True, fs_put loc (File data) fs))"
  by (auto simp: write_file_def fs_exists_def resolve_created Let_def
      creat_location_def [symmetric] split: option.splits)

lemma read_written:
  "creat_location fs path = Some loc \<Longrightarrow>
   DefaultReadHandler (fs_put loc (File data) fs) path = Inr (True, data)"
  by (simp add: DefaultReadHandler_def resolve_created creat_location_ok(1))

subsection \<open>Creating directories\<close>

text \<open>Directories appear where there was nothing, and nothing else changes.\<close>

definition fs_extends :: "filesystem \<Rightarrow> filesystem \<Rightarrow> bool" where
  "fs_extends fs fs' = (fs_cwd fs' = fs_cwd fs \<and> fs_dir_read fs' = fs_dir_read fs \<and>
     (\<forall>l. fs_lookup fs' l = fs_lookup fs l \<or> fs_lookup fs l = None \<and> fs_lookup fs' l = Some Dir))"

lemma fs_extends_refl [simp]: "fs_extends fs fs"
  by (simp add: fs_extends_def)

lemma fs_extends_trans: "fs_extends fs fs' \<Longrightarrow> fs_extends fs' fs'' \<Longrightarrow> fs_extends fs fs''"
  unfolding fs_extends_def by metis

lemma make_dirs_extends: "make_dirs fs start found cs = (b, fs') \<Longrightarrow> fs_extends fs fs'"
proof (induction fs start found cs arbitrary: b fs' rule: make_dirs.induct)
  case (2 fs start found c cs)
  have put: "fs_extends fs (fs_put (l @ [c]) Dir fs)" if "fs_lookup fs (l @ [c]) = None" for l
    using that by (auto simp: fs_extends_def)
  show ?case
    using 2 by (auto split: if_splits sum.splits fs_error.splits prod.splits
        intro: fs_extends_trans [OF put])
qed simp

lemma make_dirs_fs_ok:
  "make_dirs fs start found cs = (b, fs') \<Longrightarrow> fs_ok fs \<Longrightarrow>
   list_all (\<lambda>c. CHR ''/'' \<notin> set c) cs \<Longrightarrow> fs_ok fs'"
proof (induction fs start found cs arbitrary: b fs' rule: make_dirs.induct)
  case (2 fs start found c cs)
  have put: "fs_ok (fs_put (l @ [c]) Dir fs)"
    if "fs_lookup fs (l @ [c]) = None" "fs_lookup fs l = Some Dir" "c \<noteq> []" "c \<noteq> ''.''" "c \<noteq> ''..''" for l
    using that "2.prems"(2,3) by (intro fs_ok_put) (auto simp: valid_name_def)
  show ?case
    using 2 put by (auto split: if_splits sum.splits fs_error.splits prod.splits)
qed simp

lemma create_directories_extends:
  assumes "create_directories fs p = (b, fs')"
  shows "fs_extends fs fs' \<and> (fs_ok fs \<longrightarrow> fs_ok fs')"
proof -
  have "list_all (\<lambda>c. CHR ''/'' \<notin> set c) (path_rel_elems p)"
    by (auto simp: list_all_iff path_rel_elems_def path_names_def dest: segs_no_slash)
  then show ?thesis
    using assms make_dirs_extends make_dirs_fs_ok unfolding create_directories_def by blast
qed

text \<open>The effect of the write handler in one rule.\<close>

lemma DefaultWriteHandler_cases:
  assumes "DefaultWriteHandler fs path data = (res, fs')"
  obtains (failed) "res \<noteq> Inr True" and "fs_extends fs fs'" and "fs_ok fs \<longrightarrow> fs_ok fs'"
  | (written) fs1 loc where "res = Inr True" and "fs_extends fs fs1" and "fs_ok fs \<longrightarrow> fs_ok fs1"
      and "creat_location fs1 path = Some loc" and "fs' = fs_put loc (File data) fs1"
proof -
  note dirs = create_directories_extends
  define ex where "ex = fs_exists fs (parent_path path)"
  have "res \<noteq> Inr True \<and> fs_extends fs fs' \<and> (fs_ok fs \<longrightarrow> fs_ok fs') \<or>
    (\<exists>fs1. fs_extends fs fs1 \<and> (fs_ok fs \<longrightarrow> fs_ok fs1) \<and> write_file fs1 path data = (res, fs'))"
    (is "?stop \<or> ?go")
  proof (cases "parent_path path = [] \<or> ex = Inr True")
    case True
    then have "write_file fs path data = (res, fs')"
      using assms by (cases "parent_path path = []") (auto simp: DefaultWriteHandler_def Let_def ex_def)
    then show ?thesis
      using fs_extends_refl by blast
  next
    case parent: False
    obtain b fs1 where cd: "create_directories fs (parent_path path) = (b, fs1)"
      by (cases "create_directories fs (parent_path path)")
    show ?thesis
      using assms parent dirs [OF cd]
      by (cases ex; cases b) (auto simp: DefaultWriteHandler_def Let_def cd ex_def [symmetric])
  qed
  then consider (stop) ?stop | (go) fs1 where "fs_extends fs fs1" "fs_ok fs \<longrightarrow> fs_ok fs1"
    "write_file fs1 path data = (res, fs')"
    by blast
  then show ?thesis
  proof cases
    case go
    then show ?thesis
      using failed written by (auto simp: write_file_eq split: option.splits)
  qed (use failed in blast)
qed

lemma segs_norm_plain:
  assumes "list_all valid_name l" and "''..'' \<notin> set rest" and "list_all (\<lambda>c. CHR ''/'' \<notin> set c) rest"
  shows "''..'' \<notin> set (segs (show_normal True (norm_names True [] False (l @ rest))))"
proof -
  have "''..'' \<notin> set (l @ rest)"
    using assms(1,2) by (auto simp: list_all_iff valid_name_def)
  then obtain ks t where norm: "norm_names True [] False (l @ rest) = (ks, t)"
    and ks: "set ks \<subseteq> set (l @ rest)" "''..'' \<notin> set ks"
    by (auto simp: norm_names_plain)
  have "list_all (\<lambda>c. CHR ''/'' \<notin> set c) ks"
    using ks(1) assms(1,3) by (auto simp: list_all_iff valid_name_def)
  then show ?thesis
    using ks(2) segs_show_normal [of ks t]
    by (cases "ks = []") (auto simp: norm show_normal_def)
qed

lemma secure_path_shape:
  assumes "root_at fs root r" and "NUL \<notin> set root" and "IsPathSecure fs p root"
  obtains xs where "segs (NormalizePath fs (root @ p)) = [] # r @ xs" and "xs \<noteq> []" and "''..'' \<notin> set xs"
proof -
  note name = IsPathSecure_name [OF assms(3)]
  have fs: "fs_ok fs" and root: "root \<noteq> []" "last root = CHR ''/''" and r: "resolve fs root = Inr r"
    using assms(1) by (auto simp: root_at_def)
  obtain t where t: "weakly_canonical fs (root @ p) = Inr t" "prefix (with_separator (show_location r)) t"
    using IsPathSecure_target [OF assms(1,3)] by blast
  then have norm: "NormalizePath fs (root @ p) = t"
    using assms(2) root name(5) by (auto simp: NormalizePath_def)
  have names: "list_all valid_name r"
    by (rule root_at_names [OF assms(1)])
  obtain s where s: "t = show_location r @ (if r = [] then [] else ''/'') @ s"
    using t(2) by (auto simp: with_separator_show_location [OF names] elim: prefixE)
  then have shape: "segs t = [] # r @ segs s"
    by (auto simp: segs_append_slash segs_show_location [OF names] show_location_def [of "[]"])
  obtain m where m: "walk fs MAXSYMLINKS (start_of fs root) (path_names root) = Inr m"
    using root_at_walk(2) [OF assms(1)] by blast
  have abs_root: "is_absolute (root @ p) = is_absolute root"
    using root by (simp add: is_absolute_def)
  have "''..'' \<notin> set (segs t)"
  proof (cases "resolve fs (root @ p)")
    case (Inl e)
    have post: "list_all (\<lambda>c. CHR ''/'' \<notin> set c) (path_rel_elems p)"
      by (auto simp: list_all_iff path_rel_elems_def path_names_def dest: segs_no_slash)
    obtain l rest where "t = show_normal True (norm_names True [] False (l @ rest))"
      "list_all valid_name l" and rest: "suffix rest (path_rel_elems p)"
      using root_at_walk(1) [OF assms(1)] m root name
      by (auto simp: start_of_def abs_root intro: weakly_canonical_missing
          [OF fs t(1) Inl _ path_rel_elems_append [OF root name(1,3)]])
    then show ?thesis
      using segs_norm_plain [of l rest] set_mono_suffix [OF rest] name(4) post by (auto simp: list_all_iff)
  next
    case (Inr l)
    then have "t = show_location l"
      using t(1) by (simp add: weakly_canonical_def fs_exists_def canonical_def)
    moreover obtain nd where "fs_lookup fs l = Some nd"
      using resolve_present [OF fs Inr] present_lookup by blast
    ultimately show ?thesis
      using fs_ok_names [OF fs] by (auto simp: segs_show_location list_all_iff valid_name_def)
  qed
  then show ?thesis
    using that [of "segs s"] shape norm by simp
qed

lemma root_at_Dir:
  assumes "root_at fs root r"
  shows "fs_lookup fs r = Some Dir"
proof -
  obtain root' where root: "root = root' @ ''/''"
    using assms unfolding root_at_def by (metis append_butlast_last_id)
  then have "segs root = segs root' @ [[]]"
    using segs_append_slash [of root' "[]"] by simp
  then show ?thesis
    using assms by (auto simp: root_at_def resolve_Inr_iff walk_append split: sum.splits if_splits)
qed

subsection \<open>Writes below a directory\<close>

definition no_links_below :: "filesystem \<Rightarrow> location \<Rightarrow> bool" where
  "no_links_below fs r = (\<forall>l t. prefix r l \<longrightarrow> fs_lookup fs l \<noteq> Some (Symlink t))"

lemma open_creat_below:
  assumes "no_links_below fs r"
  shows "open_creat fs n cur cs = Some loc \<Longrightarrow> prefix r cur \<Longrightarrow> ''..'' \<notin> set cs \<Longrightarrow> prefix r loc"
proof (induction cs arbitrary: cur n)
  case (Cons c cs)
  have "fs_lookup fs (cur @ [c]) \<noteq> Some (Symlink t)" for t
    using assms Cons.prems(2) by (auto simp: no_links_below_def)
  then show ?case
    using Cons by (auto split: if_splits option.splits node.splits)
qed simp

lemma walk_below:
  assumes "no_links_below fs r"
  shows "walk fs n cur cs = Inr (m, l) \<Longrightarrow> prefix r cur \<Longrightarrow> ''..'' \<notin> set cs \<Longrightarrow> prefix r l"
proof (induction cs arbitrary: cur n)
  case (Cons c cs)
  have "fs_lookup fs (cur @ [c]) \<noteq> Some (Symlink t)" for t
    using assms Cons.prems(2) by (auto simp: no_links_below_def)
  then show ?case
    using Cons by (auto split: if_splits option.splits node.splits)
qed simp

lemma fs_ok_ancestor:
  assumes "fs_ok fs"
  shows "fs_lookup fs (d @ c # cs) = Some nd \<Longrightarrow> fs_lookup fs d = Some Dir \<and> valid_name c"
proof (induction cs arbitrary: nd rule: rev_induct)
  case Nil
  then show ?case
    using fs_ok_entry [OF assms] by blast
next
  case (snoc x cs)
  then have "fs_lookup fs ((d @ c # cs) @ [x]) = Some nd"
    by simp
  then show ?case
    using fs_ok_entry(2) [OF assms] snoc.IH by blast
qed

lemma open_creat_dirs:
  assumes "fs_ok fs" and "fs_lookup fs (cur @ ds) = Some Dir"
  shows "open_creat fs n cur (ds @ xs) = open_creat fs n (cur @ ds) xs"
  using assms(2)
proof (induction ds arbitrary: cur)
  case (Cons d ds)
  have "fs_lookup fs ((cur @ [d]) @ ds) = Some Dir"
    using Cons.prems by simp
  moreover from this have "fs_lookup fs (cur @ [d]) = Some Dir"
    using fs_ok_ancestor [OF assms(1), of "cur @ [d]"] by (cases ds) auto
  moreover have "fs_lookup fs cur = Some Dir \<and> valid_name d"
    using fs_ok_ancestor [OF assms(1)] Cons.prems by blast
  ultimately show ?case
    using Cons.IH [of "cur @ [d]"] by (simp add: valid_name_def)
qed simp

lemma make_dirs_dirs:
  assumes "fs_ok fs" and "fs_lookup fs (found @ ds) = Some Dir"
  shows "make_dirs fs [] found (ds @ xs) = make_dirs fs [] (found @ ds) xs"
  using assms(2)
proof (induction ds arbitrary: found)
  case (Cons d ds)
  have "fs_lookup fs ((found @ [d]) @ ds) = Some Dir"
    using Cons.prems by simp
  moreover from this have dir: "fs_lookup fs (found @ [d]) = Some Dir"
    using fs_ok_ancestor [OF assms(1), of "found @ [d]"] by (cases ds) auto
  moreover have "valid_name d"
    using fs_ok_ancestor [OF assms(1)] Cons.prems by blast
  moreover have "walk fs MAXSYMLINKS [] (found @ [d]) = Inr (MAXSYMLINKS, found @ [d])"
    using walk_location [OF assms(1) present_Dir [OF dir]] .
  ultimately show ?case
    using Cons.IH [of "found @ [d]"] by (simp add: valid_name_def)
qed simp

definition changes_below :: "location \<Rightarrow> filesystem \<Rightarrow> filesystem \<Rightarrow> bool" where
  "changes_below r fs fs' = (\<forall>l. fs_lookup fs' l \<noteq> fs_lookup fs l \<longrightarrow> prefix r l)"

lemma changes_below_refl [simp]: "changes_below r fs fs"
  by (simp add: changes_below_def)

lemma changes_below_trans:
  "changes_below r fs fs' \<Longrightarrow> changes_below r fs' fs'' \<Longrightarrow> changes_below r fs fs''"
  unfolding changes_below_def by metis

lemma changes_below_put: "prefix r loc \<Longrightarrow> changes_below r fs (fs_put loc nd fs)"
  by (auto simp: changes_below_def)

lemma no_links_below_extends:
  assumes "no_links_below fs r" and "fs_extends fs fs'"
  shows "no_links_below fs' r"
  unfolding no_links_below_def
proof (intro allI impI)
  fix l t
  assume "prefix r l"
  moreover have "fs_lookup fs' l = fs_lookup fs l \<or> fs_lookup fs' l = Some Dir"
    using assms(2) unfolding fs_extends_def by blast
  ultimately show "fs_lookup fs' l \<noteq> Some (Symlink t)"
    using assms(1) by (auto simp: no_links_below_def)
qed

lemma make_dirs_below:
  "make_dirs fs start found cs = (b, fs') \<Longrightarrow> start = [] \<Longrightarrow> found = r @ ys \<Longrightarrow>
   fs_ok fs \<Longrightarrow> fs_lookup fs r = Some Dir \<Longrightarrow> no_links_below fs r \<Longrightarrow> ''..'' \<notin> set (ys @ cs) \<Longrightarrow>
   list_all (\<lambda>c. CHR ''/'' \<notin> set c) cs \<Longrightarrow> changes_below r fs fs'"
proof (induction fs start found cs arbitrary: ys rule: make_dirs.induct)
  case (2 fs start found c cs)
  have walk: "prefix r l" if "walk fs MAXSYMLINKS [] (r @ ys) = Inr (m, l)" for m l
    using that walk_below [OF "2.prems"(6), of MAXSYMLINKS r ys m l] "2.prems"(7)
      walk_location [OF "2.prems"(4) present_Dir [OF "2.prems"(5)]]
    by (simp add: walk_append)
  have ext: "fs_extends fs (fs_put (l @ [c]) Dir fs)" if "fs_lookup fs (l @ [c]) = None" for l
    using that by (auto simp: fs_extends_def)
  have ok: "fs_ok (fs_put (l @ [c]) Dir fs)"
    if "fs_lookup fs (l @ [c]) = None" "fs_lookup fs l = Some Dir" "c \<noteq> []" "c \<noteq> ''.''" "c \<noteq> ''..''" for l
    using that "2.prems"(4,8) by (intro fs_ok_put) (auto simp: valid_name_def)
  have new: "changes_below r fs fs'"
    if "make_dirs (fs_put (l @ [c]) Dir fs) start (found @ [c]) cs = (b, fs')"
      and "fs_lookup fs (l @ [c]) = None" "fs_lookup fs l = Some Dir" "c \<noteq> []" "c \<noteq> ''.''" "c \<noteq> ''..''"
      and w: "walk fs MAXSYMLINKS start (found @ [c]) = Inl ENOENT" "walk fs MAXSYMLINKS start found = Inr (m, l)"
    for m l
  proof -
    have "changes_below r (fs_put (l @ [c]) Dir fs) fs'"
      using "2.IH"(2) [OF _ w(1) _ w(2) refl _ that(1), of "ys @ [c]"] that(2-6) "2.prems"(2-5,7,8) ok
        no_links_below_extends [OF "2.prems"(6) ext] by simp
    then show ?thesis
      using changes_below_put [of r "l @ [c]" fs Dir] walk [of m l] w(2) "2.prems"(2,3)
      by (auto intro: changes_below_trans)
  qed
  have old: "changes_below r fs fs'"
    if "make_dirs fs start (found @ [c]) cs = (b, fs')"
      and "c = [] \<or> c = ''.'' \<or> c = ''..'' \<or>
        (\<exists>m l. walk fs MAXSYMLINKS start (found @ [c]) = Inr (m, l) \<and> fs_lookup fs l = Some Dir)"
    using that(2)
  proof (elim disjE exE conjE)
    fix m l
    assume "walk fs MAXSYMLINKS start (found @ [c]) = Inr (m, l)" "fs_lookup fs l = Some Dir"
    then show ?thesis
      using "2.IH"(1) [of "ys @ [c]"] "2.IH"(3) [of "(m, l)" m l "ys @ [c]"] that(1) "2.prems"(2-8)
      by (cases "c = [] \<or> c = ''.'' \<or> c = ''..''") auto
  qed (use "2.IH"(1) [of "ys @ [c]"] that(1) "2.prems"(2-8) in auto)
  show ?case
    using "2.prems"(1) old new
    by (auto split: if_splits sum.splits fs_error.splits prod.splits)
qed simp

lemma path_names_strip: "path_names (rev (dropWhile (\<lambda>c. c = CHR ''/'') (rev d))) = path_names d"
proof (induction d rule: rev_induct)
  case (snoc c d)
  have "path_names (d @ ''/'') = path_names d"
    using segs_append_slash [of d "[]"] by (simp add: path_names_def)
  then show ?case
    using snoc by simp
qed simp

lemma split_last_slash:
  assumes "is_absolute p"
  obtains a b where "p = a @ CHR ''/'' # b" and "CHR ''/'' \<notin> set b"
    and "rev (dropWhile (\<lambda>c. c \<noteq> CHR ''/'') (rev p)) = a @ ''/''"
proof -
  have "CHR ''/'' \<in> set p"
    using assms by (cases p) (auto simp: is_absolute_def)
  then obtain a b where p: "p = a @ CHR ''/'' # b" "CHR ''/'' \<notin> set b"
    by (metis split_list_last)
  have "dropWhile (\<lambda>c. c \<noteq> CHR ''/'') (rev b @ CHR ''/'' # rev a) = CHR ''/'' # rev a"
    using p(2) by (subst dropWhile_append2) auto
  then show ?thesis
    using that p by simp
qed

lemma path_rel_elems_parent:
  assumes "is_absolute p" and "path_names p \<noteq> []"
  shows "path_rel_elems (parent_path p) = filter (\<lambda>c. c \<noteq> []) (butlast (segs p))"
    and "is_absolute (parent_path p)"
proof -
  obtain a b where p: "p = a @ CHR ''/'' # b" "CHR ''/'' \<notin> set b"
    "rev (dropWhile (\<lambda>c. c \<noteq> CHR ''/'') (rev p)) = a @ ''/''"
    by (rule split_last_slash [OF assms(1)])
  define e where "e = rev (dropWhile (\<lambda>c. c = CHR ''/'') (rev a))"
  have parent: "parent_path p = (if e = [] then ''/'' else e)"
    using assms(2) p(3) by (simp add: parent_path_def e_def)
  have "path_names e = filter (\<lambda>c. c \<noteq> []) (segs a)"
    using path_names_strip [of a] by (simp add: e_def path_names_def)
  moreover have "segs p = segs a @ [b]"
    using p(1,2) by (simp add: segs_append_slash)
  moreover have "e \<noteq> [] \<Longrightarrow> last e \<noteq> CHR ''/''"
    unfolding e_def by (metis (mono_tags) hd_dropWhile last_rev rev_is_Nil_conv)
  ultimately show "path_rel_elems (parent_path p) = filter (\<lambda>c. c \<noteq> []) (butlast (segs p))"
    by (auto simp: parent path_rel_elems_def path_names_def)
  have "prefix e a"
    unfolding e_def by (metis suffix_dropWhile suffix_to_prefix rev_rev_ident)
  then obtain zs where a: "a = e @ zs"
    by (auto elim: prefixE)
  show "is_absolute (parent_path p)"
    using assms(1) parent p(1) a by (cases "e = []") (simp_all add: is_absolute_def)
qed

lemma create_directories_below:
  assumes "fs_ok fs" and "fs_lookup fs r = Some Dir" and "no_links_below fs r"
    and "is_absolute path" and "segs path = [] # r @ xs" and "xs \<noteq> []" and "''..'' \<notin> set xs"
    and "path_names path \<noteq> []" and "create_directories fs (parent_path path) = (b, fs')"
  shows "changes_below r fs fs'"
proof -
  let ?ys = "filter (\<lambda>c. c \<noteq> []) (butlast xs)"
  have "list_all valid_name r"
    by (rule fs_ok_names [OF assms(1,2)])
  then have "filter (\<lambda>c. c \<noteq> []) r = r"
    by (auto simp: list_all_iff valid_name_def intro!: filter_True)
  then have "path_rel_elems (parent_path path) = r @ ?ys" "start_of fs (parent_path path) = []"
    using path_rel_elems_parent [OF assms(4,8)] assms(5,6) by (simp_all add: butlast_append start_of_def)
  then have "make_dirs fs [] r ?ys = (b, fs')"
    using assms(9) make_dirs_dirs [OF assms(1), of "[]" r ?ys] assms(2)
    by (simp add: create_directories_def)
  moreover have "CHR ''/'' \<notin> set c" if "c \<in> set xs" for c
    using segs_no_slash [of c path] that assms(5) by simp
  then have "list_all (\<lambda>c. CHR ''/'' \<notin> set c) ?ys"
    by (auto simp: list_all_iff dest: in_set_butlastD)
  moreover have "''..'' \<notin> set ([] @ ?ys)"
    using assms(7) by (auto dest: in_set_butlastD)
  ultimately show ?thesis
    using make_dirs_below [of fs "[]" r ?ys b fs' r "[]"] assms(1-3) by simp
qed

lemma creat_location_below:
  assumes "fs_ok fs" and "fs_lookup fs r = Some Dir" and "no_links_below fs r"
    and "is_absolute path" and "segs path = [] # r @ xs" and "''..'' \<notin> set xs"
    and "creat_location fs path = Some loc"
  shows "prefix r loc"
proof -
  have "open_creat fs MAXSYMLINKS [] (r @ xs) = Some loc"
    using assms(4,5,7) by (auto simp: creat_location_def start_of_def split: if_splits)
  then have "open_creat fs MAXSYMLINKS r xs = Some loc"
    using open_creat_dirs [OF assms(1), of "[]" r] assms(2) by simp
  then show ?thesis
    using open_creat_below [OF assms(3)] assms(6) by blast
qed

lemma write_file_below:
  assumes "fs_ok fs" and "fs_lookup fs r = Some Dir" and "no_links_below fs r"
    and "is_absolute path" and "segs path = [] # r @ xs" and "''..'' \<notin> set xs"
    and "write_file fs path data = (res, fs')"
  shows "changes_below r fs fs'"
  using assms(7) creat_location_below [OF assms(1-6)] changes_below_put
  by (auto simp: write_file_eq split: option.splits)

lemma missing_parent_names:
  assumes "fs_ok fs" and "is_absolute path" and "fs_exists fs (parent_path path) = Inr False"
  shows "path_names path \<noteq> []"
  using assms(2,3) walk_segs [of path fs "start_of fs path" MAXSYMLINKS] start_of_Dir [OF assms(1)]
  by (auto simp: parent_path_def is_absolute_def fs_exists_def resolve_def path_rel_elems_def split: if_splits)

lemma DefaultWriteHandler_below:
  assumes "fs_ok fs" and "fs_lookup fs r = Some Dir" and "no_links_below fs r"
    and "is_absolute path" and "segs path = [] # r @ xs" and "xs \<noteq> []" and "''..'' \<notin> set xs"
    and "DefaultWriteHandler fs path data = (res, fs')"
  shows "changes_below r fs fs'"
proof (cases "parent_path path = [] \<or> fs_exists fs (parent_path path) \<noteq> Inr False")
  case True
  then consider "write_file fs path data = (res, fs')" | "fs' = fs"
    using assms(8)
    by (cases "parent_path path = []"; cases "fs_exists fs (parent_path path)")
      (auto simp: DefaultWriteHandler_def Let_def)
  then show ?thesis
    using write_file_below [OF assms(1-5,7)] by cases auto
next
  case False
  obtain b fs1 where cd: "create_directories fs (parent_path path) = (b, fs1)"
    by (cases "create_directories fs (parent_path path)")
  have names: "path_names path \<noteq> []"
    using missing_parent_names [OF assms(1,4)] False by blast
  have below: "changes_below r fs fs1"
    by (rule create_directories_below [OF assms(1-7) names cd])
  have ext: "fs_extends fs fs1" "fs_ok fs1"
    using create_directories_extends [OF cd] assms(1) by simp_all
  then have r: "fs_lookup fs1 r = Some Dir"
    using assms(2) unfolding fs_extends_def by (metis option.distinct(1))
  consider "fs' = fs1" | "write_file fs1 path data = (res, fs')"
    using assms(8) False cd by (cases b) (auto simp: DefaultWriteHandler_def Let_def)
  then show ?thesis
    using below changes_below_trans [OF below]
      write_file_below [OF ext(2) r no_links_below_extends [OF assms(3) ext(1)] assms(4,5,7)]
    by cases auto
qed

subsection \<open>What the transfers rely on\<close>

text \<open>
  A store of files as the transfers use it: reading and writing under a path, with the law that a
  successful write is read back. The law is all that the round trip of an upload and a download
  needs, so the callbacks of an application may take the place of the default handlers.
\<close>

locale file_store =
  fixes read_op :: "'st \<Rightarrow> string \<Rightarrow> (bool \<times> byte list) result"
    and write_op :: "'st \<Rightarrow> string \<Rightarrow> byte list \<Rightarrow> bool result \<times> 'st"
    and invar :: "'st \<Rightarrow> bool"
  assumes read_after_write: "write_op st path data = (Inr True, st') \<Longrightarrow> read_op st' path = Inr (True, data)"
    and invar_write: "invar st \<Longrightarrow> write_op st path data = (res, st') \<Longrightarrow> invar st'"
begin

fun write_all :: "'st \<Rightarrow> (string \<times> byte list) list \<Rightarrow> 'st" where
  "write_all st [] = st"
| "write_all st ((path, data) # ws) = write_all (snd (write_op st path data)) ws"

lemma invar_write_all: "invar st \<Longrightarrow> invar (write_all st ws)"
  by (induction st ws rule: write_all.induct) (auto intro: invar_write prod.collapse [symmetric])

lemma last_write_wins:
  assumes "fst (write_op (write_all st ws) path data) = Inr True"
  shows "read_op (write_all st (ws @ [(path, data)])) path = Inr (True, data)"
proof -
  have "write_all st (ws @ [(path, data)]) = snd (write_op (write_all st ws) path data)"
    by (induction st ws rule: write_all.induct) simp_all
  then show ?thesis
    using read_after_write [of "write_all st ws" path data] assms by (metis prod.collapse)
qed

end

interpretation default_store: file_store DefaultReadHandler DefaultWriteHandler fs_ok
proof
  fix fs path data fs'
  assume "DefaultWriteHandler fs path data = (Inr True, fs')"
  then show "DefaultReadHandler fs' path = Inr (True, data)"
    by (cases rule: DefaultWriteHandler_cases) (simp_all add: read_written)
next
  fix fs path data res fs'
  assume "fs_ok fs" and "DefaultWriteHandler fs path data = (res, fs')"
  from this(2,1) show "fs_ok fs'"
  proof (cases rule: DefaultWriteHandler_cases)
    case (written fs1 loc)
    then show ?thesis
      using creat_location_ok [OF written(4)] \<open>fs_ok fs\<close> by (auto intro!: fs_ok_put)
  qed simp
qed

subsection \<open>Properties\<close>

lemma is_absolute_segs: "segs p = [] # x # xs \<Longrightarrow> is_absolute p"
  by (cases p) (auto simp: is_absolute_def split: if_splits list.splits)

lemma secure_write_below:
  assumes "root_at fs root r" and "NUL \<notin> set root" and "no_links_below fs r"
    and "IsPathSecure fs p root"
    and "DefaultWriteHandler fs (NormalizePath fs (root @ p)) data = (res, fs')"
  shows "changes_below r fs fs'"
proof -
  obtain xs where xs: "segs (NormalizePath fs (root @ p)) = [] # r @ xs" "xs \<noteq> []" "''..'' \<notin> set xs"
    by (rule secure_path_shape [OF assms(1,2,4)])
  then have abs: "is_absolute (NormalizePath fs (root @ p))"
    by (cases "r @ xs") (auto intro: is_absolute_segs)
  have fs: "fs_ok fs"
    using assms(1) by (simp add: root_at_def)
  show ?thesis
    by (rule DefaultWriteHandler_below [OF fs root_at_Dir [OF assms(1)] assms(3) abs xs assms(5)])
qed

text \<open>
  Confinement of writes: below an existing root directory that holds no symbolic links, storing
  an upload under a name that passes the check changes nothing outside the root directory, neither
  files nor the directories created on the way.
\<close>

lemma secure_write_confined:
  assumes "root_at fs root r" and "NUL \<notin> set root" and "no_links_below fs r"
    and "IsPathSecure fs p root"
    and "DefaultWriteHandler fs (NormalizePath fs (root @ p)) data = (res, fs')"
  shows "fs_lookup fs' loc \<noteq> fs_lookup fs loc \<longrightarrow> prefix r loc"
  using secure_write_below [OF assms] by (simp add: changes_below_def)

definition fs_plain :: filesystem where
  "fs_plain = \<lparr>fs_nodes = [([''srv''], Dir), ([''srv'', ''tftp''], Dir)], fs_cwd = [], fs_dir_read = None\<rparr>"

text \<open>
  The condition on symbolic links is needed: a name in the root directory that is a link to a
  file which does not exist yet passes the check, its normal form is the link itself, and storing an
  upload under it creates the file outside the root directory.
\<close>

lemma dangling_link_escapes:
  "IsPathSecure fs_example ''new'' ''/srv/tftp/'' \<and>
   fs_lookup fs_example [''etc'', ''cron''] = None \<and>
   (let (res, fs') = DefaultWriteHandler fs_example (NormalizePath fs_example ''/srv/tftp/new'') [7]
    in res = Inr True \<and> fs_lookup fs' [''etc'', ''cron''] = Some (File [7]))"
  by code_simp

text \<open>
  C28. The default handlers form a store: after a write that reports success the path reads back
  exactly the bytes written, every other existing file is as before, the only other change being
  directories where there was nothing, and the file system stays well formed.
\<close>

theorem written_file_reads_back:
  assumes "fs_ok fs" and "DefaultWriteHandler fs path data = (Inr True, fs')"
  shows "DefaultReadHandler fs' path = Inr (True, data) \<and> fs_ok fs' \<and>
    (\<exists>loc. resolve fs' path = Inr loc \<and> (\<forall>l. l \<noteq> loc \<longrightarrow> fs_lookup fs' l = fs_lookup fs l \<or>
       fs_lookup fs l = None \<and> fs_lookup fs' l = Some Dir))"
proof (intro conjI)
  show "DefaultReadHandler fs' path = Inr (True, data)"
    by (rule default_store.read_after_write [OF assms(2)])
  show "fs_ok fs'"
    by (rule default_store.invar_write [OF assms])
  obtain fs1 loc where "fs_extends fs fs1" "creat_location fs1 path = Some loc"
    "fs' = fs_put loc (File data) fs1"
    using assms(2) by (cases rule: DefaultWriteHandler_cases) auto
  then show "\<exists>loc. resolve fs' path = Inr loc \<and> (\<forall>l. l \<noteq> loc \<longrightarrow> fs_lookup fs' l = fs_lookup fs l \<or>
       fs_lookup fs l = None \<and> fs_lookup fs' l = Some Dir)"
    using resolve_created unfolding fs_extends_def by auto
qed

theorem written_file_reads_back_witness:
  "DefaultReadHandler (snd (DefaultWriteHandler fs_example ''/srv/tftp/d/x'' [7, 8])) ''/srv/tftp/d/x'' =
   Inr (True, [7, 8])"
proof -
  have ok: "fs_ok fs_example" and "fst (DefaultWriteHandler fs_example ''/srv/tftp/d/x'' [7, 8]) = Inr True"
    by code_simp+
  then have "DefaultWriteHandler fs_example ''/srv/tftp/d/x'' [7, 8] =
      (Inr True, snd (DefaultWriteHandler fs_example ''/srv/tftp/d/x'' [7, 8]))"
    by (metis prod.collapse)
  then show ?thesis
    using written_file_reads_back [OF ok] by blast
qed

end
