(* ===== verification/Tftp_Transfer.thy ===== *)
theory Tftp_Transfer
  imports Tftp_Packet Tftp_File_Handlers
begin

section \<open>Transfers\<close>

text \<open>
  The transfer functions of \<^verbatim>\<open>src/internal/tftp_server_impl.cpp\<close>: \<^verbatim>\<open>SendPacket\<close>, \<^verbatim>\<open>ReceivePacket\<close>,
  \<^verbatim>\<open>SendError\<close>, \<^verbatim>\<open>HandleReadRequest\<close> and \<^verbatim>\<open>HandleWriteRequest\<close>, over the state of one client socket.
  The network is a script: the results of the coming \<^verbatim>\<open>sendto\<close> calls and what the coming waits for
  a datagram see. A script that has run out sends every datagram and receives none; as every run
  makes finitely many calls, each behaviour of the network is that of some script. The calls
  made are recorded in order in a trace.
\<close>

subsection \<open>The socket of a transfer\<close>

type_synonym sockaddr = "32 word \<times> uint16"

text \<open>
  \<open>Send_all\<close> is a \<^verbatim>\<open>sendto\<close> that returns the size of the datagram, \<open>Send_ret n\<close> one that returns
  \<open>n\<close> (-1 on an error).
\<close>

datatype send_outcome = Send_all | Send_ret int

datatype recv_outcome = Select_timeout | Select_error | Recv_error | Datagram sockaddr "byte list"

datatype event = Sendto sockaddr "byte list" int | Sleep_ms nat

record net =
  nt_sends :: "send_outcome list"
  nt_inbox :: "recv_outcome list"
  nt_trace :: "event list"

definition emit :: "event \<Rightarrow> net \<Rightarrow> net" where
  "emit e n = n\<lparr>nt_trace := nt_trace n @ [e]\<rparr>"

definition sendto :: "sockaddr \<Rightarrow> byte list \<Rightarrow> net \<Rightarrow> int \<times> net" where
  "sendto addr data n =
     (let r = (case nt_sends n of Send_ret k # _ \<Rightarrow> k | _ \<Rightarrow> int (length data))
      in (r, emit (Sendto addr data r) (n\<lparr>nt_sends := tl (nt_sends n)\<rparr>)))"

text \<open>\<^verbatim>\<open>select\<close> followed by \<^verbatim>\<open>recvfrom\<close> into a buffer, which cuts off what does not fit.\<close>

definition next_recv :: "net \<Rightarrow> recv_outcome \<times> net" where
  "next_recv n = (case nt_inbox n of
       [] \<Rightarrow> (Select_timeout, n)
     | r # rs \<Rightarrow> (r, n\<lparr>nt_inbox := rs\<rparr>))"

definition kMaxRetries :: nat where [guard_simps]: "kMaxRetries = 5"
definition kRetryTimeoutMs :: nat where [guard_simps]: "kRetryTimeoutMs = 1000"

subsection \<open>Sending and receiving packets\<close>

fun send_retry :: "nat \<Rightarrow> sockaddr \<Rightarrow> byte list \<Rightarrow> net \<Rightarrow> bool \<times> net" where
  "send_retry 0 addr data n = (False, n)"
| "send_retry (Suc k) addr data n =
     (let (sent_bytes, n') = sendto addr data n in
      if sent_bytes = int (length data) then (True, n')
      else send_retry k addr data (emit (Sleep_ms kRetryTimeoutMs) n'))"

definition SendPacket :: "sockaddr \<Rightarrow> TftpPacket \<Rightarrow> net \<Rightarrow> bool result \<times> net" where
  "SendPacket addr packet n = (case Serialize packet of
       Inl x \<Rightarrow> (Inl x, n)
     | Inr data \<Rightarrow> (let (sent, n') = send_retry kMaxRetries addr data n in (Inr sent, n')))"

text \<open>
  The packet and the source address are only used when the call succeeds (\<open>Some\<close>). A negative
  timeout makes \<^verbatim>\<open>select\<close> fail.
\<close>

definition ReceivePacket :: "int \<Rightarrow> net \<Rightarrow> (sockaddr \<times> TftpPacket) option \<times> net" where
  "ReceivePacket timeout_ms n =
     (if timeout_ms < 0 then (None, n)
      else case next_recv n of
        (Datagram addr bytes, n') \<Rightarrow>
          (let buffer = take kMaxPacketSize bytes in
           if buffer = [] then (None, n')
           else (case Deserialize buffer new_packet of
               (True, packet) \<Rightarrow> (Some (addr, packet), n')
             | (False, _) \<Rightarrow> (None, n')))
      | (_, n') \<Rightarrow> (None, n'))"

fun error_retry :: "nat \<Rightarrow> sockaddr \<Rightarrow> TftpPacket \<Rightarrow> net \<Rightarrow> unit result \<times> net" where
  "error_retry 0 addr packet n = (Inr (), n)"
| "error_retry (Suc k) addr packet n = (case SendPacket addr packet n of
       (Inl x, n') \<Rightarrow> (Inl x, n')
     | (Inr True, n') \<Rightarrow> (Inr (), n')
     | (Inr False, n') \<Rightarrow> error_retry k addr packet (emit (Sleep_ms (kRetryTimeoutMs div 2)) n'))"

definition SendError :: "sockaddr \<Rightarrow> ErrorCode \<Rightarrow> string \<Rightarrow> net \<Rightarrow> unit result \<times> net" where
  "SendError addr code message n = error_retry kMaxRetries addr (CreateError code message) n"

subsection \<open>The configuration of a transfer\<close>

text \<open>
  The members that a transfer reads under \<^verbatim>\<open>config_mutex_\<close>. A callback works on the state \<open>'s\<close> of
  the application (the file system, for the default ones); an empty \<^verbatim>\<open>std::function\<close> is \<open>None\<close> and
  throws when called.
\<close>

record 's transfer_config =
  read_callback :: "('s \<Rightarrow> string \<Rightarrow> (bool \<times> byte list) result \<times> 's) option"
  write_callback :: "('s \<Rightarrow> string \<Rightarrow> byte list \<Rightarrow> bool result \<times> 's) option"
  max_transfer_size :: uint64
  timeout_seconds :: int

fun call_read :: "('s \<Rightarrow> string \<Rightarrow> (bool \<times> byte list) result \<times> 's) option \<Rightarrow> 's \<Rightarrow> string \<Rightarrow>
    (bool \<times> byte list) result \<times> 's" where
  "call_read None st path = (Inl OtherException, st)"
| "call_read (Some f) st path = f st path"

fun call_write :: "('s \<Rightarrow> string \<Rightarrow> byte list \<Rightarrow> bool result \<times> 's) option \<Rightarrow> 's \<Rightarrow> string \<Rightarrow> byte list \<Rightarrow>
    bool result \<times> 's" where
  "call_write None st path data = (Inl OtherException, st)"
| "call_write (Some f) st path data = f st path data"

text \<open>
  What the constructor of the server sets: the default handlers, 1 GiB, 5 seconds. The default
  handlers work on the file system part of the state; the rest belongs to the application.
\<close>

record 'a world =
  w_fs :: filesystem
  w_app :: 'a

definition default_read :: "'a world \<Rightarrow> string \<Rightarrow> (bool \<times> byte list) result \<times> 'a world" where
  "default_read w path = (DefaultReadHandler (w_fs w) path, w)"

definition default_write :: "'a world \<Rightarrow> string \<Rightarrow> byte list \<Rightarrow> bool result \<times> 'a world" where
  "default_write w path data =
     (let (res, fs) = DefaultWriteHandler (w_fs w) path data in (res, w\<lparr>w_fs := fs\<rparr>))"

definition default_config :: "'a world transfer_config" where
  "default_config = \<lparr>
     read_callback = Some default_read,
     write_callback = Some default_write,
     max_transfer_size = 1024 * 1024 * 1024,
     timeout_seconds = 5\<rparr>"

interpretation world_store: file_store "\<lambda>w. DefaultReadHandler (w_fs w)" default_write "\<lambda>w. fs_ok (w_fs w)"
proof
  show "DefaultReadHandler (w_fs w') path = Inr (True, data)"
    if "default_write w path data = (Inr True, w')" for w w' :: "'a world" and path data
    using that default_store.read_after_write [of "w_fs w" path data]
    by (auto simp: default_write_def split: prod.splits)
  show "fs_ok (w_fs w')"
    if "fs_ok (w_fs w)" "default_write w path data = (res, w')" for w w' :: "'a world" and path data res
    using that default_store.invar_write [of "w_fs w" path data]
    by (auto simp: default_write_def split: prod.splits)
qed

subsection \<open>Read requests\<close>

text \<open>
  The loop of \<^verbatim>\<open>HandleReadRequest\<close>; the result says whether it runs to its end (\<open>True\<close>) or is left by a
  \<^verbatim>\<open>return\<close>.
\<close>

function send_blocks ::
  "int \<Rightarrow> sockaddr \<Rightarrow> byte list \<Rightarrow> uint16 \<Rightarrow> nat \<Rightarrow> net \<Rightarrow> bool result \<times> net" where
  "send_blocks timeout_secs client_addr file_data block_number offset n =
     (let remaining = length file_data - offset;
          block_size = (if remaining > kMaxDataSize then kMaxDataSize else remaining);
          block_data = take block_size (drop offset file_data)
      in case CreateData block_number block_data of
        Inl x \<Rightarrow> (Inl x, n)
      | Inr data_packet \<Rightarrow> (case SendPacket client_addr data_packet n of
          (Inl x, n1) \<Rightarrow> (Inl x, n1)
        | (Inr False, n1) \<Rightarrow> (Inr False, n1)
        | (Inr True, n1) \<Rightarrow> (case ReceivePacket (timeout_secs * 1000) n1 of
            (None, n2) \<Rightarrow> (Inr False, n2)
          | (Some (ack_addr, ack_packet), n2) \<Rightarrow>
              if pk_op_code ack_packet \<noteq> kAcknowledge \<or> pk_block_number ack_packet \<noteq> block_number
              then (Inr False, n2)
              else if block_size < kMaxDataSize then (Inr True, n2)
              else send_blocks timeout_secs client_addr file_data (block_number + 1)
                     (offset + block_size) n2)))"
  by pat_completeness auto
termination
  by (relation "measure (\<lambda>(_, _, data, _, offset, _). Suc (length data) - offset)")
    (auto simp: kMaxDataSize_def split: if_splits)

declare send_blocks.simps [simp del]

definition HandleReadRequest ::
  "'s transfer_config \<Rightarrow> sockaddr \<Rightarrow> string \<Rightarrow> 's \<times> net \<Rightarrow> bool result \<times> 's \<times> net" where
  "HandleReadRequest cfg client_addr filepath s =
     (let (st, n) = s in
      case call_read (read_callback cfg) st filepath of
        (Inl x, st') \<Rightarrow> (Inl x, st', n)
      | (Inr (success, file_data), st') \<Rightarrow>
          if \<not> success then
            (let (r, n') = SendError client_addr kFileNotFound ''File not found'' n
             in (map_sum id (\<lambda>_. False) r, st', n'))
          else if length file_data > unat (max_transfer_size cfg) then
            (let (r, n') = SendError client_addr kDiskFull ''File size too large'' n
             in (map_sum id (\<lambda>_. False) r, st', n'))
          else
            (let (r, n') = send_blocks (timeout_seconds cfg) client_addr file_data 1 0 n
             in (r, st', n')))"

subsection \<open>Write requests\<close>

text \<open>The \<^verbatim>\<open>tsize\<close> option: the expected size, if there is one that can be read.\<close>

definition expected_size :: "TftpPacket \<Rightarrow> uint64 option" where
  "expected_size packet =
     (if HasOption packet ''tsize'' then
        (case stoull (GetOption packet ''tsize'') of Inl x \<Rightarrow> None | Inr v \<Rightarrow> Some v)
      else None)"

text \<open>The value with which an option is acknowledged.\<close>

definition oack_value :: "string \<Rightarrow> string \<Rightarrow> string" where
  "oack_value name value =
     (if name = ''tsize'' then value
      else if name = ''blksize'' then
        (case stoi value of
           Inr blksize \<Rightarrow> if blksize \<ge> 8 \<and> blksize \<le> 65464 then value else ''512''
         | Inl x \<Rightarrow> ''512'')
      else if name = ''timeout'' then
        (case stoi value of
           Inr timeout_val \<Rightarrow> if timeout_val \<ge> 1 \<and> timeout_val \<le> 255 then value else ''6''
         | Inl x \<Rightarrow> ''6'')
      else value)"

definition oack_options :: "(string, string) umap \<Rightarrow> (string, string) umap" where
  "oack_options opts = map (\<lambda>(name, value). (name, oack_value name value)) opts"

definition oack_data :: "(string, string) umap \<Rightarrow> byte list" where
  "oack_data opts = put16 6 @ put_options (oack_options opts)"

text \<open>
  The reply to the request: whether the transfer goes on. The acknowledgement of options is sent
  once, the plain acknowledgement with retries.
\<close>

definition accept_write :: "sockaddr \<Rightarrow> TftpPacket \<Rightarrow> net \<Rightarrow> bool result \<times> net" where
  "accept_write client_addr packet n =
     (if pk_options packet \<noteq> [] then
        (let data = oack_data (pk_options packet); (sent_bytes, n') = sendto client_addr data n
         in (Inr (sent_bytes = int (length data)), n'))
      else SendPacket client_addr (CreateAck 0) n)"

text \<open>
  The receive loop: the data of the file when it runs to its end, \<open>None\<close> when it is left by a
  \<^verbatim>\<open>return\<close>. The sum \<^verbatim>\<open>expected_file_size + kMaxDataSize\<close> is computed on 64 bits.
\<close>

function receive_blocks ::
  "uint64 \<Rightarrow> int \<Rightarrow> uint64 option \<Rightarrow> sockaddr \<Rightarrow> byte list \<Rightarrow> uint16 \<Rightarrow> net \<Rightarrow>
   byte list option result \<times> net" where
  "receive_blocks max_size timeout_secs expected client_addr file_data expected_block n =
     (case ReceivePacket (timeout_secs * 1000) n of
        (None, n1) \<Rightarrow> (Inr None, n1)
      | (Some (data_addr, data_packet), n1) \<Rightarrow>
          if pk_op_code data_packet \<noteq> kData then
            (let (r, n2) = SendError client_addr kIllegalOperation ''Illegal operation'' n1
             in (map_sum id (\<lambda>_. None) r, n2))
          else if pk_block_number data_packet \<noteq> expected_block then (Inr None, n1)
          else
            (let block_data = pk_data data_packet; file_data' = file_data @ block_data in
             case SendPacket data_addr (CreateAck expected_block) n1 of
               (Inl x, n2) \<Rightarrow> (Inl x, n2)
             | (Inr False, n2) \<Rightarrow> (Inr None, n2)
             | (Inr True, n2) \<Rightarrow>
                 if length file_data' > unat max_size then
                   (let (r, n3) = SendError client_addr kDiskFull ''File size too large'' n2
                    in (map_sum id (\<lambda>_. None) r, n3))
                 else if (case expected of None \<Rightarrow> False
                     | Some esize \<Rightarrow> length file_data' > unat (esize + word_of_nat kMaxDataSize)) then
                   (let (r, n3) = SendError client_addr kDiskFull ''File size exceeds tsize'' n2
                    in (map_sum id (\<lambda>_. None) r, n3))
                 else if length block_data < kMaxDataSize then (Inr (Some file_data'), n2)
                 else receive_blocks max_size timeout_secs expected client_addr file_data'
                        (expected_block + 1) n2))"
  by pat_completeness auto
termination
  by (relation "measure (\<lambda>(max_size, _, _, _, data, _, _). Suc (unat max_size) - length data)")
    (auto simp: kMaxDataSize_def split: if_splits)

declare receive_blocks.simps [simp del]

definition HandleWriteRequest ::
  "'s transfer_config \<Rightarrow> sockaddr \<Rightarrow> string \<Rightarrow> TftpPacket \<Rightarrow> 's \<times> net \<Rightarrow> bool result \<times> 's \<times> net" where
  "HandleWriteRequest cfg client_addr filepath packet s =
     (let (st, n) = s in
      case accept_write client_addr packet n of
        (Inl x, n1) \<Rightarrow> (Inl x, st, n1)
      | (Inr False, n1) \<Rightarrow> (Inr False, st, n1)
      | (Inr True, n1) \<Rightarrow>
          (case receive_blocks (max_transfer_size cfg) (timeout_seconds cfg) (expected_size packet)
                  client_addr [] 1 n1 of
            (Inl x, n2) \<Rightarrow> (Inl x, st, n2)
          | (Inr None, n2) \<Rightarrow> (Inr False, st, n2)
          | (Inr (Some file_data), n2) \<Rightarrow>
              (case call_write (write_callback cfg) st filepath file_data of
                (Inl x, st') \<Rightarrow> (Inl x, st', n2)
              | (Inr True, st') \<Rightarrow> (Inr True, st', n2)
              | (Inr False, st') \<Rightarrow>
                  (let (r, n3) = SendError client_addr kAccessViolation ''File write failed'' n2
                   in (map_sum id (\<lambda>_. False) r, st', n3)))))"

subsection \<open>Lemmas on sending\<close>

text \<open>The datagrams that left the host completely, in order.\<close>

fun delivered :: "event list \<Rightarrow> (sockaddr \<times> byte list) list" where
  "delivered [] = []"
| "delivered (Sendto addr data r # es) =
     (if r = int (length data) then (addr, data) # delivered es else delivered es)"
| "delivered (Sleep_ms t # es) = delivered es"

fun send_calls :: "event list \<Rightarrow> nat" where
  "send_calls [] = 0"
| "send_calls (Sendto addr data r # es) = Suc (send_calls es)"
| "send_calls (Sleep_ms t # es) = send_calls es"

fun slept :: "event list \<Rightarrow> nat" where
  "slept [] = 0"
| "slept (Sendto addr data r # es) = slept es"
| "slept (Sleep_ms t # es) = t + slept es"

lemma delivered_append [simp]: "delivered (xs @ ys) = delivered xs @ delivered ys"
  by (induction xs rule: delivered.induct) auto

lemma send_calls_append [simp]: "send_calls (xs @ ys) = send_calls xs + send_calls ys"
  by (induction xs rule: send_calls.induct) auto

lemma slept_append [simp]: "slept (xs @ ys) = slept xs + slept ys"
  by (induction xs rule: slept.induct) auto

text \<open>
  What a step that only sends does to the socket: it leaves the inbox alone and appends events by
  which the given datagrams are delivered.
\<close>

definition sends :: "net \<Rightarrow> (sockaddr \<times> byte list) list \<Rightarrow> net \<Rightarrow> bool" where
  "sends n ds n' = (nt_inbox n' = nt_inbox n \<and>
     (\<exists>es. nt_trace n' = nt_trace n @ es \<and> delivered es = ds))"

lemma sends_refl [simp]: "sends n [] n"
  by (simp add: sends_def)

lemma sends_trans: "sends n ds n1 \<Longrightarrow> sends n1 ds' n2 \<Longrightarrow> sends n (ds @ ds') n2"
  by (auto simp: sends_def)

lemma sends_emit_sleep: "sends n ds n' \<Longrightarrow> sends n ds (emit (Sleep_ms t) n')"
  by (auto simp: sends_def emit_def)

lemma sendto_sends:
  "sendto addr data n = (r, n') \<Longrightarrow>
   sends n (if r = int (length data) then [(addr, data)] else []) n'"
  by (auto simp: sendto_def sends_def emit_def Let_def)

lemma send_retry_sends:
  "send_retry k addr data n = (b, n') \<Longrightarrow> sends n (if b then [(addr, data)] else []) n'"
proof (induction k arbitrary: n)
  case (Suc k)
  obtain r n1 where st: "sendto addr data n = (r, n1)"
    by (cases "sendto addr data n")
  show ?case
  proof (cases "r = int (length data)")
    case True
    then show ?thesis
      using Suc.prems sendto_sends [OF st] st by simp
  next
    case False
    then have "sends n [] (emit (Sleep_ms kRetryTimeoutMs) n1)"
      using sendto_sends [OF st] by (simp add: sends_emit_sleep)
    moreover have "send_retry k addr data (emit (Sleep_ms kRetryTimeoutMs) n1) = (b, n')"
      using Suc.prems st False by simp
    ultimately show ?thesis
      using sends_trans [OF _ Suc.IH] by fastforce
  qed
qed simp

lemma send_retry_bounds:
  "send_retry k addr data n = (b, n') \<Longrightarrow>
   \<exists>es. nt_trace n' = nt_trace n @ es \<and> send_calls es \<le> k \<and> slept es \<le> k * kRetryTimeoutMs \<and>
     (b \<longrightarrow> slept es < k * kRetryTimeoutMs) \<and>
     (\<forall>a d r. Sendto a d r \<in> set es \<longrightarrow> a = addr \<and> d = data)"
proof (induction k arbitrary: n)
  case (Suc k)
  obtain r n1 where st: "sendto addr data n = (r, n1)"
    by (cases "sendto addr data n")
  then have n1: "nt_trace n1 = nt_trace n @ [Sendto addr data r]"
    by (auto simp: sendto_def emit_def Let_def)
  show ?case
  proof (cases "r = int (length data)")
    case True
    then show ?thesis
      using Suc.prems st n1 by (auto simp: kRetryTimeoutMs_def intro!: exI [of _ "[Sendto addr data r]"])
  next
    case False
    then obtain es where "nt_trace n' = nt_trace (emit (Sleep_ms kRetryTimeoutMs) n1) @ es"
      "send_calls es \<le> k" "slept es \<le> k * kRetryTimeoutMs" "b \<longrightarrow> slept es < k * kRetryTimeoutMs"
      "\<forall>a d r. Sendto a d r \<in> set es \<longrightarrow> a = addr \<and> d = data"
      using Suc.IH [of "emit (Sleep_ms kRetryTimeoutMs) n1"] Suc.prems st by auto
    then show ?thesis
      using n1 by (intro exI [of _ "Sendto addr data r # Sleep_ms kRetryTimeoutMs # es"])
        (auto simp: emit_def)
  qed
qed simp

lemma SendPacket_sends:
  assumes "Serialize packet = Inr data" and "SendPacket addr packet n = (r, n')"
  obtains b where "r = Inr b" and "sends n (if b then [(addr, data)] else []) n'"
  using assms send_retry_sends [of kMaxRetries addr data n]
  by (auto simp: SendPacket_def split: prod.splits)

text \<open>A socket on which every datagram is sent at the first attempt.\<close>

definition reliable :: "net \<Rightarrow> bool" where
  "reliable n = list_all (\<lambda>s. s = Send_all) (nt_sends n)"

definition deliver :: "sockaddr \<Rightarrow> byte list \<Rightarrow> net \<Rightarrow> net" where
  "deliver addr data n = snd (sendto addr data n)"

lemma reliable_sendto: "reliable n \<Longrightarrow> sendto addr data n = (int (length data), deliver addr data n)"
  by (cases "nt_sends n") (auto simp: reliable_def sendto_def deliver_def Let_def)

lemma deliver_simps [simp]:
  "reliable n \<Longrightarrow> reliable (deliver addr data n)"
  "nt_inbox (deliver addr data n) = nt_inbox n"
  "reliable n \<Longrightarrow> nt_trace (deliver addr data n) = nt_trace n @ [Sendto addr data (int (length data))]"
  by (cases "nt_sends n";
      auto simp: reliable_def sendto_def deliver_def Let_def emit_def)+

lemma reliable_SendPacket:
  "reliable n \<Longrightarrow> Serialize packet = Inr data \<Longrightarrow>
   SendPacket addr packet n = (Inr True, deliver addr data n)"
  by (simp add: SendPacket_def kMaxRetries_def numeral_eq_Suc reliable_sendto)

lemma reliable_SendError:
  "reliable n \<Longrightarrow> Serialize (CreateError code msg) = Inr bs \<Longrightarrow> SendError addr code msg n = (Inr (), deliver addr bs n)"
  by (simp add: SendError_def kMaxRetries_def numeral_eq_Suc reliable_SendPacket)

subsection \<open>Lemmas on packets of a transfer\<close>

definition data_bytes :: "uint16 \<Rightarrow> byte list \<Rightarrow> byte list" where
  "data_bytes block_number block = put16 3 @ put16 block_number @ block"

definition ack_bytes :: "uint16 \<Rightarrow> byte list" where
  "ack_bytes block_number = put16 4 @ put16 block_number"

lemma Serialize_CreateAck [simp]: "Serialize (CreateAck b) = Inr (ack_bytes b)"
  by (simp add: Serialize_def CreateAck_def new_packet_def ack_bytes_def)

lemma CreateData_ok:
  "length block \<le> kMaxDataSize \<Longrightarrow> \<exists>p. CreateData b block = Inr p \<and> Serialize p = Inr (data_bytes b block)"
  by (simp add: Serialize_def CreateData_def new_packet_def data_bytes_def)

lemma Serialize_CreateError: "\<exists>bs. Serialize (CreateError c msg) = Inr bs"
  by (simp add: Serialize_def CreateError_def)

lemma Deserialize_ack: "Deserialize (ack_bytes b) q = (True, CreateAck b)"
  using Deserialize_Serialize [OF factories_ok(4) Serialize_CreateAck, of b q]
  by (simp add: ack_bytes_def guard_simps)

lemma Deserialize_data:
  assumes "length block \<le> kMaxDataSize"
  shows "\<exists>p. Deserialize (data_bytes b block) q = (True, p) \<and> pk_op_code p = kData \<and>
    pk_block_number p = b \<and> pk_data p = block"
proof -
  obtain p where p: "CreateData b block = Inr p" "Serialize p = Inr (data_bytes b block)"
    using CreateData_ok [OF assms] by blast
  have "Deserialize (data_bytes b block) q = (True, p)"
    using Deserialize_Serialize [OF factories_ok(3) [OF p(1)] p(2), of q] assms
    by (simp add: data_bytes_def guard_simps)
  then show ?thesis
    using p(1) assms by (auto simp: CreateData_def)
qed

lemma length_transfer_packets [simp]:
  "length (ack_bytes b) = 4" "length (data_bytes b block) = 4 + length block"
  by (simp_all add: ack_bytes_def data_bytes_def)

subsection \<open>Files as sequences of blocks\<close>

text \<open>The blocks of RFC 1350: as many full ones as there are, and a last one that is shorter.\<close>

function blocks :: "byte list \<Rightarrow> byte list list" where
  "blocks data =
     (if length data < kMaxDataSize then [data]
      else take kMaxDataSize data # blocks (drop kMaxDataSize data))"
  by pat_completeness auto
termination
  by (relation "measure length") (auto simp: kMaxDataSize_def)

declare blocks.simps [simp del]

lemma blocks_short: "length data < kMaxDataSize \<Longrightarrow> blocks data = [data]"
  by (subst blocks.simps) simp

lemma blocks_full:
  "\<not> length data < kMaxDataSize \<Longrightarrow> blocks data = take kMaxDataSize data # blocks (drop kMaxDataSize data)"
  by (subst blocks.simps) simp

lemma blocks_nonempty [simp]: "blocks data \<noteq> []"
  by (cases "length data < kMaxDataSize") (simp_all add: blocks_short blocks_full)

lemma concat_blocks: "concat (blocks data) = data"
  by (induction data rule: blocks.induct) (subst blocks.simps, simp)

lemma length_blocks: "length (blocks data) = Suc (length data div kMaxDataSize)"
proof (induction data rule: blocks.induct)
  case (1 data)
  show ?case
  proof (cases "length data < kMaxDataSize")
    case False
    have "length (blocks data) = Suc (length (blocks (drop kMaxDataSize data)))"
      using False by (simp add: blocks_full)
    also have "\<dots> = Suc (Suc ((length data - kMaxDataSize) div kMaxDataSize))"
      using 1 [OF False] by simp
    also have "\<dots> = Suc (length data div kMaxDataSize)"
      using False by (simp add: le_div_geq kMaxDataSize_def)
    finally show ?thesis .
  qed (simp add: blocks_short)
qed

text \<open>A list of blocks is such a sequence exactly if all but the last have the full size.\<close>

lemma blocks_snoc:
  "list_all (\<lambda>b. length b = kMaxDataSize) bs \<Longrightarrow> length b < kMaxDataSize \<Longrightarrow>
   blocks (concat bs @ b) = bs @ [b]"
proof (induction bs)
  case (Cons c bs)
  then show ?case
    by (subst blocks_full) auto
qed (simp add: blocks_short)

lemma blocks_split:
  obtains bs b where "blocks data = bs @ [b]" and "list_all (\<lambda>b. length b = kMaxDataSize) bs"
    and "length b < kMaxDataSize"
proof (induction data arbitrary: thesis rule: blocks.induct)
  case (1 data)
  show ?case
  proof (cases "length data < kMaxDataSize")
    case True
    then show ?thesis
      using "1.prems" [of "[]" data] by (simp add: blocks_short)
  next
    case False
    then obtain bs b where "blocks (drop kMaxDataSize data) = bs @ [b]"
      "list_all (\<lambda>b. length b = kMaxDataSize) bs" "length b < kMaxDataSize"
      using "1.IH" by blast
    then show ?thesis
      using "1.prems" [of "take kMaxDataSize data # bs" b] False by (simp add: blocks_full)
  qed
qed

lemma blocks_bounded: "b \<in> set (blocks data) \<Longrightarrow> length b \<le> kMaxDataSize"
  by (rule blocks_split [of data]) (auto simp: list_all_iff)

subsection \<open>Read requests send the blocks of the file\<close>

text \<open>Stop-and-wait over a given list of blocks, the specification of the download loop.\<close>

fun send_each :: "int \<Rightarrow> sockaddr \<Rightarrow> uint16 \<Rightarrow> byte list list \<Rightarrow> net \<Rightarrow> bool \<times> net" where
  "send_each timeout_ms addr b [] n = (True, n)"
| "send_each timeout_ms addr b (block # rest) n =
     (case send_retry kMaxRetries addr (data_bytes b block) n of
        (False, n1) \<Rightarrow> (False, n1)
      | (True, n1) \<Rightarrow> (case ReceivePacket timeout_ms n1 of
          (None, n2) \<Rightarrow> (False, n2)
        | (Some (src, ack), n2) \<Rightarrow>
            if pk_op_code ack = kAcknowledge \<and> pk_block_number ack = b
            then send_each timeout_ms addr (b + 1) rest n2 else (False, n2)))"

lemma send_blocks_eq:
  "send_blocks tmo addr data b offset n =
   apfst Inr (send_each (tmo * 1000) addr b (blocks (drop offset data)) n)"
proof (induction tmo addr data b offset n rule: send_blocks.induct)
  case (1 tmo addr data b offset n)
  define rem where "rem = length data - offset"
  define bsize where "bsize = (if rem > kMaxDataSize then kMaxDataSize else rem)"
  define blk where "blk = take bsize (drop offset data)"
  have blk: "length blk = bsize" "bsize \<le> kMaxDataSize"
    by (auto simp: blk_def bsize_def rem_def)
  obtain p where p: "CreateData b blk = Inr p" "Serialize p = Inr (data_bytes b blk)"
    using CreateData_ok [of blk b] blk by auto
  have bl: "blocks (drop offset data) =
      (if bsize < kMaxDataSize then [blk] else blk # blocks (drop (offset + bsize) data))"
    by (auto simp: blocks_short blocks_full blk_def bsize_def rem_def add.commute split: if_splits)
  have IH: "send_blocks tmo addr data (b + 1) (offset + bsize) n2 =
      apfst Inr (send_each (tmo * 1000) addr (b + 1) (blocks (drop (offset + bsize) data)) n2)"
    if "send_retry kMaxRetries addr (data_bytes b blk) n = (True, n1)"
      and "ReceivePacket (tmo * 1000) n1 = (Some (src, ack), n2)"
      and "pk_op_code ack = kAcknowledge" "pk_block_number ack = b" and "\<not> bsize < kMaxDataSize"
    for n1 n2 src ack
    using "1.IH" [OF rem_def bsize_def blk_def p(1)] that by (simp add: SendPacket_def p(2))
  show ?case
    unfolding send_blocks.simps [of tmo addr data b offset n] Let_def rem_def [symmetric]
      bsize_def [symmetric] blk_def [symmetric] p(1) bl
    by (auto simp: SendPacket_def p(2) IH split: prod.split bool.split option.split)
qed

lemma ReceivePacket_net:
  assumes "ReceivePacket t n = (r, n')"
  shows "nt_trace n' = nt_trace n" and "nt_sends n' = nt_sends n"
  using assms
  by (auto simp: ReceivePacket_def next_recv_def Let_def
      split: if_splits list.splits recv_outcome.splits prod.splits bool.splits)

lemma ReceivePacket_ok:
  assumes "ReceivePacket t n = (Some (src, p), n')"
  obtains bytes where "nt_inbox n = Datagram src bytes # nt_inbox n'"
    and "Deserialize (take kMaxPacketSize bytes) new_packet = (True, p)"
  using assms
  by (auto simp: ReceivePacket_def next_recv_def Let_def
      split: if_splits list.splits recv_outcome.splits prod.splits bool.splits)

lemma ReceivePacket_Datagram:
  assumes "0 \<le> t" and "nt_inbox n = Datagram src bytes # rest"
    and "Deserialize bytes new_packet = (True, p)"
  shows "ReceivePacket t n = (Some (src, p), n\<lparr>nt_inbox := rest\<rparr>)"
  using assms Deserialize_size [OF assms(3)]
  by (auto simp: ReceivePacket_def next_recv_def Let_def kMinPacketSize_def)

fun numbered :: "uint16 \<Rightarrow> byte list list \<Rightarrow> byte list list" where
  "numbered b [] = []"
| "numbered b (block # rest) = data_bytes b block # numbered (b + 1) rest"

lemma numbered_nth:
  "numbered b bs = map (\<lambda>i. data_bytes (b + word_of_nat i) (bs ! i)) [0..<length bs]"
proof (induction bs arbitrary: b)
  case (Cons block bs)
  have "[0..<length (block # bs)] = 0 # map Suc [0..<length bs]"
    by (simp add: upt_conv_Cons map_Suc_upt del: upt_Suc)
  then show ?case
    by (simp add: Cons.IH add.assoc)
qed simp

text \<open>Whatever the network does, the client is sent a prefix of the blocks, in order.\<close>

lemma send_each_prefix:
  "send_each t addr b bs n = (ok, n') \<Longrightarrow>
   \<exists>k es. k \<le> length bs \<and> nt_trace n' = nt_trace n @ es \<and>
     delivered es = map (Pair addr) (take k (numbered b bs)) \<and> (ok \<longrightarrow> k = length bs)"
proof (induction t addr b bs n rule: send_each.induct)
  case (2 t addr b block rest n)
  obtain sent n1 where sr: "send_retry kMaxRetries addr (data_bytes b block) n = (sent, n1)"
    by (cases "send_retry kMaxRetries addr (data_bytes b block) n")
  obtain es1 where es1: "nt_trace n1 = nt_trace n @ es1"
    "delivered es1 = (if sent then [(addr, data_bytes b block)] else [])"
    using send_retry_sends [OF sr] by (auto simp: sends_def)
  obtain r n2 where rp: "ReceivePacket t n1 = (r, n2)"
    by (cases "ReceivePacket t n1")
  note tr = ReceivePacket_net(1) [OF rp]
  consider (stop) "\<not> sent" "\<not> ok" "n' = n1" | (stop2) "sent" "\<not> ok" "n' = n2"
    | (go) src ack where "sent" "r = Some (src, ack)" "pk_op_code ack = kAcknowledge" "pk_block_number ack = b"
      "send_each t addr (b + 1) rest n2 = (ok, n')"
    using "2.prems" sr rp by (auto split: bool.splits option.splits if_splits prod.splits)
  then show ?case
  proof cases
    case stop
    then show ?thesis
      using es1 by (intro exI [of _ 0] exI [of _ es1]) simp
  next
    case stop2
    then show ?thesis
      using es1 tr by (intro exI [of _ 1] exI [of _ es1]) simp
  next
    case go
    obtain k es where "k \<le> length rest" "nt_trace n' = nt_trace n2 @ es"
      "delivered es = map (Pair addr) (take k (numbered (b + 1) rest))" "ok \<longrightarrow> k = length rest"
      using "2.IH" [OF sr [symmetric] _ rp [symmetric] go(2) refl] go(1,3-5) by blast
    then show ?thesis
      using es1 tr go(1) by (intro exI [of _ "Suc k"] exI [of _ "es1 @ es"]) simp
  qed
qed simp

text \<open>A client that acknowledges every block is sent all of them.\<close>

lemma send_each_acknowledged:
  "reliable n \<Longrightarrow> 0 \<le> t \<Longrightarrow>
   nt_inbox n = map (\<lambda>i. Datagram addr (ack_bytes (b + word_of_nat i))) [0..<length bs] @ rest \<Longrightarrow>
   \<exists>n' es. send_each t addr b bs n = (True, n') \<and> nt_inbox n' = rest \<and> reliable n' \<and>
     nt_trace n' = nt_trace n @ es \<and> delivered es = map (Pair addr) (numbered b bs)"
proof (induction bs arbitrary: b n)
  case (Cons block bs)
  let ?n1 = "deliver addr (data_bytes b block) n"
  let ?inbox = "map (\<lambda>i. Datagram addr (ack_bytes (b + 1 + word_of_nat i))) [0..<length bs] @ rest"
  have "[0..<length (block # bs)] = 0 # map Suc [0..<length bs]"
    by (simp add: upt_conv_Cons map_Suc_upt del: upt_Suc)
  then have "nt_inbox ?n1 = Datagram addr (ack_bytes b) # ?inbox"
    using Cons.prems(3) by (simp add: add.assoc)
  then have rp: "ReceivePacket t ?n1 = (Some (addr, CreateAck b), ?n1\<lparr>nt_inbox := ?inbox\<rparr>)"
    using ReceivePacket_Datagram [OF Cons.prems(2) _ Deserialize_ack] by blast
  have sr: "send_retry kMaxRetries addr (data_bytes b block) n = (True, ?n1)"
    using Cons.prems(1) by (simp add: kMaxRetries_def numeral_eq_Suc reliable_sendto)
  have rel: "reliable (?n1\<lparr>nt_inbox := ?inbox\<rparr>)"
    using Cons.prems(1) deliver_simps(1) by (simp add: reliable_def)
  obtain n' es where "send_each t addr (b + 1) bs (?n1\<lparr>nt_inbox := ?inbox\<rparr>) = (True, n')"
    "nt_inbox n' = rest" "reliable n'" "nt_trace n' = nt_trace ?n1 @ es"
    "delivered es = map (Pair addr) (numbered (b + 1) bs)"
    using Cons.IH [OF rel Cons.prems(2), of "b + 1"] by auto
  then show ?case
    using sr rp Cons.prems(1)
    by (intro exI [of _ n'] exI [of _ "Sendto addr (data_bytes b block) (int (length (data_bytes b block))) # es"])
      (simp add: CreateAck_def)
qed simp

subsection \<open>Error replies\<close>


lemma error_retry_ok:
  assumes "Serialize packet = Inr data"
  obtains n' b es where "error_retry k addr packet n = (Inr (), n')" and "nt_inbox n' = nt_inbox n"
    and "nt_trace n' = nt_trace n @ es" and "delivered es = (if b then [(addr, data)] else [])"
    and "send_calls es \<le> k * kMaxRetries"
    and "slept es \<le> k * (kMaxRetries * kRetryTimeoutMs + kRetryTimeoutMs div 2)"
proof (induction k arbitrary: n thesis)
  case 0
  then show ?case
    using 0 [of n "[]" False] by simp
next
  case (Suc k)
  obtain sent n1 where sr: "send_retry kMaxRetries addr data n = (sent, n1)"
    by (cases "send_retry kMaxRetries addr data n")
  obtain es1 where es1: "nt_trace n1 = nt_trace n @ es1" "send_calls es1 \<le> kMaxRetries"
    "slept es1 \<le> kMaxRetries * kRetryTimeoutMs"
    using send_retry_bounds [OF sr] by blast
  moreover have "sends n (if sent then [(addr, data)] else []) n1"
    by (rule send_retry_sends [OF sr])
  ultimately have d1: "delivered es1 = (if sent then [(addr, data)] else [])" "nt_inbox n1 = nt_inbox n"
    by (auto simp: sends_def)
  show ?case
  proof (cases sent)
    case True
    then show ?thesis
      using Suc.prems [of n1 es1 True] es1 d1 sr assms by (simp add: SendPacket_def)
  next
    case False
    let ?n2 = "emit (Sleep_ms (kRetryTimeoutMs div 2)) n1"
    obtain n' b es where "error_retry k addr packet ?n2 = (Inr (), n')" "nt_inbox n' = nt_inbox ?n2"
      "nt_trace n' = nt_trace ?n2 @ es" "delivered es = (if b then [(addr, data)] else [])"
      "send_calls es \<le> k * kMaxRetries"
      "slept es \<le> k * (kMaxRetries * kRetryTimeoutMs + kRetryTimeoutMs div 2)"
      by (rule Suc.IH)
    then show ?thesis
      using Suc.prems [of n' "es1 @ Sleep_ms (kRetryTimeoutMs div 2) # es" b] es1 d1 sr False assms
      by (simp add: SendPacket_def emit_def)
  qed
qed

lemma SendError_ok:
  obtains n' where "SendError addr code msg n = (Inr (), n')" and "nt_inbox n' = nt_inbox n"
    and "\<exists>es. nt_trace n' = nt_trace n @ es"
proof -
  obtain bs where "Serialize (CreateError code msg) = Inr bs"
    using Serialize_CreateError by blast
  from error_retry_ok [OF this, of kMaxRetries addr n] show ?thesis
    using that unfolding SendError_def by metis
qed

subsection \<open>Write requests receive blocks\<close>

text \<open>The source and the payload of a datagram that carries the given block.\<close>

definition payload :: "uint16 \<Rightarrow> recv_outcome \<Rightarrow> (sockaddr \<times> byte list) option" where
  "payload b r = (case r of
       Datagram src bytes \<Rightarrow>
         (let (ok, p) = Deserialize (take kMaxPacketSize bytes) new_packet in
          if ok \<and> pk_op_code p = kData \<and> pk_block_number p = b then Some (src, pk_data p) else None)
     | _ \<Rightarrow> None)"

fun received :: "uint16 \<Rightarrow> recv_outcome list \<Rightarrow> (sockaddr \<times> byte list) list \<Rightarrow> bool" where
  "received b [] [] = True"
| "received b (r # rs) (x # xs) = (payload b r = Some x \<and> received (b + 1) rs xs)"
| "received b _ _ = False"

fun acks :: "uint16 \<Rightarrow> (sockaddr \<times> byte list) list \<Rightarrow> (sockaddr \<times> byte list) list" where
  "acks b [] = []"
| "acks b ((src, _) # xs) = (src, ack_bytes b) # acks (b + 1) xs"

definition within_expected :: "uint64 option \<Rightarrow> nat \<Rightarrow> bool" where
  "within_expected expected len = (case expected of
       None \<Rightarrow> True | Some esize \<Rightarrow> len \<le> unat (esize + word_of_nat kMaxDataSize))"

lemma map_sum_eq_Inl [simp]: "map_sum f g r = Inl x \<longleftrightarrow> (\<exists>y. r = Inl y \<and> x = f y)"
  by (cases r) auto

lemma map_sum_eq_Inr [simp]: "map_sum f g r = Inr x \<longleftrightarrow> (\<exists>y. r = Inr y \<and> x = g y)"
  by (cases r) auto

lemma SendError_unit: "SendError addr c msg n = (r, n') \<Longrightarrow> r = Inr ()"
  by (rule SendError_ok [of addr c msg n]) auto

lemma SendPacket_bool: "Serialize p = Inr bs \<Longrightarrow> SendPacket addr p n = (r, n') \<Longrightarrow> \<exists>b. r = Inr b"
  by (auto simp: SendPacket_def split: prod.splits)

text \<open>One round of the receive loop.\<close>

lemma receive_blocks_step:
  assumes "receive_blocks mx tmo ex addr acc b n = (r, n')"
  obtains (stopped) "r = Inr None"
  | (block) src p n1 n2 where "ReceivePacket (tmo * 1000) n = (Some (src, p), n1)"
    and "pk_op_code p = kData" and "pk_block_number p = b"
    and "SendPacket src (CreateAck b) n1 = (Inr True, n2)"
    and "length (acc @ pk_data p) \<le> unat mx" and "within_expected ex (length (acc @ pk_data p))"
    and "if length (pk_data p) < kMaxDataSize then r = Inr (Some (acc @ pk_data p)) \<and> n' = n2
      else receive_blocks mx tmo ex addr (acc @ pk_data p) (b + 1) n2 = (r, n')"
proof (cases "ReceivePacket (tmo * 1000) n")
  case (Pair q n1)
  show ?thesis
  proof (cases "\<exists>src p. q = Some (src, p) \<and> pk_op_code p = kData \<and> pk_block_number p = b")
    case False
    then have "r = Inr None"
      using assms unfolding receive_blocks.simps [of mx tmo ex addr acc b n] Pair
      by (auto split: option.splits if_splits prod.splits dest: SendError_unit)
    then show ?thesis
      by (rule stopped)
  next
    case True
    then obtain src p where q: "q = Some (src, p)" and p: "pk_op_code p = kData" "pk_block_number p = b"
      by blast
    obtain ok n2 where sp: "SendPacket src (CreateAck b) n1 = (Inr ok, n2)"
      using SendPacket_bool [OF Serialize_CreateAck] by (metis prod.exhaust)
    consider "r = Inr None" | "ok" "length (acc @ pk_data p) \<le> unat mx"
      "within_expected ex (length (acc @ pk_data p))"
      "if length (pk_data p) < kMaxDataSize then r = Inr (Some (acc @ pk_data p)) \<and> n' = n2
       else receive_blocks mx tmo ex addr (acc @ pk_data p) (b + 1) n2 = (r, n')"
      using assms unfolding receive_blocks.simps [of mx tmo ex addr acc b n] Pair q
      by (auto simp: p sp Let_def within_expected_def not_less
          split: prod.splits bool.splits option.splits if_splits dest: SendError_unit)
    then show ?thesis
      using Pair q p sp stopped block by cases auto
  qed
qed

lemma receive_blocks_no_exception [simp]:
  "receive_blocks mx tmo ex addr acc b n \<noteq> (Inl x, n')"
proof (induction "Suc (unat mx) - length acc" arbitrary: acc b n rule: less_induct)
  case less
  show ?case
  proof
    assume "receive_blocks mx tmo ex addr acc b n = (Inl x, n')"
    then show False
    proof (cases rule: receive_blocks_step)
      case (block src p n1 n2)
      then have "\<not> length (pk_data p) < kMaxDataSize"
        and "receive_blocks mx tmo ex addr (acc @ pk_data p) (b + 1) n2 = (Inl x, n')"
        by (auto split: if_splits)
      moreover from this(1) have "Suc (unat mx) - length (acc @ pk_data p) < Suc (unat mx) - length acc"
        using block(5) by (simp add: kMaxDataSize_def)
      ultimately show ?thesis
        using less by blast
    qed simp
  qed
qed

lemma SendPacket_Ack_sends:
  assumes "SendPacket addr (CreateAck b) n = (Inr True, n')"
  shows "sends n [(addr, ack_bytes b)] n'"
  using SendPacket_sends [OF Serialize_CreateAck assms] by auto

text \<open>One round of the loop that goes on: the datagram that was taken and the acknowledgement of it.\<close>

lemma receive_blocks_block:
  assumes "receive_blocks mx tmo ex addr acc b n = (Inr (Some d), n')"
  obtains dg src blk n2 es where "payload b dg = Some (src, blk)" "length blk \<le> kMaxDataSize"
    "nt_inbox n = dg # nt_inbox n2" "nt_trace n2 = nt_trace n @ es" "delivered es = [(src, ack_bytes b)]"
    "length (acc @ blk) \<le> unat mx" "within_expected ex (length (acc @ blk))"
    "if length blk < kMaxDataSize then d = acc @ blk \<and> n' = n2
     else receive_blocks mx tmo ex addr (acc @ blk) (b + 1) n2 = (Inr (Some d), n')"
proof -
  obtain src p n1 n2 where rp: "ReceivePacket (tmo * 1000) n = (Some (src, p), n1)"
    and p: "pk_op_code p = kData" "pk_block_number p = b"
    and sp: "SendPacket src (CreateAck b) n1 = (Inr True, n2)"
    and len: "length (acc @ pk_data p) \<le> unat mx" "within_expected ex (length (acc @ pk_data p))"
    and cont: "if length (pk_data p) < kMaxDataSize then d = acc @ pk_data p \<and> n' = n2
      else receive_blocks mx tmo ex addr (acc @ pk_data p) (b + 1) n2 = (Inr (Some d), n')"
    by (rule receive_blocks_step [OF assms]) (auto split: if_splits)
  obtain bytes where dg: "nt_inbox n = Datagram src bytes # nt_inbox n1"
    and des: "Deserialize (take kMaxPacketSize bytes) new_packet = (True, p)"
    by (rule ReceivePacket_ok [OF rp])
  obtain es where es: "nt_trace n2 = nt_trace n @ es" "delivered es = [(src, ack_bytes b)]"
    "nt_inbox n2 = nt_inbox n1"
    using SendPacket_Ack_sends [OF sp] ReceivePacket_net(1) [OF rp] by (auto simp: sends_def)
  have "payload b (Datagram src bytes) = Some (src, pk_data p)"
    by (simp add: payload_def des p)
  moreover have "length (pk_data p) \<le> kMaxDataSize"
    using Deserialize_wf [OF des] p(1) by (simp add: packet_ok_def)
  ultimately show ?thesis
    using that [OF _ _ _ es(1,2) len cont] dg es(3) by simp
qed

text \<open>
  A completed reception: the blocks of the file are exactly the payloads that arrived, in order and
  numbered consecutively, and each of them was acknowledged to its source.
\<close>

lemma receive_blocks_ok:
  assumes "receive_blocks mx tmo ex addr acc b n = (Inr (Some d), n')"
  shows "\<exists>dgs xs es. d = acc @ concat (map snd xs) \<and> map snd xs = blocks (concat (map snd xs)) \<and>
    nt_inbox n = dgs @ nt_inbox n' \<and> received b dgs xs \<and>
    nt_trace n' = nt_trace n @ es \<and> delivered es = acks b xs \<and>
    length d \<le> unat mx \<and> within_expected ex (length d)"
  using assms
proof (induction "Suc (unat mx) - length acc" arbitrary: acc b n rule: less_induct)
  case less
  from less.prems obtain dg src blk n2 es where blk: "payload b dg = Some (src, blk)" "length blk \<le> kMaxDataSize"
    and es: "nt_inbox n = dg # nt_inbox n2" "nt_trace n2 = nt_trace n @ es" "delivered es = [(src, ack_bytes b)]"
    and len: "length (acc @ blk) \<le> unat mx" "within_expected ex (length (acc @ blk))"
    and cont: "if length blk < kMaxDataSize then d = acc @ blk \<and> n' = n2
     else receive_blocks mx tmo ex addr (acc @ blk) (b + 1) n2 = (Inr (Some d), n')"
    by (rule receive_blocks_block)
  show ?case
  proof (cases "length blk < kMaxDataSize")
    case True
    then show ?thesis
      using cont len blk es blocks_short [OF True]
      by (intro exI [of _ "[dg]"] exI [of _ "[(src, blk)]"] exI [of _ es]) auto
  next
    case False
    then have full: "length blk = kMaxDataSize"
      using blk(2) by simp
    have "Suc (unat mx) - length (acc @ blk) < Suc (unat mx) - length acc"
      using len(1) full by (auto simp: kMaxDataSize_def)
    then obtain dgs xs es' where IH: "d = (acc @ blk) @ concat (map snd xs)"
      "map snd xs = blocks (concat (map snd xs))" "nt_inbox n2 = dgs @ nt_inbox n'" "received (b + 1) dgs xs"
      "nt_trace n' = nt_trace n2 @ es'" "delivered es' = acks (b + 1) xs" "length d \<le> unat mx"
      "within_expected ex (length d)"
      using less.hyps cont False by (metis (no_types))
    moreover have "blocks (blk @ concat (map snd xs)) = blk # map snd xs"
      using blocks_full [of "blk @ concat (map snd xs)"] full IH(2) by simp
    ultimately show ?thesis
      using blk es
      by (intro exI [of _ "dg # dgs"] exI [of _ "(src, blk) # xs"] exI [of _ "es @ es'"]) simp
  qed
qed

text \<open>One round on a reliable network.\<close>

lemma receive_block_reliable:
  assumes "0 \<le> tmo" and "reliable n" and "nt_inbox n = Datagram src (data_bytes b blk) # rest"
    and "length blk \<le> kMaxDataSize" and "length (acc @ blk) \<le> unat mx" and "within_expected ex (length (acc @ blk))"
  shows "receive_blocks mx tmo ex addr acc b n =
    (let n2 = deliver src (ack_bytes b) (n\<lparr>nt_inbox := rest\<rparr>) in
     if length blk < kMaxDataSize then (Inr (Some (acc @ blk)), n2)
     else receive_blocks mx tmo ex addr (acc @ blk) (b + 1) n2)"
proof -
  obtain p where p: "Deserialize (data_bytes b blk) new_packet = (True, p)"
    "pk_op_code p = kData" "pk_block_number p = b" "pk_data p = blk"
    using Deserialize_data [OF assms(4)] by blast
  have rp: "ReceivePacket (tmo * 1000) n = (Some (src, p), n\<lparr>nt_inbox := rest\<rparr>)"
    using ReceivePacket_Datagram [OF _ _ p(1), of "tmo * 1000" n src rest] assms(1,3,4) by simp
  have "reliable (n\<lparr>nt_inbox := rest\<rparr>)"
    using assms(2) by (simp add: reliable_def)
  from reliable_SendPacket [OF this Serialize_CreateAck]
  have sp: "SendPacket src (CreateAck b) (n\<lparr>nt_inbox := rest\<rparr>) = (Inr True, deliver src (ack_bytes b) (n\<lparr>nt_inbox := rest\<rparr>))" .
  show ?thesis
    using assms(5,6) unfolding receive_blocks.simps [of mx tmo ex addr acc b n] rp
    by (auto simp: p sp Let_def within_expected_def split: option.splits)
qed

text \<open>A client that sends the blocks of a file of admissible size has it received.\<close>

lemma receive_blocks_complete:
  assumes "0 \<le> tmo" and "length acc + length d \<le> unat mx"
    and "\<And>k. k \<le> length acc + length d \<Longrightarrow> within_expected ex k"
    and "reliable n" and "nt_inbox n = map (Datagram src) (numbered b (blocks d)) @ rest"
  shows "\<exists>n' es. receive_blocks mx tmo ex addr acc b n = (Inr (Some (acc @ d)), n') \<and>
    nt_inbox n' = rest \<and> reliable n' \<and> nt_trace n' = nt_trace n @ es \<and>
    delivered es = acks b (map (Pair src) (blocks d))"
  using assms
proof (induction d arbitrary: acc b n rule: blocks.induct)
  case (1 d)
  define blk where "blk = take kMaxDataSize d"
  define more where "more = (if length d < kMaxDataSize then [] else blocks (drop kMaxDataSize d))"
  have bl: "blocks d = blk # more"
    by (auto simp: blk_def more_def blocks_short blocks_full)
  have blk: "length blk \<le> kMaxDataSize" "length (acc @ blk) \<le> unat mx" "within_expected ex (length (acc @ blk))"
    using "1.prems"(2,3) by (simp_all add: blk_def)
  let ?rest = "map (Datagram src) (numbered (b + 1) more) @ rest"
  let ?n1 = "n\<lparr>nt_inbox := ?rest\<rparr>"
  let ?n2 = "deliver src (ack_bytes b) ?n1"
  have rel: "reliable ?n1" "reliable ?n2"
    using "1.prems"(4) by (simp_all add: reliable_def deliver_simps(1) [unfolded reliable_def])
  have step: "receive_blocks mx tmo ex addr acc b n =
      (if length blk < kMaxDataSize then (Inr (Some (acc @ blk)), ?n2)
       else receive_blocks mx tmo ex addr (acc @ blk) (b + 1) ?n2)"
    using receive_block_reliable [OF "1.prems"(1,4), of src b blk ?rest acc mx ex addr] blk "1.prems"(5)
    by (simp add: bl Let_def)
  show ?case
  proof (cases "length d < kMaxDataSize")
    case True
    then show ?thesis
      using step rel by (simp add: bl more_def blk_def)
  next
    case False
    then have full: "length blk = kMaxDataSize" "acc @ d = (acc @ blk) @ drop kMaxDataSize d"
      "length (acc @ blk) + length (drop kMaxDataSize d) = length acc + length d"
      by (simp_all add: blk_def)
    obtain n' es where "receive_blocks mx tmo ex addr (acc @ blk) (b + 1) ?n2 =
        (Inr (Some ((acc @ blk) @ drop kMaxDataSize d)), n')"
      "nt_inbox n' = rest" "reliable n'" "nt_trace n' = nt_trace ?n2 @ es"
      "delivered es = acks (b + 1) (map (Pair src) (blocks (drop kMaxDataSize d)))"
      using "1.IH" [OF False "1.prems"(1), of "acc @ blk" ?n2 "b + 1"] "1.prems"(2,3) rel full False
      by (auto simp: more_def)
    then show ?thesis
      using step full rel False bl
      by (intro exI [of _ n'] exI [of _ "Sendto src (ack_bytes b) (int (length (ack_bytes b))) # es"])
        (simp add: more_def)
  qed
qed

subsection \<open>The handlers\<close>

lemma first_blocks:
  "take k (numbered 1 bs) = map (\<lambda>i. data_bytes (word_of_nat (Suc i)) (bs ! i)) [0..<min k (length bs)]"
  by (simp add: numbered_nth take_map min_def)

lemma HandleReadRequest_eq:
  assumes "call_read (read_callback cfg) st path = (Inr (True, data), st')"
    and "length data \<le> unat (max_transfer_size cfg)"
  shows "HandleReadRequest cfg addr path (st, n) =
    (let (ok, n') = send_each (timeout_seconds cfg * 1000) addr 1 (blocks data) n in (Inr ok, st', n'))"
  using assms by (simp add: HandleReadRequest_def send_blocks_eq Let_def split: prod.split)

lemma accept_write_bool: "\<exists>b n'. accept_write addr packet n = (Inr b, n')"
proof (cases "pk_options packet = []")
  case True
  then show ?thesis
    using SendPacket_bool [OF Serialize_CreateAck] by (metis accept_write_def prod.exhaust)
qed (simp add: accept_write_def Let_def split: prod.split)

lemma accept_write_sends:
  assumes "accept_write addr packet n = (r, n')"
  shows "sends n [] n' \<or> sends n [(addr, ack_bytes 0)] n' \<or> sends n [(addr, oack_data (pk_options packet))] n'"
proof (cases "pk_options packet = []")
  case True
  then have "SendPacket addr (CreateAck 0) n = (r, n')"
    using assms by (simp add: accept_write_def)
  then obtain b where "sends n (if b then [(addr, ack_bytes 0)] else []) n'"
    by (rule SendPacket_sends [OF Serialize_CreateAck])
  then show ?thesis
    by (cases b) auto
next
  case False
  obtain k where "sendto addr (oack_data (pk_options packet)) n = (k, n')"
    using False assms by (auto simp: accept_write_def Let_def split: prod.splits)
  from sendto_sends [OF this] show ?thesis
    by (auto split: if_splits)
qed

lemma accept_write_inbox: "accept_write addr packet n = (r, n') \<Longrightarrow> nt_inbox n' = nt_inbox n"
  using accept_write_sends [of addr packet n r n'] by (auto simp: sends_def)

text \<open>What is sent in the course of an upload: acknowledgements, of blocks and of options, and errors.\<close>

definition is_reply :: "sockaddr \<times> byte list \<Rightarrow> bool" where
  "is_reply d = ((\<exists>b. snd d = ack_bytes b) \<or> (\<exists>opts. snd d = oack_data opts) \<or>
     (\<exists>code msg. Serialize (CreateError code msg) = Inr (snd d)))"

definition replies :: "net \<Rightarrow> net \<Rightarrow> bool" where
  "replies n n' = (\<exists>es. nt_trace n' = nt_trace n @ es \<and> list_all is_reply (delivered es))"

lemma replies_refl: "nt_trace n' = nt_trace n \<Longrightarrow> replies n n'"
  by (auto simp: replies_def)

lemma replies_trans: "replies n n1 \<Longrightarrow> replies n1 n2 \<Longrightarrow> replies n n2"
  by (fastforce simp: replies_def)

lemma sends_replies: "sends n ds n' \<Longrightarrow> list_all is_reply ds \<Longrightarrow> replies n n'"
  by (auto simp: sends_def replies_def)

lemma SendError_replies:
  assumes "SendError addr code msg n = (r, n')"
  shows "replies n n'"
proof -
  obtain bs where bs: "Serialize (CreateError code msg) = Inr bs"
    using Serialize_CreateError by blast
  from error_retry_ok [OF bs, of kMaxRetries addr n] obtain b es where "nt_trace n' = nt_trace n @ es"
    "delivered es = (if b then [(addr, bs)] else [])"
    using assms unfolding SendError_def by (metis Pair_inject)
  then show ?thesis
    using bs by (auto simp: replies_def is_reply_def)
qed

lemma SendPacket_Ack_replies:
  assumes "SendPacket addr (CreateAck b) n = (r, n')"
  shows "replies n n'"
proof -
  from assms obtain ok where "sends n (if ok then [(addr, ack_bytes b)] else []) n'"
    by (rule SendPacket_sends [OF Serialize_CreateAck])
  then show ?thesis
    by (rule sends_replies) (auto simp: is_reply_def)
qed

lemma receive_blocks_replies: "receive_blocks mx tmo ex addr acc b n = (r, n') \<Longrightarrow> replies n n'"
proof (induction "Suc (unat mx) - length acc" arbitrary: acc b n rule: less_induct)
  case less
  obtain q n1 where rp: "ReceivePacket (tmo * 1000) n = (q, n1)"
    by (cases "ReceivePacket (tmo * 1000) n")
  then have start: "replies n n1"
    using ReceivePacket_net(1) by (simp add: replies_refl)
  have "replies n1 n'"
  proof (cases "\<exists>src p. q = Some (src, p) \<and> pk_op_code p = kData \<and> pk_block_number p = b")
    case False
    then show ?thesis
      using less.prems unfolding receive_blocks.simps [of mx tmo ex addr acc b n] rp
      by (auto split: option.splits if_splits prod.splits dest: SendError_replies intro: replies_refl)
  next
    case True
    then obtain src p where q: "q = Some (src, p)" and p: "pk_op_code p = kData" "pk_block_number p = b"
      by blast
    obtain ok n2 where sp: "SendPacket src (CreateAck b) n1 = (Inr ok, n2)"
      using SendPacket_bool [OF Serialize_CreateAck] by (metis prod.exhaust)
    have "n' = n2 \<or> (\<exists>code msg r'. SendError addr code msg n2 = (r', n')) \<or>
      length (acc @ pk_data p) \<le> unat mx \<and> \<not> length (pk_data p) < kMaxDataSize \<and>
        receive_blocks mx tmo ex addr (acc @ pk_data p) (b + 1) n2 = (r, n')"
      using less.prems unfolding receive_blocks.simps [of mx tmo ex addr acc b n] rp q
      by (auto simp: p sp Let_def not_less split: prod.splits bool.splits option.splits if_splits)
    moreover have "Suc (unat mx) - length (acc @ pk_data p) < Suc (unat mx) - length acc"
      if "length (acc @ pk_data p) \<le> unat mx" "\<not> length (pk_data p) < kMaxDataSize"
      using that by (simp add: kMaxDataSize_def)
    ultimately have "replies n2 n'"
      using less.hyps SendError_replies replies_refl [OF refl, of n2] by blast
    then show ?thesis
      using SendPacket_Ack_replies [OF sp] replies_trans by blast
  qed
  then show ?case
    using start replies_trans by blast
qed

lemma HandleWriteRequest_replies:
  assumes "HandleWriteRequest cfg addr path packet (st, n) = (res, st', n')"
  shows "replies n n'"
proof -
  obtain go n1 where acc: "accept_write addr packet n = (go, n1)"
    by (cases "accept_write addr packet n")
  obtain q n2 where rb: "receive_blocks (max_transfer_size cfg) (timeout_seconds cfg)
      (expected_size packet) addr [] 1 n1 = (q, n2)"
    by (cases "receive_blocks (max_transfer_size cfg) (timeout_seconds cfg) (expected_size packet) addr [] 1 n1")
  have "n' = n1 \<or> n' = n2 \<or> (\<exists>code msg r. SendError addr code msg n2 = (r, n'))"
    using assms acc rb by (auto simp: HandleWriteRequest_def Let_def split: sum.splits bool.splits option.splits prod.splits)
  moreover have "replies n n1"
    using accept_write_sends [OF acc] by (elim disjE; elim sends_replies) (auto simp: is_reply_def)
  moreover have "replies n1 n2"
    by (rule receive_blocks_replies [OF rb])
  ultimately show ?thesis
    using SendError_replies replies_trans by blast
qed

text \<open>Either nothing is stored, or the callback was called once, with a file that was received.\<close>

lemma HandleWriteRequest_cases:
  assumes "HandleWriteRequest cfg addr path packet (st, n) = (res, st', n')"
  obtains (unstored) "st' = st" and "res = Inr False"
  | (stored) data r n1 n2 where "accept_write addr packet n = (Inr True, n1)"
      and "receive_blocks (max_transfer_size cfg) (timeout_seconds cfg) (expected_size packet) addr [] 1 n1 =
        (Inr (Some data), n2)"
      and "call_write (write_callback cfg) st path data = (r, st')" and "res = r"
      and "r = Inr False \<or> n' = n2"
proof -
  obtain go n1 where acc: "accept_write addr packet n = (Inr go, n1)"
    using accept_write_bool by blast
  obtain q n2 where rb: "receive_blocks (max_transfer_size cfg) (timeout_seconds cfg)
      (expected_size packet) addr [] 1 n1 = (Inr q, n2)"
    using receive_blocks_no_exception by (metis sum.exhaust prod.exhaust)
  show ?thesis
  proof (cases "go \<and> q \<noteq> None")
    case False
    then have "st' = st \<and> res = Inr False"
      using assms acc rb by (auto simp: HandleWriteRequest_def split: bool.splits)
    then show ?thesis
      using unstored by blast
  next
    case True
    then obtain data where data: "q = Some data"
      by blast
    obtain r st1 where cw: "call_write (write_callback cfg) st path data = (r, st1)"
      by (cases "call_write (write_callback cfg) st path data")
    have "st' = st1 \<and> res = r \<and> (r = Inr False \<or> n' = n2)"
      using assms acc rb True cw unfolding data
      by (auto simp: HandleWriteRequest_def Let_def
          split: sum.splits bool.splits prod.splits dest: SendError_unit)
    then show ?thesis
      using stored acc rb True data cw by auto
  qed
qed

text \<open>Uploads and downloads over any store of files.\<close>

context file_store
begin

lemma download_after_upload:
  assumes "HandleWriteRequest cfg addr path packet (st, n) = (Inr True, st', n')"
    and "write_callback cfg = Some write_op"
    and "read_callback cfg = Some (\<lambda>st path. (read_op st path, st))"
  shows "\<exists>data n1. receive_blocks (max_transfer_size cfg) (timeout_seconds cfg)
      (expected_size packet) addr [] 1 n1 = (Inr (Some data), n') \<and>
    accept_write addr packet n = (Inr True, n1) \<and>
    call_read (read_callback cfg) st' path = (Inr (True, data), st') \<and>
    length data \<le> unat (max_transfer_size cfg)"
  using assms(1)
proof (cases rule: HandleWriteRequest_cases)
  case (stored data r n1 n2)
  then have "write_op st path data = (Inr True, st')"
    using assms(2) by simp
  then have "read_op st' path = Inr (True, data)"
    by (rule read_after_write)
  then show ?thesis
    using stored assms(3) receive_blocks_ok [OF stored(2)] by auto
qed simp

end

subsection \<open>Properties\<close>

text \<open>
  C8. Downloads, on any network: once the callback has delivered a file of admissible size, the
  datagrams that leave the socket are data packets numbered from 1 (modulo 65536), in order and
  without gaps or repetitions, that carry the blocks of the file; the transfer is reported complete
  only when all of them were sent.
\<close>

theorem download_in_order:
  assumes "call_read (read_callback cfg) st path = (Inr (True, data), st1)"
    and "length data \<le> unat (max_transfer_size cfg)"
    and "HandleReadRequest cfg addr path (st, n) = (res, st', n')"
  shows "st' = st1 \<and> (\<exists>k es. k \<le> length (blocks data) \<and> nt_trace n' = nt_trace n @ es \<and>
    delivered es = map (\<lambda>i. (addr, data_bytes (word_of_nat (Suc i)) (blocks data ! i))) [0..<k] \<and>
    (res = Inr False \<or> res = Inr True \<and> k = length (blocks data)))"
proof -
  obtain ok n1 where se: "send_each (timeout_seconds cfg * 1000) addr 1 (blocks data) n = (ok, n1)"
    by (cases "send_each (timeout_seconds cfg * 1000) addr 1 (blocks data) n")
  then have "res = Inr ok" "st' = st1" "n' = n1"
    using assms(3) HandleReadRequest_eq [OF assms(1,2), of addr n] by auto
  moreover obtain k es where k: "k \<le> length (blocks data)" "nt_trace n1 = nt_trace n @ es"
    "delivered es = map (Pair addr) (take k (numbered 1 (blocks data)))"
    "ok \<longrightarrow> k = length (blocks data)"
    using send_each_prefix [OF se] by blast
  moreover have "delivered es =
      map (\<lambda>i. (addr, data_bytes (word_of_nat (Suc i)) (blocks data ! i))) [0..<k]"
    using k(1,3) by (simp add: first_blocks min_def)
  ultimately show ?thesis
    by (intro conjI exI [of _ k] exI [of _ es]) auto
qed

definition world_example :: "unit world" where
  "world_example = \<lparr>w_fs = fs_example, w_app = ()\<rparr>"

definition client :: sockaddr where
  "client = (3232235777, 50000)"

definition net_with :: "recv_outcome list \<Rightarrow> net" where
  "net_with inbox = \<lparr>nt_sends = [], nt_inbox = inbox, nt_trace = []\<rparr>"

theorem download_in_order_witness:
  "\<exists>k es. k \<le> 1 \<and> nt_trace (snd (snd (HandleReadRequest default_config client ''/srv/tftp/fw.bin''
       (world_example, net_with [])))) = es \<and> length (delivered es) = k"
proof -
  let ?run = "HandleReadRequest default_config client ''/srv/tftp/fw.bin'' (world_example, net_with [])"
  have read: "call_read (read_callback default_config) world_example ''/srv/tftp/fw.bin'' =
      (Inr (True, [1, 2, 3]), world_example)"
    by (simp add: default_config_def default_read_def world_example_def) code_simp
  have size: "length [1, 2, 3 :: byte] \<le> unat (max_transfer_size default_config)"
    by (simp add: default_config_def)
  obtain res st' n' where run: "?run = (res, st', n')"
    by (cases ?run)
  have "length (blocks [1, 2, 3]) = 1"
    by (simp add: length_blocks kMaxDataSize_def)
  then show ?thesis
    using download_in_order [OF read size run] run by (auto simp: net_with_def)
qed

text \<open>
  Downloads complete: with a client that acknowledges every block and a network that sends
  every datagram, the transfer of a file of admissible size is completed, all its blocks are sent,
  and their concatenation is the file.
\<close>

lemma download_complete:
  assumes "call_read (read_callback cfg) st path = (Inr (True, data), st1)"
    and "length data \<le> unat (max_transfer_size cfg)" and "0 \<le> timeout_seconds cfg" and "reliable n"
    and "nt_inbox n = map (\<lambda>i. Datagram addr (ack_bytes (word_of_nat (Suc i)))) [0..<length (blocks data)] @ rest"
  shows "\<exists>n' es. HandleReadRequest cfg addr path (st, n) = (Inr True, st1, n') \<and> nt_inbox n' = rest \<and>
    nt_trace n' = nt_trace n @ es \<and>
    delivered es = map (\<lambda>i. (addr, data_bytes (word_of_nat (Suc i)) (blocks data ! i))) [0..<length (blocks data)] \<and>
    concat (blocks data) = data"
proof -
  have "nt_inbox n = map (\<lambda>i. Datagram addr (ack_bytes (1 + word_of_nat i))) [0..<length (blocks data)] @ rest"
    using assms(5) by simp
  from send_each_acknowledged [OF assms(4) _ this, of "timeout_seconds cfg * 1000"]
  obtain n' es where "send_each (timeout_seconds cfg * 1000) addr 1 (blocks data) n = (True, n')"
    "nt_inbox n' = rest" "nt_trace n' = nt_trace n @ es"
    "delivered es = map (Pair addr) (numbered 1 (blocks data))"
    using assms(3) by auto
  then show ?thesis
    using HandleReadRequest_eq [OF assms(1,2), of addr n] first_blocks [of "length (blocks data)" "blocks data"]
    by (intro exI [of _ n'] exI [of _ es]) (simp add: concat_blocks numbered_nth)
qed

text \<open>
  C9. Uploads, on any network: when a write request ends with success, the file handed to the
  write callback is the concatenation of the payloads of consecutively numbered data packets that
  were taken from the inbox, all full except for a shorter last one; every one of them was
  acknowledged to its sender; and the file exceeds neither the limit of the server nor, by more than
  one block, the announced size (the sum taken on 64 bits). Otherwise nothing is stored, unless the
  callback itself reports the failure.
\<close>

theorem upload_outcome:
  assumes "HandleWriteRequest cfg addr path packet (st, n) = (res, st', n')"
  shows "st' = st \<and> res = Inr False \<or>
    (\<exists>data n1 n2 dgs xs es. accept_write addr packet n = (Inr True, n1) \<and>
       call_write (write_callback cfg) st path data = (res, st') \<and>
       nt_inbox n1 = dgs @ nt_inbox n2 \<and> received 1 dgs xs \<and> map snd xs = blocks data \<and>
       nt_trace n2 = nt_trace n1 @ es \<and> delivered es = acks 1 xs \<and> (res = Inr True \<longrightarrow> n' = n2) \<and>
       length data \<le> unat (max_transfer_size cfg) \<and> within_expected (expected_size packet) (length data))"
  using assms
proof (cases rule: HandleWriteRequest_cases)
  case (stored data r n1 n2)
  obtain dgs xs es where "data = [] @ concat (map snd xs)" "map snd xs = blocks (concat (map snd xs))"
    "nt_inbox n1 = dgs @ nt_inbox n2" "received 1 dgs xs" "nt_trace n2 = nt_trace n1 @ es"
    "delivered es = acks 1 xs" "length data \<le> unat (max_transfer_size cfg)"
    "within_expected (expected_size packet) (length data)"
    using receive_blocks_ok [OF stored(2)] by blast
  then show ?thesis
    using stored by (intro disjI2 exI [of _ data] exI [of _ n1] exI [of _ n2] exI [of _ dgs]
        exI [of _ xs] exI [of _ es]) auto
qed simp

theorem upload_outcome_witness:
  "\<exists>res st' n'. HandleWriteRequest default_config client ''/srv/tftp/up'' wrq_example (world_example, net_with []) =
     (res, st', n') \<and> (st' = world_example \<and> res = Inr False \<or>
       (\<exists>data. call_write (write_callback default_config) world_example ''/srv/tftp/up'' data = (res, st') \<and>
          length data \<le> 1073741824))"
proof -
  obtain res st' n' where run: "HandleWriteRequest default_config client ''/srv/tftp/up'' wrq_example
      (world_example, net_with []) = (res, st', n')"
    by (rule prod_cases3)
  then show ?thesis
    using upload_outcome [OF run] by (force simp: default_config_def)
qed

text \<open>
  Uploads complete: a client that sends the blocks of a file of admissible size gets it to the
  write callback in one piece, and every block is acknowledged; the result is that of the callback, whose
  failure is reported to the client after the last acknowledgement.
\<close>

lemma upload_replied:
  assumes "length data \<le> unat (max_transfer_size cfg)" and "0 \<le> timeout_seconds cfg"
    and "pk_options packet = []" and "reliable n"
    and "nt_inbox n = map (Datagram addr) (numbered 1 (blocks data)) @ rest"
    and "call_write (write_callback cfg) st path data = (Inr ok, st')"
    and "Serialize (CreateError kAccessViolation ''File write failed'') = Inr bs"
  shows "\<exists>n' es. HandleWriteRequest cfg addr path packet (st, n) = (Inr ok, st', n') \<and>
    nt_inbox n' = rest \<and> nt_trace n' = nt_trace n @ es \<and>
    delivered es = (addr, ack_bytes 0) # acks 1 (map (Pair addr) (blocks data)) @ (if ok then [] else [(addr, bs)])"
proof -
  let ?n1 = "deliver addr (ack_bytes 0) n" and ?ack = "Sendto addr (ack_bytes 0) (int (length (ack_bytes 0)))"
  have acc: "accept_write addr packet n = (Inr True, ?n1)"
    using assms(3) reliable_SendPacket [OF assms(4) Serialize_CreateAck] by (simp add: accept_write_def)
  have exp: "expected_size packet = None"
    using assms(3) by (simp add: expected_size_def HasOption_def umap_find_def)
  obtain n2 es where rb: "receive_blocks (max_transfer_size cfg) (timeout_seconds cfg) None addr [] 1 ?n1 =
      (Inr (Some data), n2)" and n2: "nt_inbox n2 = rest" "reliable n2" "nt_trace n2 = nt_trace ?n1 @ es"
    "delivered es = acks 1 (map (Pair addr) (blocks data))"
    using receive_blocks_complete [of "timeout_seconds cfg" "[]" data "max_transfer_size cfg" None ?n1
        addr 1 rest addr] assms by (auto simp: within_expected_def)
  let ?n3 = "if ok then n2 else deliver addr bs n2"
    and ?es = "es @ (if ok then [] else [Sendto addr bs (int (length bs))])"
  have "HandleWriteRequest cfg addr path packet (st, n) = (Inr ok, st', ?n3)"
    using acc exp rb assms(6) reliable_SendError [OF n2(2) assms(7)] by (cases ok) (simp_all add: HandleWriteRequest_def)
  then show ?thesis
    using n2 assms(4) by (intro exI [of _ ?n3] exI [of _ "?ack # ?es"]) simp
qed

lemma upload_complete:
  assumes "length data \<le> unat (max_transfer_size cfg)" and "0 \<le> timeout_seconds cfg"
    and "pk_options packet = []" and "reliable n"
    and "nt_inbox n = map (Datagram addr) (numbered 1 (blocks data)) @ rest"
    and "call_write (write_callback cfg) st path data = (Inr True, st')"
  shows "\<exists>n' es. HandleWriteRequest cfg addr path packet (st, n) = (Inr True, st', n') \<and>
    nt_inbox n' = rest \<and> nt_trace n' = nt_trace n @ es \<and>
    delivered es = (addr, ack_bytes 0) # acks 1 (map (Pair addr) (blocks data))"
  using upload_replied [OF assms] Serialize_CreateError [of kAccessViolation "''File write failed''"] by auto

text \<open>
  C10. End to end, with the default handlers: an upload that was reported as successful, on whatever
  network, has taken from its inbox data packets numbered from 1, one after the other, and a download of
  the same path by a client that acknowledges every block sends exactly the payloads of these packets, in
  the same order and with the same numbers.
\<close>

theorem upload_then_download:
  fixes w :: "'a world"
  assumes "HandleWriteRequest default_config addr path packet (w, n) = (Inr True, w', n')"
  shows "\<exists>dgs xs. nt_inbox n = dgs @ nt_inbox n' \<and> received 1 dgs xs \<and>
    (\<forall>addr' m rest. reliable m \<and>
       nt_inbox m = map (\<lambda>i. Datagram addr' (ack_bytes (word_of_nat (Suc i)))) [0..<length xs] @ rest \<longrightarrow>
       (\<exists>m' es. HandleReadRequest default_config addr' path (w', m) = (Inr True, w', m') \<and>
          nt_trace m' = nt_trace m @ es \<and>
          delivered es = map (Pair addr') (numbered 1 (map snd xs))))"
proof -
  let ?cfg = "default_config :: 'a world transfer_config"
  have cfg: "write_callback ?cfg = Some default_write"
    "read_callback ?cfg = Some (\<lambda>st path. (DefaultReadHandler (w_fs st) path, st))"
    "timeout_seconds ?cfg = 5"
    by (simp_all add: default_config_def default_read_def fun_eq_iff)
  obtain data n1 where rb: "receive_blocks (max_transfer_size ?cfg) 5
      (expected_size packet) addr [] 1 n1 = (Inr (Some data), n')"
    and accepted: "accept_write addr packet n = (Inr True, n1)"
    and read: "call_read (read_callback ?cfg) w' path = (Inr (True, data), w')"
    and size: "length data \<le> unat (max_transfer_size ?cfg)"
    using world_store.download_after_upload [OF assms cfg(1,2)] cfg(3) by auto
  obtain dgs xs where xs: "data = concat (map snd xs)" "map snd xs = blocks (concat (map snd xs))"
    "nt_inbox n1 = dgs @ nt_inbox n'" "received 1 dgs xs"
    using receive_blocks_ok [OF rb] by auto
  then have blocks: "blocks data = map snd xs" "length (blocks data) = length xs"
    by (simp_all flip: xs(2))
  have "\<exists>m' es. HandleReadRequest default_config addr' path (w', m) = (Inr True, w', m') \<and>
      nt_trace m' = nt_trace m @ es \<and> delivered es = map (Pair addr') (numbered 1 (blocks data))"
    if "reliable m" and "nt_inbox m = map (\<lambda>i. Datagram addr' (ack_bytes (word_of_nat (Suc i))))
        [0..<length xs] @ rest" for addr' m rest
    using send_each_acknowledged [of m 5000 addr' 1 "blocks data" rest] that blocks(2)
      HandleReadRequest_eq [OF read size, of addr' m] cfg(3) by auto
  then show ?thesis
    using xs(3,4) accept_write_inbox [OF accepted] unfolding blocks(1)
    by (intro exI [of _ dgs] exI [of _ xs]) simp
qed

theorem upload_then_download_witness:
  "\<exists>fs' n' (xs :: (sockaddr \<times> byte list) list). HandleWriteRequest default_config client ''/srv/tftp/log'' (CreateWriteRequest ''log'' kOctet)
     (world_example, net_with [Datagram client (data_bytes 1 [5, 6])]) = (Inr True, fs', n') \<and> nt_inbox n' = [] \<and>
   (\<forall>m rest. reliable m \<and>
      nt_inbox m = map (\<lambda>i. Datagram client (ack_bytes (word_of_nat (Suc i)))) [0..<length xs] @ rest \<longrightarrow>
      (\<exists>m'. HandleReadRequest default_config client ''/srv/tftp/log'' (fs', m) = (Inr True, fs', m')))"
proof -
  let ?run = "HandleWriteRequest default_config client ''/srv/tftp/log'' (CreateWriteRequest ''log'' kOctet)
      (world_example, net_with [Datagram client (data_bytes 1 [5, 6])])"
  have "fst ?run = Inr True" and inbox: "nt_inbox (snd (snd ?run)) = []"
    by code_simp+
  then obtain fs' n' where run: "?run = (Inr True, fs', n')"
    by (metis prod.collapse)
  obtain xs :: "(sockaddr \<times> byte list) list" where "\<forall>addr' m rest. reliable m \<and>
      nt_inbox m = map (\<lambda>i. Datagram addr' (ack_bytes (word_of_nat (Suc i)))) [0..<length xs] @ rest \<longrightarrow>
      (\<exists>m'. HandleReadRequest default_config addr' ''/srv/tftp/log'' (fs', m) = (Inr True, fs', m'))"
    using upload_then_download [OF run] by (elim exE conjE) blast
  moreover have "nt_inbox n' = []"
    using run inbox by simp
  ultimately show ?thesis
    using run by blast
qed

text \<open>The acknowledgement of options.\<close>

lemma oack_options_simps [simp]:
  "map fst (oack_options m) = map fst m" "oack_options m = [] \<longleftrightarrow> m = []" "length (oack_options m) = length m"
  by (auto simp: oack_options_def case_prod_beta comp_def)

lemma oack_value_ok:
  "option_text_ok kMaxOptionValueLength v \<Longrightarrow> option_text_ok kMaxOptionValueLength (oack_value k v)"
  by (auto simp: oack_value_def option_text_ok_def kMaxOptionValueLength_def NUL_def split: sum.split)

lemma oack_options_ok: "options_ok m \<Longrightarrow> options_ok (oack_options m)"
  by (auto simp: options_ok_def umap_ok_def list_all_iff option_ok_def oack_options_def
      oack_value_ok case_prod_beta comp_def)

lemma oack_options_length:
  "umap_ok m \<Longrightarrow> list_all option_ok m \<Longrightarrow>
   length (put_options (oack_options m)) \<le>
   length (put_options m) + (if ''blksize'' \<in> fst ` set m then 2 else 0)"
proof (induction m)
  case (Cons kv m)
  obtain k v where kv: "kv = (k, v)"
    by (cases kv)
  have "length (oack_value k v) \<le> length v + (if k = ''blksize'' then 2 else 0)"
    using Cons.prems(2) kv
    by (cases v) (auto simp: oack_value_def option_ok_def option_text_ok_def split: sum.split)
  then show ?case
    using Cons kv by (auto simp: oack_options_def umap_ok_def split: if_splits)
qed (simp add: oack_options_def)

lemma parsed_write_request_size:
  assumes "Deserialize bs q = (True, p)" and "pk_op_code p = kWriteRequest"
  shows "options_ok (pk_options p)" and "9 + length (put_options (pk_options p)) \<le> kMaxPacketSize"
proof -
  have ok: "request_ok p"
    using Deserialize_wf [OF assms(1)] assms(2) by (simp add: packet_ok_def)
  then show "options_ok (pk_options p)"
    by (simp add: request_ok_def)
  obtain bs' where ser: "Serialize p = Inr bs'" "length bs' \<le> kMaxPacketSize"
    using Deserialize_wf [OF assms(1)] Deserialize_size(2) [OF assms(1)] le_trans by blast
  obtain ms where ms: "mode_to_string (pk_mode p) = Inr ms"
    "Serialize p = Inr (put16 (opcode_value (pk_op_code p)) @ put_string (pk_filename p)
       @ put_string ms @ put_options (pk_options p))"
    using assms(2) by (auto intro: Serialize_request [OF ok])
  have "4 \<le> length ms"
    using ms(1) by (cases "pk_mode p") auto
  moreover have "1 \<le> length (pk_filename p)"
    using ok by (cases "pk_filename p") (auto simp: request_ok_def option_text_ok_def)
  ultimately show "9 + length (put_options (pk_options p)) \<le> kMaxPacketSize"
    using ser ms(2) by auto
qed

text \<open>
  C29. The reply to a write request with options is a well-formed packet: for every request that the
  parser accepts, it fits into a packet and is parsed by the other side as an acknowledgement of
  the same option names with the negotiated values.
\<close>

theorem oack_reply_parses:
  assumes "Deserialize bs q = (True, p)" and "pk_op_code p = kWriteRequest" and "pk_options p \<noteq> []"
  shows "Deserialize (oack_data (pk_options p)) q' = (True, CreateOACK (oack_options (pk_options p))) \<and>
    length (oack_data (pk_options p)) \<le> kMaxPacketSize"
proof -
  note req = parsed_write_request_size [OF assms(1,2)]
  let ?o = "oack_options (pk_options p)"
  have len: "length (oack_data (pk_options p)) \<le> kMaxPacketSize"
    using req oack_options_length [of "pk_options p"]
    by (auto simp: options_ok_def oack_data_def split: if_splits)
  have ser: "Serialize (CreateOACK ?o) = Inr (oack_data (pk_options p))"
    by (simp add: Serialize_def CreateOACK_def new_packet_def oack_data_def)
  have ok: "packet_ok (CreateOACK ?o)"
    by (rule factories_ok(6) [OF oack_options_ok [OF req(1)]])
  have "kMinPacketSize \<le> length (oack_data (pk_options p))"
    by (rule Serialize_min_size [OF ok ser]) (simp add: CreateOACK_def assms(3))
  then show ?thesis
    using Deserialize_Serialize [OF ok ser _ len] len by blast
qed

theorem oack_reply_parses_witness:
  "\<exists>bs. Serialize wrq_example = Inr bs \<and>
   Deserialize (oack_data (pk_options wrq_example)) new_packet =
     (True, CreateOACK (oack_options (pk_options wrq_example)))"
proof -
  have parsed: "Deserialize (case Serialize wrq_example of Inl x \<Rightarrow> [] | Inr bs \<Rightarrow> bs) new_packet =
      (True, wrq_example)"
    and op: "pk_op_code wrq_example = kWriteRequest" and opts: "pk_options wrq_example \<noteq> []"
    by code_simp+
  have "\<exists>bs. Serialize wrq_example = Inr bs"
    by (simp add: wrq_example_def Serialize_def SetOption_def CreateWriteRequest_def)
  then show ?thesis
    using oack_reply_parses [OF parsed op opts, of new_packet] by blast
qed

text \<open>
  Effort of a reply: sending a packet makes at most 5 attempts, all with the same datagram to
  the same address, and sleeps less than 5 seconds when it succeeds; an error reply makes at
  most 25 attempts and sleeps at most 27.5 seconds, delivers at most one datagram, and never throws.
\<close>

lemma send_effort_bounded:
  assumes "Serialize packet = Inr data" and "SendPacket addr packet n = (r, n')"
    and "SendError addr code msg m = (r', m')"
  shows "(\<exists>b es. r = Inr b \<and> nt_trace n' = nt_trace n @ es \<and> send_calls es \<le> 5 \<and> slept es \<le> 5000 \<and>
      delivered es = (if b then [(addr, data)] else []) \<and> (b \<longrightarrow> slept es < 5000)) \<and>
    (\<exists>es. r' = Inr () \<and> nt_trace m' = nt_trace m @ es \<and> send_calls es \<le> 25 \<and> slept es \<le> 27500 \<and>
      length (delivered es) \<le> 1)"
proof
  obtain b where "send_retry kMaxRetries addr data n = (b, n')" "r = Inr b"
    using assms(1,2) by (auto simp: SendPacket_def split: prod.splits)
  then show "\<exists>b es. r = Inr b \<and> nt_trace n' = nt_trace n @ es \<and> send_calls es \<le> 5 \<and> slept es \<le> 5000 \<and>
      delivered es = (if b then [(addr, data)] else []) \<and> (b \<longrightarrow> slept es < 5000)"
    using send_retry_bounds [of kMaxRetries addr data n b n'] send_retry_sends [of kMaxRetries addr data n b n']
    by (fastforce simp: kMaxRetries_def kRetryTimeoutMs_def sends_def)
next
  obtain bs where "Serialize (CreateError code msg) = Inr bs"
    using Serialize_CreateError by blast
  from error_retry_ok [OF this, of kMaxRetries addr m]
  obtain m1 b es where "SendError addr code msg m = (Inr (), m1)" "nt_trace m1 = nt_trace m @ es"
    "delivered es = (if b then [(addr, bs)] else [])" "send_calls es \<le> kMaxRetries * kMaxRetries"
    "slept es \<le> kMaxRetries * (kMaxRetries * kRetryTimeoutMs + kRetryTimeoutMs div 2)"
    unfolding SendError_def by metis
  then show "\<exists>es. r' = Inr () \<and> nt_trace m' = nt_trace m @ es \<and> send_calls es \<le> 25 \<and> slept es \<le> 27500 \<and>
      length (delivered es) \<le> 1"
    using assms(3) by (auto simp: kMaxRetries_def kRetryTimeoutMs_def)
qed

text \<open>
  The negotiated block size is not used: a \<^verbatim>\<open>blksize\<close> between 513 and 65464 is acknowledged as
  requested, but a data packet with a block of that size is cut to 516 bytes when it is received and
  accepted, so that only the first 512 bytes of the block become part of the file.
\<close>

lemma large_blksize_truncates:
  assumes "kMaxDataSize < k" and "k \<le> 65464" and "length block = k" and "0 \<le> timeout_ms"
    and "nt_inbox n = Datagram src (data_bytes b block) # rest"
  shows "oack_value ''blksize'' (show_nat k) = show_nat k \<and>
    (\<exists>p. ReceivePacket timeout_ms n = (Some (src, p), n\<lparr>nt_inbox := rest\<rparr>) \<and>
       pk_op_code p = kData \<and> pk_block_number p = b \<and> pk_data p = take kMaxDataSize block)"
proof
  have "stoi (show_nat k) = Inr (int k)"
    using assms(2) by (simp add: stoi_def strto_show_nat INT_MIN_def INT_MAX_def)
  then show "oack_value ''blksize'' (show_nat k) = show_nat k"
    using assms(1,2) by (simp add: oack_value_def kMaxDataSize_def)
next
  have cut: "take kMaxPacketSize (data_bytes b block) = data_bytes b (take kMaxDataSize block)"
    by (simp add: data_bytes_def guard_simps)
  obtain p where "Deserialize (data_bytes b (take kMaxDataSize block)) new_packet = (True, p)"
    "pk_op_code p = kData" "pk_block_number p = b" "pk_data p = take kMaxDataSize block"
    using Deserialize_data [of "take kMaxDataSize block" b new_packet] by auto
  moreover have "take kMaxPacketSize (data_bytes b block) \<noteq> []"
    unfolding cut by (metis add_is_0 length_transfer_packets(2) list.size(3) zero_neq_numeral)
  ultimately show "\<exists>p. ReceivePacket timeout_ms n = (Some (src, p), n\<lparr>nt_inbox := rest\<rparr>) \<and>
      pk_op_code p = kData \<and> pk_block_number p = b \<and> pk_data p = take kMaxDataSize block"
    using assms(4,5) by (simp add: ReceivePacket_def next_recv_def cut Let_def del: take_eq_Nil)
qed

text \<open>
  The tolerance on the announced size wraps around: with a \<^verbatim>\<open>tsize\<close> within 512 of \<open>2 ^ 64\<close> (which a
  negative number also gives) the sum with the block size is small, and an upload is refused as
  exceeding the announced size after its first full block, although it does not.
\<close>

lemma huge_tsize_refused:
  assumes "2 ^ 64 - 512 \<le> unat esize" and "length block = kMaxDataSize" and "0 \<le> timeout_secs"
    and "reliable n" and "nt_inbox n = Datagram src (data_bytes 1 block) # rest"
    and "kMaxDataSize \<le> unat max_size"
  shows "fst (receive_blocks max_size timeout_secs (Some esize) addr [] 1 n) = Inr None"
proof -
  obtain p where p: "Deserialize (data_bytes 1 block) new_packet = (True, p)"
    "pk_op_code p = kData" "pk_block_number p = 1" "pk_data p = block"
    using Deserialize_data [of block 1 new_packet] assms(2) by auto
  have rp: "ReceivePacket (timeout_secs * 1000) n = (Some (src, p), n\<lparr>nt_inbox := rest\<rparr>)"
    using ReceivePacket_Datagram [OF _ assms(5) p(1)] assms(3) by simp
  have "reliable (n\<lparr>nt_inbox := rest\<rparr>)"
    using assms(4) by (simp add: reliable_def)
  note sp = reliable_SendPacket [OF this Serialize_CreateAck, of src 1]
  have "unat esize < 2 ^ 64"
    using unsigned_less [of esize] by simp
  then have "unat (esize + word_of_nat kMaxDataSize) < kMaxDataSize"
    using assms(1) by (auto simp: unat_word_ariths kMaxDataSize_def unat_of_nat mod_if)
  then show ?thesis
    using assms(2,6) unfolding receive_blocks.simps [of max_size timeout_secs "Some esize" addr "[]" 1 n]
    by (auto simp: rp p sp Let_def split: prod.split dest: SendError_unit)
qed

text \<open>
  Refused downloads: a file that cannot be read, or that is larger than the limit, is answered
  with one error packet at most, File not found and Disk full respectively, and no data.
\<close>

lemma download_refused:
  assumes "call_read (read_callback cfg) st path = (Inr (ok, data), st1)"
    and "\<not> ok \<or> unat (max_transfer_size cfg) < length data"
    and "HandleReadRequest cfg addr path (st, n) = (res, st', n')"
  shows "res = Inr False \<and> st' = st1 \<and> nt_inbox n' = nt_inbox n \<and>
    (\<exists>es bs b. nt_trace n' = nt_trace n @ es \<and> delivered es = (if b then [(addr, bs)] else []) \<and>
       Serialize (if ok then CreateError kDiskFull ''File size too large''
         else CreateError kFileNotFound ''File not found'') = Inr bs)"
proof -
  let ?code = "if ok then kDiskFull else kFileNotFound"
  let ?msg = "if ok then ''File size too large'' else ''File not found''"
  obtain bs where bs: "Serialize (CreateError ?code ?msg) = Inr bs"
    using Serialize_CreateError by blast
  from error_retry_ok [OF bs, of kMaxRetries addr n]
  obtain n1 b es where "SendError addr ?code ?msg n = (Inr (), n1)" "nt_inbox n1 = nt_inbox n"
    "nt_trace n1 = nt_trace n @ es" "delivered es = (if b then [(addr, bs)] else [])"
    unfolding SendError_def by metis
  then show ?thesis
    using assms bs by (auto simp: HandleReadRequest_def split: if_splits)
qed

end
