(* ===== verification/Tftp_Effort.thy ===== *)
theory Tftp_Effort
  imports Tftp_Transfer
begin

section \<open>The effort of a transfer\<close>

text \<open>
  Every transfer ends, whatever the network does: the number of \<^verbatim>\<open>sendto\<close> calls and the time that is
  spent sleeping between attempts are bounded by the size limit of the server. Between two sends
  there is at most one wait for a datagram, which ends after the timeout.
\<close>

definition effort :: "nat \<Rightarrow> nat \<Rightarrow> net \<Rightarrow> net \<Rightarrow> bool" where
  "effort k ms n n' = (\<exists>es. nt_trace n' = nt_trace n @ es \<and> send_calls es \<le> k \<and> slept es \<le> ms)"

lemma effort_refl: "nt_trace n' = nt_trace n \<Longrightarrow> effort 0 0 n n'"
  by (simp add: effort_def)

lemma effort_trans:
  assumes "effort k ms n n1" and "effort k' ms' n1 n2"
  shows "effort (k + k') (ms + ms') n n2"
proof -
  obtain es es' where "nt_trace n1 = nt_trace n @ es" "send_calls es \<le> k" "slept es \<le> ms"
    "nt_trace n2 = nt_trace n1 @ es'" "send_calls es' \<le> k'" "slept es' \<le> ms'"
    using assms by (auto simp: effort_def)
  then show ?thesis
    by (auto simp: effort_def intro!: exI [of _ "es @ es'"])
qed

lemma effort_mono: "effort k ms n n' \<Longrightarrow> k \<le> k' \<Longrightarrow> ms \<le> ms' \<Longrightarrow> effort k' ms' n n'"
  by (auto simp: effort_def)

lemma ReceivePacket_effort: "ReceivePacket t n = (r, n') \<Longrightarrow> effort 0 0 n n'"
  by (rule effort_refl) (rule ReceivePacket_net(1))

lemma send_retry_effort: "send_retry kMaxRetries addr data n = (b, n') \<Longrightarrow> effort 5 5000 n n'"
  using send_retry_bounds [of kMaxRetries addr data n b n']
  by (auto simp: effort_def kMaxRetries_def kRetryTimeoutMs_def)

lemma SendPacket_effort: "SendPacket addr packet n = (r, n') \<Longrightarrow> effort 5 5000 n n'"
  by (auto simp: SendPacket_def split: sum.splits prod.splits
      intro: send_retry_effort effort_mono [OF effort_refl])

lemma SendError_effort:
  assumes "SendError addr code msg n = (r, n')"
  shows "effort 25 27500 n n'"
proof -
  obtain bs where "Serialize (CreateError code msg) = Inr bs"
    using Serialize_CreateError by blast
  from error_retry_ok [OF this, of kMaxRetries addr n]
  obtain n1 es where "SendError addr code msg n = (Inr (), n1)" "nt_trace n1 = nt_trace n @ es"
    "send_calls es \<le> kMaxRetries * kMaxRetries"
    "slept es \<le> kMaxRetries * (kMaxRetries * kRetryTimeoutMs + kRetryTimeoutMs div 2)"
    unfolding SendError_def by metis
  then show ?thesis
    using assms by (auto simp: effort_def kMaxRetries_def kRetryTimeoutMs_def)
qed

lemma send_each_effort:
  "send_each t addr b bs n = (r, n') \<Longrightarrow> effort (5 * length bs) (5000 * length bs) n n'"
proof (induction t addr b bs n rule: send_each.induct)
  case (2 t addr b block rest n)
  obtain s n1 where s: "send_retry kMaxRetries addr (data_bytes b block) n = (s, n1)"
    by fastforce
  obtain q n2 where q: "ReceivePacket t n1 = (q, n2)"
    by fastforce
  have two: "effort 5 5000 n n2"
    using effort_trans [OF send_retry_effort [OF s] ReceivePacket_effort [OF q]] by simp
  show ?case
  proof (cases "s \<and> (\<exists>src ack. q = Some (src, ack) \<and> pk_op_code ack = kAcknowledge \<and> pk_block_number ack = b)")
    case True
    then have "effort (5 * length rest) (5000 * length rest) n2 n'"
      using 2 s q by auto
    from effort_trans [OF two this] show ?thesis
      by simp
  next
    case False
    then have "n' = n1 \<or> n' = n2"
      using 2(2) s q by (auto split: option.splits if_splits bool.splits)
    then have "effort 5 5000 n n'"
      using two send_retry_effort [OF s] by blast
    then show ?thesis
      by (rule effort_mono) simp_all
  qed
qed (simp add: effort_refl)

lemma HandleReadRequest_effort:
  assumes "HandleReadRequest cfg addr path (st, n) = (res, st', n')"
  shows "effort (5 * (unat (max_transfer_size cfg) div 512 + 1) + 25)
    (5000 * (unat (max_transfer_size cfg) div 512 + 1) + 27500) n n'"
proof -
  obtain q st1 where call: "call_read (read_callback cfg) st path = (q, st1)"
    by fastforce
  consider (threw) "n' = n" | (refused) code msg r where "SendError addr code msg n = (r, n')"
    | (sent) data where "q = Inr (True, data)" "length data \<le> unat (max_transfer_size cfg)"
  proof (cases q)
    case (Inr okd)
    then show ?thesis
      using assms call that(2,3)
      by (cases okd; cases "fst okd"; cases "length (snd okd) \<le> unat (max_transfer_size cfg)")
        (auto simp: HandleReadRequest_def split: prod.splits)
  qed (use assms call that(1) in \<open>simp add: HandleReadRequest_def\<close>)
  then show ?thesis
  proof cases
    case threw
    then show ?thesis
      by (intro effort_mono [OF effort_refl]) simp_all
  next
    case (refused code msg r)
    then show ?thesis
      by (intro effort_mono [OF SendError_effort]) simp_all
  next
    case (sent data)
    obtain ok where "send_each (timeout_seconds cfg * 1000) addr 1 (blocks data) n = (ok, n')"
      using assms HandleReadRequest_eq [of cfg st path data st1 addr n] call sent by (auto split: prod.splits)
    from send_each_effort [OF this] show ?thesis
      using div_le_mono [OF sent(2), of 512]
      by (elim effort_mono) (simp_all add: length_blocks kMaxDataSize_def)
  qed
qed


lemma receive_round_effort:
  assumes "receive_blocks mx tmo ex addr acc b n = (r, n')"
  shows "effort 30 32500 n n' \<or> (\<exists>block n2. effort 5 5000 n n2 \<and> kMaxDataSize \<le> length block \<and>
    length (acc @ block) \<le> unat mx \<and> receive_blocks mx tmo ex addr (acc @ block) (b + 1) n2 = (r, n'))"
proof (cases "ReceivePacket (tmo * 1000) n")
  case (Pair q n1)
  have recv: "effort 0 0 n n1"
    by (rule ReceivePacket_effort [OF Pair])
  note round = assms [unfolded receive_blocks.simps [of mx tmo ex addr acc b n] Pair]
  have error: "effort 30 32500 n n3" if "effort 5 5000 n n2" "SendError a c msg n2 = (rr, n3)" for a c msg rr n2 n3
    using effort_trans [OF that(1) SendError_effort [OF that(2)]] by simp
  show ?thesis
  proof (cases "\<exists>src p. q = Some (src, p) \<and> pk_op_code p = kData \<and> pk_block_number p = b")
    case False
    then have "n' = n1 \<or> (\<exists>rr. SendError addr kIllegalOperation ''Illegal operation'' n1 = (rr, n'))"
      using round by (auto split: option.splits if_splits prod.splits)
    then have "effort 30 32500 n n'"
      using effort_mono [OF recv, of 30 32500] error [OF effort_mono [OF recv, of 5 5000], of addr] by auto
    then show ?thesis ..
  next
    case True
    then obtain src p where q: "q = Some (src, p)" and p: "pk_op_code p = kData" "pk_block_number p = b"
      by blast
    obtain ok n2 where sp: "SendPacket src (CreateAck b) n1 = (Inr ok, n2)"
      using SendPacket_bool [OF Serialize_CreateAck] by (metis prod.exhaust)
    have ack: "effort 5 5000 n n2"
      using effort_trans [OF recv SendPacket_effort [OF sp]] by simp
    have "n' = n2 \<or> (\<exists>c msg rr. SendError addr c msg n2 = (rr, n')) \<or>
        kMaxDataSize \<le> length (pk_data p) \<and> length (acc @ pk_data p) \<le> unat mx \<and>
        receive_blocks mx tmo ex addr (acc @ pk_data p) (b + 1) n2 = (r, n')"
      using round by (auto simp: q p sp Let_def not_less split: prod.splits bool.splits option.splits if_splits)
    then show ?thesis
      using ack effort_mono [OF ack, of 30 32500] error [OF ack, of addr] by auto
  qed
qed

lemma receive_blocks_effort:
  assumes "receive_blocks mx tmo ex addr acc b n = (r, n')" and "length acc \<le> unat mx"
  shows "effort (5 * ((unat mx - length acc) div 512) + 30) (5000 * ((unat mx - length acc) div 512) + 32500) n n'"
  using assms
proof (induction "Suc (unat mx) - length acc" arbitrary: acc b n rule: less_induct)
  case less
  let ?k = "(unat mx - length acc) div 512"
  from receive_round_effort [OF less.prems(1)] show ?case
  proof (elim disjE exE conjE)
    assume "effort 30 32500 n n'"
    then show ?thesis
      by (rule effort_mono) simp_all
  next
    fix block n2
    assume ack: "effort 5 5000 n n2" and size: "kMaxDataSize \<le> length block" "length (acc @ block) \<le> unat mx"
      and rec: "receive_blocks mx tmo ex addr (acc @ block) (b + 1) n2 = (r, n')"
    let ?j = "(unat mx - length (acc @ block)) div 512"
    have "unat mx - length (acc @ block) + 512 \<le> unat mx - length acc"
      using size by (simp add: kMaxDataSize_def)
    then have "(unat mx - length (acc @ block) + 512) div 512 \<le> ?k"
      by (rule div_le_mono)
    then have j: "?j + 1 \<le> ?k"
      by simp
    have "effort (5 * ?j + 30) (5000 * ?j + 32500) n2 n'"
      using size by (intro less.hyps [OF _ rec]) (simp_all add: kMaxDataSize_def)
    from effort_trans [OF ack this] show ?thesis
      using j by (elim effort_mono) linarith+
  qed
qed

lemma accept_write_effort:
  assumes "accept_write addr packet n = (r, n')"
  shows "effort 5 5000 n n'"
proof (cases "pk_options packet = []")
  case True
  then show ?thesis
    using assms SendPacket_effort by (simp add: accept_write_def)
next
  case False
  then obtain data k where "sendto addr data n = (k, n')"
    using assms by (auto simp: accept_write_def Let_def split: prod.splits)
  then show ?thesis
    by (auto simp: effort_def sendto_def emit_def Let_def)
qed

text \<open>
  C16. Every transfer ends after a bounded effort, on any network: with \<open>k\<close> blocks of 512 bytes within
  the size limit of the server, a read request makes at most \<open>5 (k + 1) + 25\<close> calls of \<^verbatim>\<open>sendto\<close> and
  sleeps at most \<open>5 (k + 1) + 27.5\<close> seconds; a write request at most \<open>5 (k + 1) + 55\<close> calls and
  \<open>5 (k + 1) + 60\<close> seconds.
\<close>

theorem transfers_end:
  assumes "HandleReadRequest cfg addr path (st, n) = (res, st', n')"
    and "HandleWriteRequest cfg addr path packet (st2, m) = (res2, st2', m')"
    and "k = unat (max_transfer_size cfg) div 512"
  shows "(\<exists>es. nt_trace n' = nt_trace n @ es \<and> send_calls es \<le> 5 * (k + 1) + 25 \<and> slept es \<le> 5000 * (k + 1) + 27500) \<and>
    (\<exists>es. nt_trace m' = nt_trace m @ es \<and> send_calls es \<le> 5 * (k + 1) + 55 \<and> slept es \<le> 5000 * (k + 1) + 60000)"
proof
  show "\<exists>es. nt_trace n' = nt_trace n @ es \<and> send_calls es \<le> 5 * (k + 1) + 25 \<and> slept es \<le> 5000 * (k + 1) + 27500"
    using HandleReadRequest_effort [OF assms(1)] by (simp add: effort_def assms(3))
next
  obtain go m1 where acc: "accept_write addr packet m = (Inr go, m1)"
    using accept_write_bool by blast
  obtain q m2 where rb: "receive_blocks (max_transfer_size cfg) (timeout_seconds cfg)
      (expected_size packet) addr [] 1 m1 = (Inr q, m2)"
    using receive_blocks_no_exception by (metis sum.exhaust prod.exhaust)
  have one: "effort 5 5000 m m1"
    by (rule accept_write_effort [OF acc])
  have two: "effort (5 * k + 35) (5000 * k + 37500) m m2"
    using effort_trans [OF one receive_blocks_effort [OF rb]] by (simp add: assms(3) add_ac)
  have three: "effort (5 * k + 60) (5000 * k + 65000) m m3" if "SendError a c msg m2 = (rr, m3)" for a c msg rr m3
    using effort_trans [OF two SendError_effort [OF that]] by (simp add: add_ac)
  have "m' = m1 \<or> m' = m2 \<or> (\<exists>rr. SendError addr kAccessViolation ''File write failed'' m2 = (rr, m'))"
    using assms(2) by (auto simp: HandleWriteRequest_def acc rb split: bool.splits option.splits prod.splits sum.splits)
  then have "effort (5 * (k + 1) + 55) (5000 * (k + 1) + 60000) m m'"
    using effort_mono [OF one] effort_mono [OF two] three [of addr] by (auto simp: add_ac)
  then show "\<exists>es. nt_trace m' = nt_trace m @ es \<and> send_calls es \<le> 5 * (k + 1) + 55 \<and> slept es \<le> 5000 * (k + 1) + 60000"
    by (simp add: effort_def)
qed

theorem transfers_end_witness:
  "\<exists>res w' n' es. HandleReadRequest default_config client ''/srv/tftp/fw.bin'' (world_example, net_with []) = (res, w', n') \<and>
     nt_trace n' = es \<and> send_calls es \<le> 5 * (2097152 + 1) + 25"
proof -
  obtain res w' n' where read: "HandleReadRequest default_config client ''/srv/tftp/fw.bin'' (world_example, net_with []) = (res, w', n')"
    by (rule prod_cases3)
  obtain res2 w2 m' where wr: "HandleWriteRequest default_config client ''/srv/tftp/fw.bin'' wrq_example
      (world_example, net_with []) = (res2, w2, m')"
    by (rule prod_cases3)
  have "2097152 = unat (max_transfer_size (default_config :: unit world transfer_config)) div 512"
    by (simp add: default_config_def)
  from transfers_end [OF read wr this] show ?thesis
    using read by (auto simp: net_with_def)
qed

end
