(* ===== verification/Tftp_File_Errors.thy ===== *)
theory Tftp_File_Errors
  imports Tftp_Transfer
begin

section \<open>Errors of the disk\<close>

text \<open>
  The default handlers of \<^verbatim>\<open>src/internal/tftp_server_impl.cpp\<close> on a device that fails: it takes only so many
  bytes of a file, as when the disk is full, and gives only so many. What the code sees of this depends on
  the buffer of the stream: C++ leaves open how much of a text has been handed to the device when \<^verbatim>\<open>write\<close>
  returns. The rest is handed over by \<^verbatim>\<open>flush\<close> and \<^verbatim>\<open>close\<close>, whose results the code does not look at. So the
  number of bytes that are still in the buffer after a \<^verbatim>\<open>write\<close> of a given length is an arbitrary
  function, a parameter of the model: nothing is assumed of it. A \<^verbatim>\<open>write\<close> fails when the device does not
  take what it hands over.
\<close>

record device =
  dv_opens :: bool       \<comment> \<open>a file can be opened for writing\<close>
  dv_room :: nat         \<comment> \<open>bytes that can be written\<close>
  dv_readable :: nat     \<comment> \<open>bytes that can be read\<close>
  dv_kept :: "nat \<Rightarrow> nat"   \<comment> \<open>how many bytes of a text of this length the stream keeps in its buffer\<close>

text \<open>\<^verbatim>\<open>write\<close>: whether the stream is still good, what reached the device, what waits in the buffer.\<close>

definition stream_write :: "device \<Rightarrow> byte list \<Rightarrow> bool \<times> byte list \<times> byte list" where
  "stream_write dev data =
     (let handed = length data - dv_kept dev (length data)
      in (handed \<le> dv_room dev, take (min handed (dv_room dev)) data, drop handed data))"

text \<open>\<^verbatim>\<open>flush\<close> and \<^verbatim>\<open>close\<close>: what is on the device in the end.\<close>

definition stream_flush :: "device \<Rightarrow> byte list \<times> byte list \<Rightarrow> byte list" where
  "stream_flush dev s = (let (written, pending) = s in written @ take (dv_room dev - length written) pending)"

definition write_file_on :: "device \<Rightarrow> filesystem \<Rightarrow> string \<Rightarrow> byte list \<Rightarrow> bool result \<times> filesystem" where
  "write_file_on dev fs path data =
     (case (if dv_opens dev then creat_location fs path else None) of
       None \<Rightarrow> (Inr False, fs)
     | Some loc \<Rightarrow> (case stream_write dev data of
         (False, s) \<Rightarrow> (Inr False, fs_put loc (File (stream_flush dev s)) fs)
       | (True, s) \<Rightarrow>
           (let fs' = fs_put loc (File (stream_flush dev s)) fs in
            case fs_exists fs' path of
              Inl x \<Rightarrow> (Inl x, fs')
            | Inr found \<Rightarrow> (Inr found, fs'))))"

definition DefaultWriteHandler_on :: "device \<Rightarrow> filesystem \<Rightarrow> string \<Rightarrow> byte list \<Rightarrow> bool result \<times> filesystem" where
  "DefaultWriteHandler_on dev fs path data =
     (let parent = parent_path path in
      if parent = [] then write_file_on dev fs path data
      else (case fs_exists fs parent of
          Inl x \<Rightarrow> (Inl x, fs)
        | Inr True \<Rightarrow> write_file_on dev fs path data
        | Inr False \<Rightarrow> (case create_directories fs parent of
              (False, fs') \<Rightarrow> (Inr False, fs')
            | (True, fs') \<Rightarrow> write_file_on dev fs' path data)))"

text \<open>A \<^verbatim>\<open>read\<close> that gets fewer bytes than the size of the file fails.\<close>

definition DefaultReadHandler_on :: "device \<Rightarrow> filesystem \<Rightarrow> string \<Rightarrow> (bool \<times> byte list) result" where
  "DefaultReadHandler_on dev fs path = (case resolve fs path of
       Inl e \<Rightarrow> Inr (False, [])
     | Inr loc \<Rightarrow> (case fs_lookup fs loc of
         Some (File bytes) \<Rightarrow> if dv_readable dev < length bytes then Inr (False, []) else Inr (True, bytes)
       | Some Dir \<Rightarrow> (case fs_dir_read fs of None \<Rightarrow> Inr (False, []) | Some x \<Rightarrow> Inl x)
       | _ \<Rightarrow> Inr (False, [])))"

subsection \<open>The handlers on a failing device\<close>

text \<open>The code notices that a file was cut off only if the device refuses bytes that \<^verbatim>\<open>write\<close> hands over.\<close>

definition notices :: "device \<Rightarrow> byte list \<Rightarrow> bool" where
  "notices dev data = (dv_room dev + dv_kept dev (length data) < length data)"

lemma take_drop_room:
  "take (min k room) xs @ take (room - length (take (min k room) xs)) (drop k xs) = take room xs"
proof (cases "k \<le> room")
  case True
  then show ?thesis
    using take_add [of k "room - k" xs] by (cases "k \<le> length xs") (auto simp: min_def)
qed (auto simp: min_def)

lemma stream_write_flush:
  "stream_write dev data = (good, s) \<Longrightarrow> stream_flush dev s = take (dv_room dev) data \<and> good = (\<not> notices dev data)"
  using take_drop_room [of "length data - dv_kept dev (length data)" "dv_room dev" data]
  by (auto simp: stream_write_def stream_flush_def notices_def Let_def)

lemma write_file_on_eq:
  assumes "dv_opens dev"
  shows "write_file_on dev fs path data = (case creat_location fs path of
     None \<Rightarrow> (Inr False, fs)
   | Some loc \<Rightarrow> (Inr (\<not> notices dev data), fs_put loc (File (take (dv_room dev) data)) fs))"
proof -
  obtain good s where sw: "stream_write dev data = (good, s)"
    by (cases "stream_write dev data")
  show ?thesis
    using assms stream_write_flush [OF sw]
    by (auto simp: write_file_on_def sw fs_exists_def resolve_created Let_def split: option.splits bool.splits)
qed

text \<open>
  The files are those of a write of what the device takes, without errors; the result differs when the
  code notices the error.
\<close>

lemma DefaultWriteHandler_on_eq:
  assumes "dv_opens dev"
  shows "DefaultWriteHandler_on dev fs path data =
    (let (res, fs') = DefaultWriteHandler fs path (take (dv_room dev) data)
     in (if res = Inr True then Inr (\<not> notices dev data) else res, fs'))"
proof -
  have "write_file_on dev fs path data = (let (res, fs') = write_file fs path (take (dv_room dev) data)
     in (if res = Inr True then Inr (\<not> notices dev data) else res, fs'))" for fs
    using assms by (simp add: write_file_on_eq write_file_eq split: option.splits)
  then show ?thesis
    by (auto simp: DefaultWriteHandler_on_def DefaultWriteHandler_def Let_def split: sum.splits bool.splits prod.splits)
qed

text \<open>On a device that does not fail these are the handlers of \<^verbatim>\<open>Tftp_File_Handlers\<close>.\<close>

lemma good_device:
  assumes "dv_opens dev" and "length data \<le> dv_room dev"
  shows "DefaultWriteHandler_on dev fs path data = DefaultWriteHandler fs path data"
proof -
  obtain res fs' where "DefaultWriteHandler fs path data = (res, fs')"
    by (cases "DefaultWriteHandler fs path data")
  then show ?thesis
    using assms by (cases "res = Inr True") (auto simp: DefaultWriteHandler_on_eq notices_def)
qed

lemma good_device_read:
  "(\<And>loc bytes. fs_lookup fs loc = Some (File bytes) \<Longrightarrow> length bytes \<le> dv_readable dev) \<Longrightarrow>
   DefaultReadHandler_on dev fs path = DefaultReadHandler fs path"
  by (force simp: DefaultReadHandler_on_def DefaultReadHandler_def split: sum.splits option.splits node.splits)

lemma read_on_whole:
  "DefaultReadHandler_on dev fs path = Inr (True, bytes) \<Longrightarrow> DefaultReadHandler fs path = Inr (True, bytes)"
  by (auto simp: DefaultReadHandler_on_def DefaultReadHandler_def split: sum.splits option.splits node.splits if_splits)

lemma secure_write_on_below:
  assumes "root_at fs root r" and "NUL \<notin> set root" and "no_links_below fs r" and "IsPathSecure fs p root"
    and "DefaultWriteHandler_on dev fs (NormalizePath fs (root @ p)) data = (res, fs')" and "dv_opens dev"
  shows "changes_below r fs fs'"
proof -
  let ?path = "NormalizePath fs (root @ p)"
  obtain res1 fs1 where "DefaultWriteHandler fs ?path (take (dv_room dev) data) = (res1, fs1)"
    by (cases "DefaultWriteHandler fs ?path (take (dv_room dev) data)")
  then show ?thesis
    using secure_write_below [OF assms(1-4)] assms(5,6) by (auto simp: DefaultWriteHandler_on_eq)
qed



subsection \<open>Uploads\<close>






end
