(* ===== verification/Transition_System.thy ===== *)
theory Transition_System
  imports Main
begin

section \<open>Transition systems\<close>

text \<open>
  Reachable states of a labelled step relation and the proof rule for invariants. The components
  with concurrency or a life cycle interpret the locale with their own states, steps and invariant.
\<close>

inductive reach :: "('s \<Rightarrow> bool) \<Rightarrow> ('s \<Rightarrow> 'l \<Rightarrow> 's \<Rightarrow> bool) \<Rightarrow> 's \<Rightarrow> bool"
  for init and step where
  reach_init: "init s \<Longrightarrow> reach init step s"
| reach_step: "reach init step s \<Longrightarrow> step s l s' \<Longrightarrow> reach init step s'"

inductive run :: "('s \<Rightarrow> 'l \<Rightarrow> 's \<Rightarrow> bool) \<Rightarrow> 's \<Rightarrow> 'l list \<Rightarrow> 's \<Rightarrow> bool" for step where
  run_nil: "run step s [] s"
| run_cons: "step s l s' \<Longrightarrow> run step s' ls s'' \<Longrightarrow> run step s (l # ls) s''"

inductive_simps run_simps [simp]: "run step s [] s'" "run step s (l # ls) s'"

lemma run_append: "run step s as s' \<Longrightarrow> run step s' bs s'' \<Longrightarrow> run step s (as @ bs) s''"
  by (induction rule: run.induct) auto

locale invariant_system =
  fixes init :: "'s \<Rightarrow> bool" and step :: "'s \<Rightarrow> 'l \<Rightarrow> 's \<Rightarrow> bool" and inv :: "'s \<Rightarrow> bool"
  assumes inv_init: "init s \<Longrightarrow> inv s"
    and inv_step: "inv s \<Longrightarrow> step s l s' \<Longrightarrow> inv s'"
begin

lemma reach_inv: "reach init step s \<Longrightarrow> inv s"
  by (induction rule: reach.induct) (auto intro: inv_init inv_step)

lemma run_inv: "run step s ls s' \<Longrightarrow> inv s \<Longrightarrow> inv s'"
  by (induction rule: run.induct) (auto intro: inv_step)

lemma reach_run: "run step s ls s' \<Longrightarrow> reach init step s \<Longrightarrow> reach init step s'"
  by (induction rule: run.induct) (auto intro: reach_step)

end

text \<open>
  Refinement: the view of each step is a step of the abstract system or leaves the view as it was,
  so that the view of every reachable state is reachable in the abstract system.
\<close>

locale refinement = invariant_system +
  fixes abs_init :: "'t \<Rightarrow> bool" and abs_step :: "'t \<Rightarrow> 'm \<Rightarrow> 't \<Rightarrow> bool" and view :: "'s \<Rightarrow> 't"
  assumes view_init: "init s \<Longrightarrow> abs_init (view s)"
    and view_step: "inv s \<Longrightarrow> step s l s' \<Longrightarrow> view s' = view s \<or> (\<exists>m. abs_step (view s) m (view s'))"
begin

lemma reach_view: "reach init step s \<Longrightarrow> reach abs_init abs_step (view s)"
proof (induction rule: reach.induct)
  case (reach_step s l s')
  then show ?case
    using view_step [OF reach_inv [OF reach_step.hyps(1)] reach_step.hyps(2)]
    by (metis reach.reach_step)
qed (simp add: reach.reach_init view_init)

lemma inv_view:
  assumes "invariant_system abs_init abs_step abs_inv" and "reach init step s"
  shows "abs_inv (view s)"
  by (rule invariant_system.reach_inv [OF assms(1) reach_view [OF assms(2)]])

end

end
