(* ===== verification/Tftp_Thread_Pool.thy ===== *)
theory Tftp_Thread_Pool
  imports Transition_System Cpp_Std "HOL-Library.Multiset"
begin

section \<open>The thread pool\<close>

text \<open>
  \<^verbatim>\<open>TftpThreadPool\<close> of \<^verbatim>\<open>src/internal/tftp_thread_pool.h\<close> and \<^verbatim>\<open>tftp_thread_pool.cpp\<close> as a step
  relation on the threads that use it: the workers, the callers of \<^verbatim>\<open>Submit\<close> and the one call of
  \<^verbatim>\<open>Shutdown\<close> that wins the exchange. A step is one access to shared state outside the mutex, or one
  stretch of code inside it; evaluating the predicate of \<^verbatim>\<open>condition_.wait\<close> and blocking are two
  steps, both with the mutex held. The history of tasks that were submitted, taken, finished and
  dropped is kept with the state; no step depends on it.
\<close>

datatype 'task worker =
    At_loop                \<comment> \<open>before \<^verbatim>\<open>while (!stopping_)\<close>\<close>
  | At_lock                \<comment> \<open>before locking \<^verbatim>\<open>queue_mutex_\<close>\<close>
  | Checking               \<comment> \<open>mutex held, before the predicate of the wait\<close>
  | Going_to_sleep         \<comment> \<open>mutex held, the predicate was false\<close>
  | Blocked                \<comment> \<open>in the wait, mutex released\<close>
  | Woken                  \<comment> \<open>notified, before relocking\<close>
  | Taking                 \<comment> \<open>mutex held, the predicate was true\<close>
  | Got 'task              \<comment> \<open>mutex released, before \<^verbatim>\<open>fetch_add\<close>\<close>
  | Running 'task
  | Exited

datatype phase = Up | Flagged | Joining | Joined | Down

record 'task pool =
  tp_tasks :: "'task list"
  tp_stopping :: bool
  tp_active :: nat
  tp_workers :: "'task worker list"
  tp_notifies :: nat
  tp_phase :: phase
  tp_submitted :: "'task list"
  tp_taken :: "'task list"
  tp_finished :: "'task multiset"
  tp_dropped :: "'task list"

text \<open>The constructor: the number of workers, with the hardware concurrency as a parameter.\<close>

definition worker_count :: "nat \<Rightarrow> nat \<Rightarrow> nat" where
  "worker_count hardware_concurrency num_threads =
     (let n = (if num_threads = 0
               then (if hardware_concurrency = 0 then 4 else hardware_concurrency)
               else num_threads)
      in max 1 (min n 64))"

definition new_pool :: "nat \<Rightarrow> nat \<Rightarrow> 'task pool" where
  "new_pool hardware_concurrency num_threads = \<lparr>tp_tasks = [], tp_stopping = False, tp_active = 0,
     tp_workers = replicate (worker_count hardware_concurrency num_threads) At_loop,
     tp_notifies = 0, tp_phase = Up, tp_submitted = [], tp_taken = [], tp_finished = {#},
     tp_dropped = []\<rparr>"

definition IsShuttingDown :: "'task pool \<Rightarrow> bool" where
  "IsShuttingDown p = tp_stopping p"

definition GetActiveTaskCount :: "'task pool \<Rightarrow> nat" where
  "GetActiveTaskCount p = tp_active p"

definition GetQueuedTaskCount :: "'task pool \<Rightarrow> nat" where
  "GetQueuedTaskCount p = length (tp_tasks p)"

definition GetThreadCount :: "'task pool \<Rightarrow> nat" where
  "GetThreadCount p = length (tp_workers p)"

fun holds_lock :: "'task worker \<Rightarrow> bool" where
  "holds_lock Checking = True"
| "holds_lock Going_to_sleep = True"
| "holds_lock Taking = True"
| "holds_lock _ = False"

definition lock_free :: "'task pool \<Rightarrow> bool" where
  "lock_free p = list_all (\<lambda>w. \<not> holds_lock w) (tp_workers p)"

definition set_worker :: "nat \<Rightarrow> 'task worker \<Rightarrow> 'task pool \<Rightarrow> 'task pool" where
  "set_worker i w p = p\<lparr>tp_workers := (tp_workers p)[i := w]\<rparr>"

definition wake :: "'task worker \<Rightarrow> 'task worker" where
  "wake w = (case w of Blocked \<Rightarrow> Woken | _ \<Rightarrow> w)"

text \<open>
  \<^verbatim>\<open>Submit\<close>: refused once the pool is stopping, otherwise the task is queued under the mutex; the
  notification is a later step of the same caller.
\<close>

definition Submit :: "'task \<Rightarrow> 'task pool \<Rightarrow> unit result \<times> 'task pool" where
  "Submit t p =
     (if tp_stopping p then (Inl (RuntimeError ''Cannot submit task to stopped thread pool''), p)
      else (Inr (), p\<lparr>tp_tasks := tp_tasks p @ [t], tp_notifies := Suc (tp_notifies p),
              tp_submitted := tp_submitted p @ [t]\<rparr>))"

datatype 'task action =
    Submits 'task | Notifies_one | Shuts_down | Notifies_all | Joins | Clears
  | Works nat | Spurious nat

text \<open>One step of a worker; \<open>None\<close> when it has to wait for the mutex or for a notification.\<close>

definition worker_step :: "nat \<Rightarrow> 'task pool \<Rightarrow> 'task pool option" where
  "worker_step i p = (case tp_workers p ! i of
       At_loop \<Rightarrow> Some (set_worker i (if tp_stopping p then Exited else At_lock) p)
     | At_lock \<Rightarrow> if lock_free p then Some (set_worker i Checking p) else None
     | Checking \<Rightarrow> Some (set_worker i
         (if tp_stopping p \<or> tp_tasks p \<noteq> [] then Taking else Going_to_sleep) p)
     | Going_to_sleep \<Rightarrow> Some (set_worker i Blocked p)
     | Blocked \<Rightarrow> None
     | Woken \<Rightarrow> if lock_free p then Some (set_worker i Checking p) else None
     | Taking \<Rightarrow> (case tp_tasks p of
           [] \<Rightarrow> Some (set_worker i (if tp_stopping p then Exited else At_loop) p)
         | t # ts \<Rightarrow> Some (set_worker i (Got t) (p\<lparr>tp_tasks := ts, tp_taken := tp_taken p @ [t]\<rparr>)))
     | Got t \<Rightarrow> Some (set_worker i (Running t) (p\<lparr>tp_active := Suc (tp_active p)\<rparr>))
     | Running t \<Rightarrow> Some (set_worker i At_loop
         (p\<lparr>tp_active := tp_active p - 1, tp_finished := tp_finished p + {#t#}\<rparr>))
     | Exited \<Rightarrow> None)"

inductive pool_step :: "'task pool \<Rightarrow> 'task action \<Rightarrow> 'task pool \<Rightarrow> bool" where
  submits: "lock_free p \<Longrightarrow> Submit t p = (r, p') \<Longrightarrow> pool_step p (Submits t) p'"
| notifies_one: "tp_notifies p = Suc k \<Longrightarrow> i < length (tp_workers p) \<Longrightarrow> tp_workers p ! i = Blocked \<Longrightarrow>
    pool_step p Notifies_one (set_worker i Woken (p\<lparr>tp_notifies := k\<rparr>))"
| notifies_none: "tp_notifies p = Suc k \<Longrightarrow> Blocked \<notin> set (tp_workers p) \<Longrightarrow>
    pool_step p Notifies_one (p\<lparr>tp_notifies := k\<rparr>)"
| shuts_down: "tp_phase p = Up \<Longrightarrow> \<not> tp_stopping p \<Longrightarrow>
    pool_step p Shuts_down (p\<lparr>tp_stopping := True, tp_phase := Flagged\<rparr>)"
| notifies_all: "tp_phase p = Flagged \<Longrightarrow>
    pool_step p Notifies_all (p\<lparr>tp_workers := map wake (tp_workers p), tp_phase := Joining\<rparr>)"
| joins: "tp_phase p = Joining \<Longrightarrow> list_all (\<lambda>w. w = Exited) (tp_workers p) \<Longrightarrow>
    pool_step p Joins (p\<lparr>tp_phase := Joined\<rparr>)"
| clears: "tp_phase p = Joined \<Longrightarrow> lock_free p \<Longrightarrow>
    pool_step p Clears (p\<lparr>tp_tasks := [], tp_dropped := tp_tasks p, tp_phase := Down\<rparr>)"
| works: "i < length (tp_workers p) \<Longrightarrow> worker_step i p = Some p' \<Longrightarrow> pool_step p (Works i) p'"
| spurious: "i < length (tp_workers p) \<Longrightarrow> tp_workers p ! i = Blocked \<Longrightarrow>
    pool_step p (Spurious i) (set_worker i Woken p)"

inductive_cases pool_stepE [elim]: "pool_step p a p'"

definition pool_init :: "'task pool \<Rightarrow> bool" where
  "pool_init p = (\<exists>hw n. p = new_pool hw n)"

subsection \<open>Invariants\<close>

fun in_flight :: "'task worker \<Rightarrow> 'task list" where
  "in_flight (Got t) = [t]"
| "in_flight (Running t) = [t]"
| "in_flight _ = []"

fun is_running :: "'task worker \<Rightarrow> bool" where
  "is_running (Running t) = True"
| "is_running _ = False"

text \<open>A worker that will look at the queue again without a further notification.\<close>

fun awake :: "'task worker \<Rightarrow> bool" where
  "awake Going_to_sleep = False"
| "awake Blocked = False"
| "awake Exited = False"
| "awake _ = True"

definition inv_count :: "'task pool \<Rightarrow> bool" where
  "inv_count p = (tp_active p = length (filter is_running (tp_workers p)) \<and>
     1 \<le> length (tp_workers p) \<and> length (tp_workers p) \<le> 64)"

definition inv_lock :: "'task pool \<Rightarrow> bool" where
  "inv_lock p = (length (filter holds_lock (tp_workers p)) \<le> 1 \<and>
     (Going_to_sleep \<in> set (tp_workers p) \<longrightarrow> tp_tasks p = []))"

definition inv_tasks :: "'task pool \<Rightarrow> bool" where
  "inv_tasks p = (tp_submitted p = tp_taken p @ tp_tasks p @ tp_dropped p \<and>
     mset (tp_taken p) = tp_finished p + mset (concat (map in_flight (tp_workers p))) \<and>
     (if tp_phase p = Down then tp_tasks p = [] else tp_dropped p = []))"

definition inv_phase :: "'task pool \<Rightarrow> bool" where
  "inv_phase p = ((tp_phase p \<noteq> Up \<longleftrightarrow> tp_stopping p) \<and>
     (Exited \<in> set (tp_workers p) \<longrightarrow> tp_stopping p) \<and>
     (tp_phase p = Joined \<or> tp_phase p = Down \<longrightarrow> list_all (\<lambda>w. w = Exited) (tp_workers p)))"

definition inv_wake :: "'task pool \<Rightarrow> bool" where
  "inv_wake p = (\<not> tp_stopping p \<and> tp_tasks p \<noteq> [] \<longrightarrow>
     tp_notifies p > 0 \<or> (\<exists>w \<in> set (tp_workers p). awake w))"

definition pool_inv :: "'task pool \<Rightarrow> bool" where
  "pool_inv p = (inv_count p \<and> inv_lock p \<and> inv_tasks p \<and> inv_phase p \<and> inv_wake p)"

lemma update_split:
  assumes "i < length xs"
  obtains a b where "xs = a @ (xs ! i) # b" and "\<forall>w. xs[i := w] = a @ w # b"
  using assms id_take_nth_drop [OF assms] upd_conv_take_nth_drop [OF assms] by metis

lemma lock_free_iff: "lock_free p \<longleftrightarrow> filter holds_lock (tp_workers p) = []"
  by (auto simp: lock_free_def list_all_iff filter_empty_conv)

lemma wake_simps [simp]:
  "in_flight (wake w) = in_flight w" "is_running (wake w) = is_running w" "holds_lock (wake w) = holds_lock w"
  "wake w = Exited \<longleftrightarrow> w = Exited" "wake w = Going_to_sleep \<longleftrightarrow> w = Going_to_sleep"
  "awake w \<Longrightarrow> awake (wake w)"
  by (cases w; simp add: wake_def)+

lemmas pool_defs = set_worker_def worker_step_def lock_free_iff
lemmas inv_defs = inv_count_def inv_lock_def inv_tasks_def inv_phase_def inv_wake_def

lemma worker_keeps:
  assumes "i < length (tp_workers p)" and "worker_step i p = Some p'" and "pool_inv p"
  shows "inv_count p'" and "inv_lock p'" and "inv_tasks p'" and "inv_phase p'" and "inv_wake p'"
proof -
  obtain a b where split: "tp_workers p = a @ (tp_workers p ! i) # b"
    and upd: "\<forall>w. (tp_workers p)[i := w] = a @ w # b"
    by (rule update_split [OF assms(1)])
  define w where "w = tp_workers p ! i"
  have ws: "tp_workers p = a @ w # b"
    using split by (simp add: w_def)
  have nth: "tp_workers p ! i = w"
    by (simp add: w_def)
  have sw: "set_worker i x q = q\<lparr>tp_workers := a @ x # b\<rparr>" if "tp_workers q = tp_workers p" for x q
    using that upd by (simp add: set_worker_def)
  have lf: "lock_free p \<longleftrightarrow> filter holds_lock (a @ w # b) = []"
    by (simp add: lock_free_iff ws)
  note step = assms(2) [unfolded worker_step_def nth lf]
  have c: "inv_count p" and l: "inv_lock p" and t: "inv_tasks p" and f: "inv_phase p" and k: "inv_wake p"
    using assms(3) by (simp_all add: pool_inv_def)
  show "inv_count p'"
    using step c [unfolded inv_count_def ws]
    by (cases w) (auto simp: inv_count_def sw split: if_splits list.splits)
  show "inv_lock p'"
    using step l [unfolded inv_lock_def ws]
    by (cases w) (auto simp: inv_lock_def sw split: if_splits list.splits)
  show "inv_tasks p'"
    using step t [unfolded inv_tasks_def ws] f [unfolded inv_phase_def ws]
    by (cases w) (auto simp: inv_tasks_def sw split: if_splits list.splits)
  show "inv_phase p'"
    using step f [unfolded inv_phase_def ws]
    by (cases w) (auto simp: inv_phase_def sw split: if_splits list.splits)
  show "inv_wake p'"
    using step k [unfolded inv_wake_def ws]
    by (cases w) (auto simp: inv_wake_def sw split: if_splits list.splits)
qed

lemma woken_keeps:
  assumes "pool_inv p" and "i < length (tp_workers p)" and "tp_workers p ! i = Blocked"
  shows "pool_inv (set_worker i Woken (p\<lparr>tp_notifies := k\<rparr>))"
proof -
  obtain a b where "tp_workers p = a @ Blocked # b" and "\<forall>w. (tp_workers p)[i := w] = a @ w # b"
    using update_split [OF assms(2)] assms(3) by metis
  then show ?thesis
    using assms(1) by (auto simp: pool_inv_def inv_defs set_worker_def)
qed

lemma awake_if_none_blocked:
  assumes "pool_inv p" and "Blocked \<notin> set (tp_workers p)" and "\<not> tp_stopping p" and "tp_tasks p \<noteq> []"
  shows "\<exists>w \<in> set (tp_workers p). awake w"
proof -
  obtain w where w: "w \<in> set (tp_workers p)"
    using assms(1) by (cases "tp_workers p") (auto simp: pool_inv_def inv_count_def)
  then have "w \<noteq> Blocked" "w \<noteq> Exited" "w \<noteq> Going_to_sleep"
    using assms by (auto simp: pool_inv_def inv_lock_def inv_phase_def)
  then have "awake w"
    by (cases w) simp_all
  then show ?thesis
    using w by blast
qed

lemma submit_keeps:
  assumes "pool_inv p" and "lock_free p" and "Submit t p = (r, p')"
  shows "pool_inv p'"
proof (cases "tp_stopping p")
  case False
  have "Going_to_sleep \<notin> set (tp_workers p)"
    using assms(2) by (auto simp: lock_free_def list_all_iff)
  moreover have "tp_phase p = Up" "tp_dropped p = []"
    using assms(1) False by (auto simp: pool_inv_def inv_phase_def inv_tasks_def)
  ultimately show ?thesis
    using assms(1,3) False by (auto simp: pool_inv_def inv_defs Submit_def)
qed (use assms in \<open>auto simp: Submit_def\<close>)

lemma wake_image [simp]:
  "Exited \<in> wake ` ws \<longleftrightarrow> Exited \<in> ws" "Going_to_sleep \<in> wake ` ws \<longleftrightarrow> Going_to_sleep \<in> ws"
  "in_flight \<circ> wake = in_flight" "is_running \<circ> wake = is_running" "holds_lock \<circ> wake = holds_lock"
  by (auto simp: fun_eq_iff image_iff eq_commute [of _ "wake _"])

lemma wake_all_keeps:
  assumes "pool_inv p" and "tp_phase p = Flagged"
  shows "pool_inv (p\<lparr>tp_workers := map wake (tp_workers p), tp_phase := Joining\<rparr>)"
  using assms by (auto simp: pool_inv_def inv_defs filter_map)

lemma pool_step_inv:
  assumes inv: "pool_inv p" and step: "pool_step p a p'"
  shows "pool_inv p'"
  using step
proof cases
  case (submits t r)
  then show ?thesis
    using submit_keeps [OF inv] by blast
next
  case (notifies_one k i)
  then show ?thesis
    using woken_keeps [OF inv] by blast
next
  case (notifies_none k)
  then show ?thesis
    using inv awake_if_none_blocked [OF inv] by (auto simp: pool_inv_def inv_defs)
next
  case notifies_all
  then show ?thesis
    using wake_all_keeps [OF inv] by blast
next
  case (works i)
  then show ?thesis
    using worker_keeps [OF _ _ inv] unfolding pool_inv_def by blast
next
  case (spurious i)
  then show ?thesis
    using woken_keeps [OF inv, of i "tp_notifies p"] by simp
qed (use inv in \<open>auto simp: pool_inv_def inv_defs\<close>)

interpretation pool: invariant_system pool_init pool_step pool_inv
proof
  show "pool_inv p" if "pool_init p" for p :: "'a pool"
    using that by (auto simp: pool_init_def new_pool_def pool_inv_def inv_defs worker_count_def Let_def
        filter_replicate map_replicate_const)
qed (rule pool_step_inv)

subsection \<open>Properties\<close>

text \<open>
  C20. In every reachable state: there are between 1 and 64 workers, the active count is the number
  of tasks that are running, at most one worker holds the mutex, tasks are taken in the order in
  which they were submitted, and no task is lost or run twice: each one submitted is finished, in the
  hands of one worker, queued, or was dropped by the shutdown.
\<close>

theorem pool_accounting:
  assumes "reach pool_init pool_step p"
  shows "1 \<le> GetThreadCount p \<and> GetThreadCount p \<le> 64 \<and>
    GetActiveTaskCount p = length (filter is_running (tp_workers p)) \<and>
    length (filter holds_lock (tp_workers p)) \<le> 1 \<and>
    tp_submitted p = tp_taken p @ tp_tasks p @ tp_dropped p \<and>
    mset (tp_submitted p) = tp_finished p + mset (concat (map in_flight (tp_workers p))) +
      mset (tp_tasks p) + mset (tp_dropped p)"
  using pool.reach_inv [OF assms]
  by (auto simp: pool_inv_def inv_defs GetThreadCount_def GetActiveTaskCount_def)

theorem pool_accounting_witness:
  "GetThreadCount (new_pool 8 0 :: nat pool) \<le> 64 \<and>
   GetActiveTaskCount (new_pool 8 0 :: nat pool) = 0"
proof -
  have "reach pool_init pool_step (new_pool 8 0 :: nat pool)"
    by (rule reach_init) (auto simp: pool_init_def)
  then show ?thesis
    using pool_accounting [of "new_pool 8 0 :: nat pool"]
    by (simp add: GetActiveTaskCount_def new_pool_def filter_replicate)
qed

lemma worker_enabled:
  assumes "pool_inv p" and "w \<in> set (tp_workers p)" and "awake w"
  shows "\<exists>i p'. pool_step p (Works i) p'"
proof -
  have go: "\<exists>i p'. pool_step p (Works i) p'"
    if v: "v \<in> set (tp_workers p)" and aw: "awake v \<or> holds_lock v" and lf: "v = At_lock \<or> v = Woken \<longrightarrow> lock_free p" for v
  proof -
    obtain i where i: "i < length (tp_workers p)" "tp_workers p ! i = v"
      using v unfolding in_set_conv_nth by blast
    then have "\<exists>p'. worker_step i p = Some p'"
      using aw lf by (cases v) (auto simp: worker_step_def split: list.split)
    then show ?thesis
      using i(1) works by blast
  qed
  show ?thesis
  proof (cases "lock_free p")
    case True
    then show ?thesis
      using go [OF assms(2)] assms(3) by blast
  next
    case False
    then obtain v where "v \<in> set (tp_workers p)" "holds_lock v"
      by (auto simp: lock_free_def list_all_iff)
    then show ?thesis
      using go [of v] by (cases v rule: worker.exhaust) auto
  qed
qed

text \<open>
  No task is stuck while the pool is up: whenever the queue is not empty and the pool is not
  stopping, a worker can take a step or a notification is still to come, without relying on spurious
  wake-ups.
\<close>

lemma queued_task_progress:
  assumes "pool_inv p" and "\<not> tp_stopping p" and "tp_tasks p \<noteq> []"
  shows "\<exists>p'. pool_step p Notifies_one p' \<or> (\<exists>i. pool_step p (Works i) p')"
proof (cases "tp_notifies p")
  case 0
  then obtain w where "w \<in> set (tp_workers p)" "awake w"
    using assms by (auto simp: pool_inv_def inv_wake_def)
  then show ?thesis
    using worker_enabled [OF assms(1)] by blast
next
  case (Suc k)
  then show ?thesis
    using notifies_one [OF Suc] notifies_none [OF Suc] by (metis in_set_conv_nth)
qed

text \<open>A pool with one worker, and its states as the shutdown overtakes the worker's wait.\<close>

definition one_worker :: "bool \<Rightarrow> phase \<Rightarrow> 'task worker \<Rightarrow> 'task pool" where
  "one_worker stopping ph w =
     (new_pool 1 1)\<lparr>tp_stopping := stopping, tp_phase := ph, tp_workers := [w]\<rparr>"

lemma one_worker_new: "new_pool 1 1 = one_worker False Up At_loop"
  by (simp add: one_worker_def new_pool_def worker_count_def)

lemma one_worker_works:
  assumes "worker_step 0 (one_worker b ph w) = Some (one_worker b ph w')"
  shows "pool_step (one_worker b ph w) (Works 0) (one_worker b ph w')"
  by (rule works [OF _ assms]) (simp add: one_worker_def)

text \<open>
  After a completed shutdown no worker is left, nothing is running, every task that was taken
  has finished, and the tasks that were still queued have been dropped without being run.
\<close>

lemma shutdown_drops_queue:
  assumes "reach pool_init pool_step p" and "tp_phase p = Down"
  shows "IsShuttingDown p \<and> list_all (\<lambda>w. w = Exited) (tp_workers p) \<and> GetActiveTaskCount p = 0 \<and>
    GetQueuedTaskCount p = 0 \<and> mset (tp_taken p) = tp_finished p \<and> tp_submitted p = tp_taken p @ tp_dropped p"
proof -
  have inv: "pool_inv p"
    by (rule pool.reach_inv [OF assms(1)])
  then have exited: "list_all (\<lambda>w. w = Exited) (tp_workers p)"
    using assms(2) by (auto simp: pool_inv_def inv_phase_def)
  then have "concat (map in_flight (tp_workers p)) = []" "filter is_running (tp_workers p) = []"
    by (auto simp: list_all_iff filter_empty_conv)
  then show ?thesis
    using inv exited assms(2)
    by (auto simp: pool_inv_def inv_defs IsShuttingDown_def GetActiveTaskCount_def GetQueuedTaskCount_def)
qed

lemma one_worker_run:
  "run pool_step (new_pool 1 1)
     [Works 0, Works 0, Works 0, Shuts_down, Notifies_all, Works 0] (one_worker True Joining Blocked)"
proof -
  have "pool_step (one_worker False Up At_loop) (Works 0) (one_worker False Up At_lock)"
    "pool_step (one_worker False Up At_lock) (Works 0) (one_worker False Up Checking)"
    "pool_step (one_worker False Up Checking) (Works 0) (one_worker False Up Going_to_sleep)"
    "pool_step (one_worker True Joining Going_to_sleep) (Works 0) (one_worker True Joining Blocked)"
    by (intro one_worker_works;
        simp add: worker_step_def one_worker_def set_worker_def new_pool_def lock_free_def)+
  moreover have "pool_step (one_worker False Up Going_to_sleep) Shuts_down (one_worker True Flagged Going_to_sleep)"
    using shuts_down [of "one_worker False Up Going_to_sleep"] by (simp add: one_worker_def new_pool_def)
  moreover have "pool_step (one_worker True Flagged Going_to_sleep) Notifies_all (one_worker True Joining Going_to_sleep)"
    using notifies_all [of "one_worker True Flagged Going_to_sleep"] by (simp add: one_worker_def new_pool_def wake_def)
  ultimately show ?thesis
    unfolding one_worker_new run_simps by blast
qed

text \<open>
  C39. The shutdown can hang: \<^verbatim>\<open>stopping_\<close> is set and the workers are notified without the mutex, so
  a worker that has just found the queue empty misses both and blocks. The shutdown then waits in
  \<^verbatim>\<open>join\<close> for this worker, and nothing but a spurious wake-up changes the state any more.
\<close>

theorem shutdown_lost_wakeup:
  "\<exists>p :: nat pool. reach pool_init pool_step p \<and> tp_phase p = Joining \<and>
     Blocked \<in> set (tp_workers p) \<and> {p'. \<exists>a. pool_step p a p' \<and> (\<forall>i. a \<noteq> Spurious i)} \<subseteq> {p}"
proof (intro exI [of _ "one_worker True Joining Blocked :: nat pool"] conjI subsetI)
  have "reach pool_init pool_step (new_pool 1 1 :: nat pool)"
    by (rule reach_init) (auto simp: pool_init_def)
  then show "reach pool_init pool_step (one_worker True Joining Blocked :: nat pool)"
    by (rule pool.reach_run [OF one_worker_run])
  fix p'
  assume "p' \<in> {p'. \<exists>a. pool_step (one_worker True Joining Blocked) a p' \<and> (\<forall>i. a \<noteq> Spurious i)}"
  then show "p' \<in> {one_worker True Joining Blocked}"
    by (auto simp: one_worker_def new_pool_def Submit_def worker_step_def)
qed (simp_all add: one_worker_def)

end
