(* ===== verification/Tftp_Server_Impl.thy ===== *)
theory Tftp_Server_Impl
  imports Tftp_Transfer Tftp_Thread_Pool
begin

section \<open>The server\<close>

text \<open>
  \<^verbatim>\<open>TftpServerImpl\<close> of \<^verbatim>\<open>src/internal/tftp_server_impl.h\<close> and \<^verbatim>\<open>tftp_server_impl.cpp\<close>: its members,
  constructor and setters, \<^verbatim>\<open>Start\<close>, \<^verbatim>\<open>Stop\<close>, \<^verbatim>\<open>IsRunning\<close>, an iteration of \<^verbatim>\<open>ServerLoop\<close>, and
  \<^verbatim>\<open>HandleClient\<close>, which a worker of the pool runs for one datagram. The results of \<^verbatim>\<open>socket\<close>,
  \<^verbatim>\<open>setsockopt\<close> and \<^verbatim>\<open>bind\<close> are parameters. Starting a thread is assumed to succeed.
\<close>

type_synonym request = "byte list \<times> sockaddr"

record 's server_impl =
  sv_root_dir :: string
  sv_port :: uint16
  sv_sockfd :: int
  sv_running :: bool
  sv_server_thread :: bool
  sv_thread_pool :: "request pool option"
  sv_secure_mode :: bool
  sv_config :: "'s transfer_config"
  sv_thread_pool_size :: nat

definition with_slash :: "string \<Rightarrow> string" where
  "with_slash root_dir =
     (if root_dir \<noteq> [] \<and> last root_dir \<noteq> CHR ''/'' \<and> last root_dir \<noteq> CHR 92
      then root_dir @ ''/'' else root_dir)"

definition new_server_impl :: "nat \<Rightarrow> string \<Rightarrow> uint16 \<Rightarrow> 'a world server_impl" where
  "new_server_impl hardware_concurrency root_dir port = \<lparr>
     sv_root_dir = with_slash root_dir, sv_port = port, sv_sockfd = -1, sv_running = False,
     sv_server_thread = False, sv_thread_pool = None, sv_secure_mode = True,
     sv_config = default_config, sv_thread_pool_size = hardware_concurrency\<rparr>"

text \<open>The setters, each under \<^verbatim>\<open>config_mutex_\<close>.\<close>

definition SetReadCallback ::
  "('s \<Rightarrow> string \<Rightarrow> (bool \<times> byte list) result \<times> 's) option \<Rightarrow> 's server_impl \<Rightarrow> 's server_impl" where
  "SetReadCallback callback sv = sv\<lparr>sv_config := (sv_config sv)\<lparr>read_callback := callback\<rparr>\<rparr>"

definition SetWriteCallback ::
  "('s \<Rightarrow> string \<Rightarrow> byte list \<Rightarrow> bool result \<times> 's) option \<Rightarrow> 's server_impl \<Rightarrow> 's server_impl" where
  "SetWriteCallback callback sv = sv\<lparr>sv_config := (sv_config sv)\<lparr>write_callback := callback\<rparr>\<rparr>"

definition SetSecureMode :: "bool \<Rightarrow> 's server_impl \<Rightarrow> 's server_impl" where
  "SetSecureMode secure sv = sv\<lparr>sv_secure_mode := secure\<rparr>"

definition SetMaxTransferSize :: "uint64 \<Rightarrow> 's server_impl \<Rightarrow> 's server_impl" where
  "SetMaxTransferSize size' sv = sv\<lparr>sv_config := (sv_config sv)\<lparr>max_transfer_size := size'\<rparr>\<rparr>"

definition SetTimeout :: "int \<Rightarrow> 's server_impl \<Rightarrow> 's server_impl" where
  "SetTimeout seconds sv = sv\<lparr>sv_config := (sv_config sv)\<lparr>timeout_seconds := seconds\<rparr>\<rparr>"

definition SetThreadPoolSize :: "nat \<Rightarrow> 's server_impl \<Rightarrow> 's server_impl" where
  "SetThreadPoolSize size' sv = sv\<lparr>sv_thread_pool_size := size'\<rparr>"

subsection \<open>Starting and stopping\<close>

text \<open>The results of the system calls of \<^verbatim>\<open>Start\<close>, and the hardware concurrency.\<close>

record start_env =
  se_socket :: int
  se_setsockopt :: int
  se_bind :: int
  se_hardware_concurrency :: nat

text \<open>
  On a failure after \<^verbatim>\<open>socket\<close> the descriptor is closed, but its number stays in \<^verbatim>\<open>sockfd_\<close>.
\<close>

definition Start :: "start_env \<Rightarrow> 's server_impl \<Rightarrow> bool \<times> 's server_impl" where
  "Start env sv =
     (if sv_running sv then (True, sv)
      else
        (let sv1 = sv\<lparr>sv_sockfd := se_socket env\<rparr> in
         if sv_sockfd sv1 < 0 then (False, sv1)
         else if se_setsockopt env < 0 then (False, sv1)
         else if se_bind env < 0 then (False, sv1)
         else (True, sv1\<lparr>
           sv_thread_pool := Some (new_pool (se_hardware_concurrency env) (sv_thread_pool_size sv1)),
           sv_running := True, sv_server_thread := True\<rparr>)))"

text \<open>\<^verbatim>\<open>Stop\<close>, in the case that the shutdown of the pool and the join of the server thread return.\<close>

definition Stop :: "'s server_impl \<Rightarrow> 's server_impl" where
  "Stop sv =
     (if \<not> sv_running sv then sv
      else sv\<lparr>sv_running := False, sv_thread_pool := None,
        sv_sockfd := (if sv_sockfd sv \<ge> 0 then -1 else sv_sockfd sv), sv_server_thread := False\<rparr>)"

definition IsRunning :: "'s server_impl \<Rightarrow> bool" where
  "IsRunning sv =
     (if \<not> sv_running sv then False
      else if sv_sockfd sv < 0 then False
      else if \<not> sv_server_thread sv then False
      else True)"

text \<open>
  One iteration of \<^verbatim>\<open>ServerLoop\<close> with what \<^verbatim>\<open>recvfrom\<close> yields: an error or an empty datagram is
  ignored, a datagram is cut to the buffer and submitted; the exception of a refused submission is
  caught.
\<close>

definition loop_iteration :: "recv_outcome \<Rightarrow> 's server_impl \<Rightarrow> 's server_impl" where
  "loop_iteration r sv = (case r of
       Datagram client_addr bytes \<Rightarrow>
         (let packet_data = take kMaxPacketSize bytes in
          if packet_data = [] then sv
          else (case sv_thread_pool sv of
              None \<Rightarrow> sv
            | Some p \<Rightarrow> if IsShuttingDown p then sv
                else sv\<lparr>sv_thread_pool := Some (snd (Submit (packet_data, client_addr) p))\<rparr>))
     | _ \<Rightarrow> sv)"

fun ServerLoop :: "recv_outcome list \<Rightarrow> 's server_impl \<Rightarrow> 's server_impl" where
  "ServerLoop [] sv = sv"
| "ServerLoop (r # rs) sv = (if sv_running sv then ServerLoop rs (loop_iteration r sv) else sv)"

subsection \<open>Handling a client\<close>

text \<open>
  The result of \<^verbatim>\<open>socket\<close>, and that of \<^verbatim>\<open>bind\<close> for an address. The third component of the state is
  the set of open descriptors. Exceptions are caught at the end of the function, past the
  \<^verbatim>\<open>CLOSESOCKET\<close>.
\<close>

record client_env =
  ce_socket :: int
  ce_bind :: "sockaddr \<Rightarrow> int"

definition serve_request ::
  "'a world server_impl \<Rightarrow> TftpPacket \<Rightarrow> sockaddr \<Rightarrow> 'a world \<times> net \<Rightarrow> unit result \<times> 'a world \<times> net" where
  "serve_request sv packet client_addr s =
     (let (w, n) = s; filename = pk_filename packet in
      if sv_secure_mode sv \<and> \<not> IsPathSecure (w_fs w) filename (sv_root_dir sv) then
        (let (r, n') = SendError client_addr kAccessViolation ''Access denied'' n in (r, w, n'))
      else
        (let filepath = NormalizePath (w_fs w) (sv_root_dir sv @ filename) in
         if pk_op_code packet = kReadRequest then
           apfst (map_sum id (\<lambda>_. ())) (HandleReadRequest (sv_config sv) client_addr filepath (w, n))
         else if pk_op_code packet = kWriteRequest then
           apfst (map_sum id (\<lambda>_. ())) (HandleWriteRequest (sv_config sv) client_addr filepath packet (w, n))
         else
           (let (r, n') = SendError client_addr kIllegalOperation ''Illegal operation'' n in (r, w, n'))))"

definition HandleClient ::
  "client_env \<Rightarrow> 'a world server_impl \<Rightarrow> byte list \<Rightarrow> sockaddr \<Rightarrow> 'a world \<times> net \<times> int set \<Rightarrow>
   'a world \<times> net \<times> int set" where
  "HandleClient env sv initial_packet client_addr s =
     (let (w, n, fds) = s in
      case Deserialize initial_packet new_packet of
        (False, _) \<Rightarrow> (w, n, fds)
      | (True, packet) \<Rightarrow>
          (let client_sock = ce_socket env in
           if client_sock < 0 then (w, n, fds)
           else if ce_bind env (fst client_addr, 0) < 0 then (w, n, fds - {client_sock})
           else (case serve_request sv packet client_addr (w, n) of
               (Inr _, w', n') \<Rightarrow> (w', n', fds - {client_sock})
             | (Inl x, w', n') \<Rightarrow> (w', n', insert client_sock fds))))"

subsection \<open>The life cycle\<close>

text \<open>
  The calls of the application, the receiving thread and the workers, as steps. A datagram is
  submitted when the mutex of the pool is free; the pool is shut down by \<^verbatim>\<open>Stop\<close> only.
\<close>

datatype server_action =
    Starts start_env | Stops | Receives recv_outcome | Configures | Pool_runs "request action"

inductive server_step :: "'s server_impl \<Rightarrow> server_action \<Rightarrow> 's server_impl \<Rightarrow> bool" where
  starts: "server_step sv (Starts env) (snd (Start env sv))"
| stops: "server_step sv Stops (Stop sv)"
| receives: "sv_running sv \<Longrightarrow> list_all lock_free (case sv_thread_pool sv of None \<Rightarrow> [] | Some p \<Rightarrow> [p]) \<Longrightarrow>
    server_step sv (Receives r) (loop_iteration r sv)"
| sets_read: "server_step sv Configures (SetReadCallback rc sv)"
| sets_write: "server_step sv Configures (SetWriteCallback wc sv)"
| sets_secure: "server_step sv Configures (SetSecureMode b sv)"
| sets_size: "server_step sv Configures (SetMaxTransferSize size' sv)"
| sets_timeout: "server_step sv Configures (SetTimeout t sv)"
| sets_pool: "server_step sv Configures (SetThreadPoolSize k sv)"
| pool_runs: "sv_thread_pool sv = Some p \<Longrightarrow> pool_step p a p' \<Longrightarrow>
    a = Notifies_one \<or> (\<exists>i. a = Works i \<or> a = Spurious i) \<Longrightarrow>
    server_step sv (Pool_runs a) (sv\<lparr>sv_thread_pool := Some p'\<rparr>)"

inductive_cases server_stepE [elim]: "server_step sv a sv'"

definition server_init :: "'a world server_impl \<Rightarrow> bool" where
  "server_init sv = (\<exists>hw root_dir port. sv = new_server_impl hw root_dir port)"

definition server_inv :: "'s server_impl \<Rightarrow> bool" where
  "server_inv sv = ((sv_running sv \<longleftrightarrow> sv_server_thread sv) \<and> (sv_running sv \<longrightarrow> sv_sockfd sv \<ge> 0) \<and>
     (case sv_thread_pool sv of
        None \<Rightarrow> \<not> sv_running sv
      | Some p \<Rightarrow> sv_running sv \<and> pool_inv p \<and> \<not> tp_stopping p))"

lemma pool_step_stopping:
  "pool_step p a p' \<Longrightarrow> a = Notifies_one \<or> (\<exists>i. a = Works i \<or> a = Spurious i) \<Longrightarrow>
   tp_stopping p' = tp_stopping p"
  by (erule pool_step.cases) (auto simp: set_worker_def worker_step_def split: worker.splits if_splits list.splits)

lemma new_pool_inv: "pool_inv (new_pool hw k)"
  by (rule pool.inv_init) (auto simp: pool_init_def)

lemma Submit_inv:
  assumes "pool_inv p" and "lock_free p" and "\<not> tp_stopping p"
  shows "pool_inv (snd (Submit t p)) \<and> \<not> tp_stopping (snd (Submit t p))"
  using submit_keeps [OF assms(1,2) surjective_pairing] assms(3) by (simp add: Submit_def)

lemma loop_iteration_inv:
  assumes "server_inv sv" and "list_all lock_free (case sv_thread_pool sv of None \<Rightarrow> [] | Some p \<Rightarrow> [p])"
  shows "server_inv (loop_iteration r sv)"
  using assms
  by (auto simp: server_inv_def loop_iteration_def Let_def Submit_inv split: recv_outcome.splits option.splits)

interpretation server: invariant_system server_init server_step server_inv
proof
  show "server_inv sv" if "server_init sv" for sv :: "'a world server_impl"
    using that by (auto simp: server_init_def new_server_impl_def server_inv_def)
  show "server_inv sv'" if inv: "server_inv sv" and step: "server_step sv a sv'"
    for sv sv' :: "'a world server_impl" and a
    using step
  proof cases
    case receives
    then show ?thesis
      using loop_iteration_inv [OF inv] by blast
  next
    case (pool_runs p b p')
    then show ?thesis
      using inv pool.inv_step [of p b p'] pool_step_stopping [of p b p'] by (auto simp: server_inv_def)
  qed (use inv new_pool_inv in \<open>auto simp: server_inv_def Start_def Stop_def Let_def SetReadCallback_def
      SetWriteCallback_def SetSecureMode_def SetMaxTransferSize_def SetTimeout_def SetThreadPoolSize_def
      new_pool_def split: option.splits\<close>)
qed

subsection \<open>Lemmas on requests\<close>

definition error_reply :: "sockaddr \<Rightarrow> (sockaddr \<times> byte list) list \<Rightarrow> bool" where
  "error_reply addr ds = (ds = [] \<or>
     (\<exists>code msg bs. Serialize (CreateError code msg) = Inr bs \<and> ds = [(addr, bs)]))"

lemma SendError_reply:
  assumes "SendError addr code msg n = (r, n')"
  shows "r = Inr () \<and> (\<exists>es. nt_trace n' = nt_trace n @ es \<and> error_reply addr (delivered es))"
proof -
  obtain bs where bs: "Serialize (CreateError code msg) = Inr bs"
    using Serialize_CreateError by blast
  from error_retry_ok [OF bs, of kMaxRetries addr n]
  obtain n1 b es where "SendError addr code msg n = (Inr (), n1)" "nt_trace n1 = nt_trace n @ es"
    "delivered es = (if b then [(addr, bs)] else [])"
    unfolding SendError_def by metis
  then show ?thesis
    using assms bs by (cases b) (auto simp: error_reply_def)
qed

lemma DefaultReadHandler_file:
  "DefaultReadHandler fs path = Inr (True, data) \<longleftrightarrow>
   (\<exists>loc. resolve fs path = Inr loc \<and> fs_lookup fs loc = Some (File data))"
  by (auto simp: DefaultReadHandler_def split: sum.splits option.splits node.splits)

lemma default_read_request:
  assumes "read_callback cfg = Some default_read"
    and "HandleReadRequest cfg addr path (w, n) = (res, w', n')"
  shows "w' = w \<and> (\<exists>es. nt_trace n' = nt_trace n @ es \<and> (error_reply addr (delivered es) \<or>
    (\<exists>loc data k. resolve (w_fs w) path = Inr loc \<and> fs_lookup (w_fs w) loc = Some (File data) \<and>
       delivered es = map (\<lambda>i. (addr, data_bytes (word_of_nat (Suc i)) (blocks data ! i))) [0..<k])))"
proof (cases "DefaultReadHandler (w_fs w) path")
  case (Inl x)
  then have "w' = w \<and> n' = n"
    using assms by (simp add: HandleReadRequest_def default_read_def)
  then show ?thesis
    by (auto simp: error_reply_def)
next
  case (Inr okd)
  obtain ok data where okd: "okd = (ok, data)"
    by (cases okd)
  have call: "call_read (read_callback cfg) w path = (Inr (ok, data), w)"
    using assms(1) Inr okd by (simp add: default_read_def)
  show ?thesis
  proof (cases "ok \<and> length data \<le> unat (max_transfer_size cfg)")
    case True
    obtain b n1 where se: "send_each (timeout_seconds cfg * 1000) addr 1 (blocks data) n = (b, n1)"
      by (cases "send_each (timeout_seconds cfg * 1000) addr 1 (blocks data) n")
    then have "w' = w" "n' = n1"
      using assms(2) HandleReadRequest_eq [of cfg w path data w addr n] call True by auto
    moreover obtain k es where "k \<le> length (blocks data)" "nt_trace n1 = nt_trace n @ es"
      "delivered es = map (Pair addr) (take k (numbered 1 (blocks data)))"
      using send_each_prefix [OF se] by blast
    moreover have "\<exists>loc. resolve (w_fs w) path = Inr loc \<and> fs_lookup (w_fs w) loc = Some (File data)"
      using Inr okd True DefaultReadHandler_file [of "w_fs w" path data] by simp
    ultimately show ?thesis
      by (auto simp: first_blocks min_def comp_def)
  next
    case False
    then obtain r code msg where "SendError addr code msg n = (r, n')" "w' = w"
      using assms(2) call
      by (cases ok) (auto simp: HandleReadRequest_def split: prod.splits if_splits)
    then show ?thesis
      using SendError_reply by blast
  qed
qed

lemma default_write_request:
  assumes "write_callback cfg = Some default_write"
    and "HandleWriteRequest cfg addr path packet (w, n) = (res, w', n')"
  shows "w' = w \<or> (\<exists>data r. DefaultWriteHandler (w_fs w) path data = (r, w_fs w') \<and> w' = w\<lparr>w_fs := w_fs w'\<rparr>)"
  using assms(2)
proof (cases rule: HandleWriteRequest_cases)
  case (stored data r n1 n2)
  then have "DefaultWriteHandler (w_fs w) path data = (r, w_fs w')" "w' = w\<lparr>w_fs := w_fs w'\<rparr>"
    using assms(1) by (auto simp: default_write_def split: prod.splits)
  then show ?thesis
    by blast
qed simp

lemma default_callbacks_no_exception:
  assumes "read_callback cfg = Some rc" and "write_callback cfg = Some wc"
    and "\<And>st p x st'. rc st p \<noteq> (Inl x, st')" and "\<And>st p d x st'. wc st p d \<noteq> (Inl x, st')"
  shows "HandleReadRequest cfg addr path (st, n) \<noteq> (Inl x, s)"
    and "HandleWriteRequest cfg addr path packet (st, n) \<noteq> (Inl x, s)"
proof -
  show "HandleReadRequest cfg addr path (st, n) \<noteq> (Inl x, s)"
    using assms(1,3)
    by (auto simp: HandleReadRequest_def send_blocks_eq apfst_def map_prod_def
        split: prod.splits sum.splits dest: SendError_unit)
  show "HandleWriteRequest cfg addr path packet (st, n) \<noteq> (Inl x, s)"
  proof
    assume "HandleWriteRequest cfg addr path packet (st, n) = (Inl x, s)"
    then obtain st' n' where "HandleWriteRequest cfg addr path packet (st, n) = (Inl x, st', n')"
      by (cases s) auto
    then show False
      using assms(2,4) by (cases rule: HandleWriteRequest_cases) auto
  qed
qed

subsection \<open>Properties\<close>

lemma HandleClient_served:
  assumes "Deserialize bytes new_packet = (True, packet)" and "0 \<le> ce_socket env"
    and "0 \<le> ce_bind env (fst addr, 0)" and "serve_request sv packet addr (w, n) = (r, w', n')"
  shows "HandleClient env sv bytes addr (w, n, fds) =
    (w', n', (case r of Inr _ \<Rightarrow> fds - {ce_socket env} | Inl _ \<Rightarrow> insert (ce_socket env) fds))"
  using assms by (simp add: HandleClient_def Let_def split: sum.splits)

lemma HandleClient_cases:
  assumes "HandleClient env sv bytes addr (w, n, fds) = (w', n', fds')"
  obtains (ignored) "w' = w" and "n' = n" and "fds' = fds \<or> fds' = fds - {ce_socket env}"
  | (served) packet r where "Deserialize bytes new_packet = (True, packet)"
      and "serve_request sv packet addr (w, n) = (r, w', n')"
      and "fds' = (case r of Inr _ \<Rightarrow> fds - {ce_socket env} | Inl _ \<Rightarrow> insert (ce_socket env) fds)"
proof -
  obtain ok packet where d: "Deserialize bytes new_packet = (ok, packet)"
    by (cases "Deserialize bytes new_packet")
  obtain r w1 n1 where sr: "serve_request sv packet addr (w, n) = (r, w1, n1)"
    by (rule prod_cases3)
  show ?thesis
    using assms d sr ignored served
    by (cases "ok \<and> \<not> ce_socket env < 0 \<and> \<not> ce_bind env (fst addr, 0) < 0"; cases r)
      (auto simp: HandleClient_def Let_def split: if_splits bool.splits)
qed

lemma serve_request_cases:
  assumes "serve_request sv packet addr (w, n) = (res, w', n')"
  obtains (replied) code msg r where "SendError addr code msg n = (r, n')" and "w' = w"
  | (read) q where "HandleReadRequest (sv_config sv) addr
        (NormalizePath (w_fs w) (sv_root_dir sv @ pk_filename packet)) (w, n) = (q, w', n')"
      and "\<not> sv_secure_mode sv \<or> IsPathSecure (w_fs w) (pk_filename packet) (sv_root_dir sv)"
  | (written) q where "HandleWriteRequest (sv_config sv) addr
        (NormalizePath (w_fs w) (sv_root_dir sv @ pk_filename packet)) packet (w, n) = (q, w', n')"
      and "\<not> sv_secure_mode sv \<or> IsPathSecure (w_fs w) (pk_filename packet) (sv_root_dir sv)"
      and "pk_op_code packet = kWriteRequest"
  using assms
  by (auto simp: serve_request_def Let_def apfst_def map_prod_def split: prod.splits if_splits)

lemma HandleClient_files:
  assumes "read_callback (sv_config sv) = Some default_read" and "write_callback (sv_config sv) = Some default_write"
    and "HandleClient env sv bytes addr (w, n, fds) = (w', n', fds')"
  obtains (unchanged) "w' = w"
  | (stored) filename data res where "\<not> sv_secure_mode sv \<or> IsPathSecure (w_fs w) filename (sv_root_dir sv)"
      and "DefaultWriteHandler (w_fs w) (NormalizePath (w_fs w) (sv_root_dir sv @ filename)) data = (res, w_fs w')"
      and "w_app w' = w_app w"
  using assms(3)
proof (cases rule: HandleClient_cases)
  case (served packet res)
  from served(2) show ?thesis
  proof (cases rule: serve_request_cases)
    case (read q)
    then show ?thesis
      using default_read_request [OF assms(1) read(1)] unchanged by blast
  next
    case (written q)
    from default_write_request [OF assms(2) written(1)] show ?thesis
    proof
      assume "\<exists>data r. DefaultWriteHandler (w_fs w) (NormalizePath (w_fs w) (sv_root_dir sv @ pk_filename packet)) data =
          (r, w_fs w') \<and> w' = w\<lparr>w_fs := w_fs w'\<rparr>"
      moreover have "w_app (w\<lparr>w_fs := fs\<rparr>) = w_app w" for fs
        by simp
      ultimately show ?thesis
        using stored written(2) by metis
    qed (rule unchanged)
  qed (rule unchanged)
qed (rule unchanged)

text \<open>
  C15. A secure server with the default callback for reading gives away only files below its root
  directory, whatever datagram arrives: what is sent for it is at most one error packet, or a prefix of the
  blocks of one file whose location lies in the root directory, or, for a write request only,
  acknowledgements and error packets, which carry nothing of any file. Nothing is changed but by a write request.
\<close>

theorem secure_server_reads:
  assumes "root_at (w_fs w) (sv_root_dir sv) r" and "NUL \<notin> set (sv_root_dir sv)" and "sv_secure_mode sv"
    and "read_callback (sv_config sv) = Some default_read"
    and "HandleClient env sv bytes addr (w, n, fds) = (w', n', fds')"
  shows "\<exists>es. nt_trace n' = nt_trace n @ es \<and>
    (w' = w \<and> error_reply addr (delivered es) \<or>
     w' = w \<and> (\<exists>loc data k. prefix r loc \<and> fs_lookup (w_fs w) loc = Some (File data) \<and>
       delivered es = map (\<lambda>i. (addr, data_bytes (word_of_nat (Suc i)) (blocks data ! i))) [0..<k]) \<or>
     (\<exists>packet. Deserialize bytes new_packet = (True, packet) \<and> pk_op_code packet = kWriteRequest) \<and>
       list_all is_reply (delivered es))"
  using assms(5)
proof (cases rule: HandleClient_cases)
  case ignored
  then show ?thesis
    by (auto simp: error_reply_def)
next
  case (served packet res)
  let ?path = "NormalizePath (w_fs w) (sv_root_dir sv @ pk_filename packet)"
  from served(2) show ?thesis
  proof (cases rule: serve_request_cases)
    case (replied code msg q)
    then show ?thesis
      using SendError_reply by blast
  next
    case (read q)
    from default_read_request [OF assms(4) read(1)] show ?thesis
      using secure_lookup_confined [OF assms(1)] read(2) assms(3) by blast
  next
    case (written q)
    then show ?thesis
      using HandleWriteRequest_replies [OF written(1)] served(1) by (auto simp: replies_def)
  qed
qed

definition server_example :: "unit world server_impl" where
  "server_example = new_server_impl 4 ''/srv/tftp'' 69"

definition env_ok :: client_env where
  "env_ok = \<lparr>ce_socket = 7, ce_bind = (\<lambda>_. 0)\<rparr>"

definition rrq_bytes :: "string \<Rightarrow> byte list" where
  "rrq_bytes f = put16 1 @ put_string f @ put_string ''octet''"

definition wrq_bytes :: "string \<Rightarrow> byte list" where
  "wrq_bytes f = put16 2 @ put_string f @ put_string ''octet''"

theorem secure_server_reads_witness:
  "\<exists>n' fds' es. HandleClient env_ok server_example (rrq_bytes ''cur'') client (world_example, net_with [], {}) =
     (world_example, n', fds') \<and> nt_trace n' = es \<and>
     (error_reply client (delivered es) \<or> (\<exists>loc data k. prefix [''srv'', ''tftp''] loc \<and>
        fs_lookup (w_fs world_example) loc = Some (File data) \<and>
        delivered es = map (\<lambda>i. (client, data_bytes (word_of_nat (Suc i)) (blocks data ! i))) [0..<k]))"
proof -
  have root: "root_at (w_fs world_example) (sv_root_dir server_example) [''srv'', ''tftp'']"
      "NUL \<notin> set (sv_root_dir server_example)" "sv_secure_mode server_example"
    and packet: "Deserialize (rrq_bytes ''cur'') new_packet = (True, CreateReadRequest ''cur'' kOctet)"
      "pk_op_code (CreateReadRequest ''cur'' kOctet) \<noteq> kWriteRequest"
    by code_simp+
  have cfg: "read_callback (sv_config server_example) = Some default_read"
    by (simp add: server_example_def new_server_impl_def default_config_def)
  obtain w' n' fds' where run: "HandleClient env_ok server_example (rrq_bytes ''cur'') client
      (world_example, net_with [], {}) = (w', n', fds')"
    by (rule prod_cases3)
  have "nt_trace (net_with []) = []"
    by (simp add: net_with_def)
  with secure_server_reads [OF root cfg run] show ?thesis
    using run packet by fastforce
qed

lemma serve_request_no_exception:
  assumes "\<And>path x s. HandleReadRequest (sv_config sv) addr path (w, n) \<noteq> (Inl x, s)"
    and "\<And>path x s. HandleWriteRequest (sv_config sv) addr path packet (w, n) \<noteq> (Inl x, s)"
  shows "serve_request sv packet addr (w, n) \<noteq> (Inl x, s)"
proof -
  let ?path = "NormalizePath (w_fs w) (sv_root_dir sv @ pk_filename packet)"
  obtain n1 n2 where "SendError addr kAccessViolation ''Access denied'' n = (Inr (), n1)"
    "SendError addr kIllegalOperation ''Illegal operation'' n = (Inr (), n2)"
    using SendError_ok by metis
  moreover have "apfst (map_sum id (\<lambda>_. ())) (HandleReadRequest (sv_config sv) addr ?path (w, n)) \<noteq> (Inl x, s)"
    by (cases "HandleReadRequest (sv_config sv) addr ?path (w, n)") (use assms(1) in auto)
  moreover have "apfst (map_sum id (\<lambda>_. ())) (HandleWriteRequest (sv_config sv) addr ?path packet (w, n)) \<noteq> (Inl x, s)"
    by (cases "HandleWriteRequest (sv_config sv) addr ?path packet (w, n)") (use assms(2) in auto)
  ultimately show ?thesis
    by (simp add: serve_request_def Let_def)
qed

text \<open>
  C23. The socket of a client is closed again: if the callbacks do not throw, handling any datagram
  leaves the set of open descriptors as it was before the socket was created, on every path.
\<close>

theorem client_socket_closed:
  assumes "read_callback (sv_config sv) = Some rc" and "write_callback (sv_config sv) = Some wc"
    and "\<forall>st p. \<exists>r st'. rc st p = (Inr r, st')" and "\<forall>st p d. \<exists>r st'. wc st p d = (Inr r, st')"
    and "ce_socket env \<notin> fds" and "HandleClient env sv bytes addr (w, n, fds) = (w', n', fds')"
  shows "fds' = fds"
  using assms(6)
proof (cases rule: HandleClient_cases)
  case (served packet r)
  have rc: "rc st p \<noteq> (Inl x, st')" and wc: "wc st p d \<noteq> (Inl x, st')" for st p d x st'
    using assms(3,4) by (metis Inl_Inr_False fst_conv)+
  have "r \<noteq> Inl x" for x
    using served(2) serve_request_no_exception [OF default_callbacks_no_exception [OF assms(1,2) rc wc]] by blast
  then show ?thesis
    using served(3) assms(5) by (cases r) auto
qed (use assms(5) in auto)

definition quiet_server :: "unit world server_impl" where
  "quiet_server = SetReadCallback (Some (\<lambda>w p. (Inr (False, []), w)))
     (SetWriteCallback (Some (\<lambda>w p d. (Inr True, w))) server_example)"

theorem client_socket_closed_witness:
  "\<exists>w' n'. HandleClient env_ok quiet_server (rrq_bytes ''cur'') client (world_example, net_with [], {3}) =
     (w', n', {3})"
proof -
  obtain w' n' fds' where run: "HandleClient env_ok quiet_server (rrq_bytes ''cur'') client
      (world_example, net_with [], {3}) = (w', n', fds')"
    by (rule prod_cases3)
  have cfg: "read_callback (sv_config quiet_server) = Some (\<lambda>w p. (Inr (False, []), w))"
    "write_callback (sv_config quiet_server) = Some (\<lambda>w p d. (Inr True, w))"
    by (simp_all add: quiet_server_def SetReadCallback_def SetWriteCallback_def)
  have "ce_socket env_ok \<notin> {3}"
    by (simp add: env_ok_def)
  then show ?thesis
    using client_socket_closed [OF cfg _ _ _ run] run by auto
qed

text \<open>
  A callback that throws leaks the socket: the exception is caught at the end of the function,
  past the call that closes the descriptor.
\<close>

lemma throwing_callback_leaks_socket:
  assumes "Deserialize bytes new_packet = (True, packet)" and "pk_op_code packet = kReadRequest"
    and "\<not> sv_secure_mode sv" and "0 \<le> ce_socket env" and "0 \<le> ce_bind env (fst addr, 0)"
    and "call_read (read_callback (sv_config sv)) w
      (NormalizePath (w_fs w) (sv_root_dir sv @ pk_filename packet)) = (Inl x, w')"
  shows "HandleClient env sv bytes addr (w, n, fds) = (w', n, insert (ce_socket env) fds)"
proof -
  have "serve_request sv packet addr (w, n) = (Inl x, w', n)"
    using assms(2,3,6) by (simp add: serve_request_def HandleReadRequest_def)
  from HandleClient_served [OF assms(1,4,5) this] show ?thesis
    by simp
qed

definition throwing_server :: "unit world server_impl" where
  "throwing_server = SetReadCallback (Some (\<lambda>w p. (Inl (RuntimeError ''backend''), w)))
     (SetSecureMode False server_example)"

text \<open>
  C30. Names that fail the check are refused: in secure mode such a request, whatever its operation,
  leaves the files alone and is answered with an Access violation, which a network that sends
  delivers as one packet.
\<close>

theorem insecure_name_refused:
  assumes "sv_secure_mode sv" and "Deserialize bytes new_packet = (True, packet)"
    and "\<not> IsPathSecure (w_fs w) (pk_filename packet) (sv_root_dir sv)"
    and "0 \<le> ce_socket env" and "0 \<le> ce_bind env (fst addr, 0)" and "reliable n"
    and "Serialize (CreateError kAccessViolation ''Access denied'') = Inr bs"
  shows "HandleClient env sv bytes addr (w, n, fds) = (w, deliver addr bs n, fds - {ce_socket env})"
proof -
  have "SendError addr kAccessViolation ''Access denied'' n = (Inr (), deliver addr bs n)"
    by (rule reliable_SendError [OF assms(6,7)])
  then have "serve_request sv packet addr (w, n) = (Inr (), w, deliver addr bs n)"
    using assms(1,3) by (simp add: serve_request_def)
  from HandleClient_served [OF assms(2,4,5) this] show ?thesis
    by simp
qed

theorem insecure_name_refused_witness:
  "\<exists>bs. HandleClient env_ok server_example (wrq_bytes ''../passwd'') client (world_example, net_with [], {}) =
     (world_example, deliver client bs (net_with []), {})"
proof -
  obtain bs where bs: "Serialize (CreateError kAccessViolation ''Access denied'') = Inr bs"
    using Serialize_CreateError by blast
  have req: "sv_secure_mode server_example"
      "Deserialize (wrq_bytes ''../passwd'') new_packet = (True, CreateWriteRequest ''../passwd'' kOctet)"
      "\<not> IsPathSecure (w_fs world_example) (pk_filename (CreateWriteRequest ''../passwd'' kOctet)) (sv_root_dir server_example)"
    by code_simp+
  have env: "0 \<le> ce_socket env_ok" "0 \<le> ce_bind env_ok (fst client, 0)" "reliable (net_with [])"
    by (simp_all add: env_ok_def reliable_def net_with_def)
  show ?thesis
    using insecure_name_refused [OF req env bs, of "{}"] by auto
qed

text \<open>
  C40. Remote clients are ignored: the socket for the transfer is bound to the address of the
  client, so where \<^verbatim>\<open>bind\<close> fails for addresses that are not local, a request from such an address has
  no effect at all, not even an error reply.
\<close>

theorem remote_client_ignored:
  assumes "\<forall>ip. \<not> local_ip ip \<longrightarrow> ce_bind env (ip, 0) < 0" and "\<not> local_ip (fst addr)"
    and "ce_socket env \<notin> fds"
  shows "HandleClient env sv bytes addr (w, n, fds) = (w, n, fds)"
  using assms by (auto simp: HandleClient_def Let_def split: prod.splits bool.splits)

definition env_local :: client_env where
  "env_local = \<lparr>ce_socket = 7, ce_bind = (\<lambda>(ip, port). if ip = 2130706433 then 0 else -1)\<rparr>"

theorem remote_client_ignored_witness:
  "HandleClient env_local server_example (rrq_bytes ''fw.bin'') client (world_example, net_with [], {3}) =
   (world_example, net_with [], {3})"
  using remote_client_ignored [where local_ip = "\<lambda>ip. ip = 2130706433" and env = env_local and fds = "{3}"
      and addr = client]
  by (simp add: env_local_def client_def)

text \<open>Whether the server should be running after a sequence of actions, given whether it was before.\<close>

fun running_after :: "bool \<Rightarrow> server_action list \<Rightarrow> bool" where
  "running_after b [] = b"
| "running_after b (Starts env # as) =
     running_after (b \<or> 0 \<le> se_socket env \<and> 0 \<le> se_setsockopt env \<and> 0 \<le> se_bind env) as"
| "running_after b (Stops # as) = running_after False as"
| "running_after b (_ # as) = running_after b as"

lemma step_running: "server_step sv a sv' \<Longrightarrow> sv_running sv' = running_after (sv_running sv) [a]"
  by (induction rule: server_step.induct)
    (auto simp: Start_def Stop_def loop_iteration_def Let_def SetReadCallback_def SetWriteCallback_def SetSecureMode_def
      SetMaxTransferSize_def SetTimeout_def SetThreadPoolSize_def split: recv_outcome.splits option.splits)

lemma running_after_Cons: "running_after b (a # as) = running_after (running_after b [a]) as"
  by (cases a) simp_all

lemma run_running: "run server_step sv as sv' \<Longrightarrow> sv_running sv' = running_after (sv_running sv) as"
proof (induction rule: run.induct)
  case (run_cons sv a sv1 as sv2)
  then show ?case
    using step_running [OF run_cons.hyps(1)] running_after_Cons [of "sv_running sv" a as] by simp
qed simp

text \<open>
  C22. Life cycle, over every sequence of calls of the interface, arriving datagrams, results of
  \<^verbatim>\<open>recvfrom\<close>, changes of the configuration and steps of the workers, from the construction of the
  server on: it reports that it is running if and only if a call of \<^verbatim>\<open>Start\<close> whose three system calls
  succeeded has not been followed by a call of \<^verbatim>\<open>Stop\<close>, so nothing else starts or stops it. While it is
  running, and only then, it has a pool, which is up with 1 to 64 workers, and a thread, and its socket is valid;
  a start reports whether the server is running after it.
\<close>

theorem server_lifecycle:
  assumes "server_init sv0" and "run server_step sv0 as sv"
  shows "IsRunning sv = running_after False as \<and>
    (if IsRunning sv
     then 0 \<le> sv_sockfd sv \<and> sv_server_thread sv \<and> (\<exists>p. sv_thread_pool sv = Some p \<and> \<not> IsShuttingDown p \<and>
       1 \<le> GetThreadCount p \<and> GetThreadCount p \<le> 64)
     else \<not> sv_running sv \<and> \<not> sv_server_thread sv \<and> sv_thread_pool sv = None) \<and>
    fst (Start env sv) = running_after False (as @ [Starts env]) \<and>
    IsRunning (snd (Start env sv)) = fst (Start env sv) \<and> \<not> IsRunning (Stop sv)"
proof -
  have inv: "server_inv sv"
    using server.run_inv [OF assms(2)] server.inv_init [OF assms(1)] .
  have off: "\<not> sv_running sv0"
    using assms(1) by (auto simp: server_init_def new_server_impl_def)
  then have now: "sv_running sv = running_after False as"
    using run_running [OF assms(2)] by simp
  have "run server_step sv0 (as @ [Starts env]) (snd (Start env sv))"
    by (rule run_append [OF assms(2)]) (simp add: starts)
  then have start: "sv_running (snd (Start env sv)) = running_after False (as @ [Starts env])"
    using run_running off by fastforce
  have report: "fst (Start env sv) = sv_running (snd (Start env sv))"
    by (simp add: Start_def Let_def)
  have "IsRunning sv' = sv_running sv'" if "server_inv sv'" for sv' :: "'a world server_impl"
    using that by (auto simp: server_inv_def IsRunning_def)
  moreover have "server_inv (snd (Start env sv))" "server_inv (Stop sv)"
    by (rule server.inv_step [OF inv] | rule starts | rule stops)+
  ultimately have "IsRunning sv = sv_running sv" "IsRunning (snd (Start env sv)) = fst (Start env sv)" "\<not> IsRunning (Stop sv)"
    using inv report by (auto simp: Stop_def)
  moreover have "\<exists>p. sv_thread_pool sv = Some p \<and> \<not> IsShuttingDown p \<and> 1 \<le> GetThreadCount p \<and> GetThreadCount p \<le> 64"
    if "sv_running sv"
    using inv that by (auto simp: server_inv_def IsShuttingDown_def GetThreadCount_def pool_inv_def inv_count_def split: option.splits)
  ultimately show ?thesis
    using inv now start report by (auto simp: server_inv_def split: option.splits)
qed

definition start_ok :: start_env where
  "start_ok = \<lparr>se_socket = 3, se_setsockopt = 0, se_bind = 0, se_hardware_concurrency = 8\<rparr>"

theorem server_lifecycle_witness:
  "\<exists>sv. run server_step server_example [Starts start_ok, Receives Recv_error] sv \<and> IsRunning sv \<and> \<not> IsRunning (Stop sv)"
proof -
  have init: "server_init server_example"
    by (auto simp: server_init_def server_example_def)
  let ?sv = "snd (Start start_ok server_example)"
  have "sv_running ?sv" "list_all lock_free (case sv_thread_pool ?sv of None \<Rightarrow> [] | Some p \<Rightarrow> [p])"
    by (simp_all add: Start_def server_example_def new_server_impl_def start_ok_def Let_def new_pool_def lock_free_def list_all_iff)
  then have "run server_step server_example [Starts start_ok, Receives Recv_error] (loop_iteration Recv_error ?sv)"
    using starts [of server_example start_ok] receives [of ?sv Recv_error] by auto
  then show ?thesis
    using server_lifecycle [OF init, of "[Starts start_ok, Receives Recv_error]" _ start_ok] by (auto simp: start_ok_def)
qed

text \<open>
  A root directory whose name ends with a backslash is kept as it is, also where the backslash is an
  ordinary character. The name of a request is then checked against the directory, but appended to
  its name without a separator: the file is stored outside of it.
\<close>

definition fs_backslash :: filesystem where
  "fs_backslash = \<lparr>fs_nodes = [([''data'' @ [CHR 92]], Dir)], fs_cwd = [], fs_dir_read = None\<rparr>"

lemma backslash_root_escapes:
  "let sv = new_server_impl 1 (''/data'' @ [CHR 92]) 69 :: unit world server_impl;
       path = NormalizePath fs_backslash (sv_root_dir sv @ ''log'') in
   fs_ok fs_backslash \<and> resolve fs_backslash (sv_root_dir sv) = Inr [''data'' @ [CHR 92]] \<and>
   IsPathSecure fs_backslash ''log'' (sv_root_dir sv) \<and>
   fst (DefaultWriteHandler fs_backslash path [7]) = Inr True \<and>
   fs_lookup (snd (DefaultWriteHandler fs_backslash path [7])) [''data'' @ [CHR 92] @ ''log''] = Some (File [7])"
  by (simp add: new_server_impl_def with_slash_def) code_simp

text \<open>
  A running server loses no datagram: in every such state, the loop appends each datagram that
  is not empty to the queue of the pool, cut to 516 bytes, behind those already there.
\<close>

lemma datagram_queued:
  assumes "reach server_init server_step sv" and "IsRunning sv" and "bytes \<noteq> []"
  shows "\<exists>p p'. sv_thread_pool sv = Some p \<and>
    sv_thread_pool (loop_iteration (Datagram addr bytes) sv) = Some p' \<and>
    tp_tasks p' = tp_tasks p @ [(take kMaxPacketSize bytes, addr)]"
proof -
  have inv: "server_inv sv"
    by (rule server.reach_inv [OF assms(1)])
  then obtain p where "sv_thread_pool sv = Some p" "\<not> tp_stopping p"
    using assms(2) by (auto simp: server_inv_def IsRunning_def split: option.splits if_splits)
  then show ?thesis
    using assms(3) by (auto simp: loop_iteration_def Let_def Submit_def IsShuttingDown_def kMaxPacketSize_def)
qed

end
