(* ===== verification/Tftp_Pool_Effort.thy ===== *)
theory Tftp_Pool_Effort
  imports Tftp_Thread_Pool
begin

section \<open>The steps that are left to a pool\<close>

text \<open>
  A measure of the steps that the workers of a pool make before they wait: every step of a worker
  decreases it, a notification increases it by at most 3.
\<close>

text \<open>A worker that is about to take a task finds one, or the pool is stopping.\<close>

definition taking_ok :: "'task pool \<Rightarrow> bool" where
  "taking_ok p = (Taking \<in> set (tp_workers p) \<longrightarrow> tp_tasks p \<noteq> [] \<or> tp_stopping p)"

lemma taking_alone:
  assumes "pool_inv p" and "i < length (tp_workers p)" and "tp_workers p ! i = Taking"
  shows "Taking \<notin> set ((tp_workers p)[i := Got t])"
proof -
  obtain a b where ws: "tp_workers p = a @ Taking # b" and upd: "\<forall>w. (tp_workers p)[i := w] = a @ w # b"
    using update_split [OF assms(2)] assms(3) by metis
  have "length (filter holds_lock (a @ Taking # b)) \<le> 1"
    using assms(1) ws by (simp add: pool_inv_def inv_lock_def)
  then have "filter holds_lock a = []" "filter holds_lock b = []"
    by auto
  then show ?thesis
    by (auto simp: upd filter_empty_conv)
qed

lemma taking_ok_step:
  assumes "pool_inv p" and "taking_ok p" and "pool_step p a p'"
  shows "taking_ok p'"
  using assms(3)
proof cases
  case (works i)
  have new: "Taking \<notin> set (tp_workers p) \<Longrightarrow> w \<noteq> Taking \<Longrightarrow> Taking \<notin> set ((tp_workers p)[i := w])" for w
    using set_update_subset_insert [of "tp_workers p" i w] by auto
  show ?thesis
    using works assms(2) new taking_alone [OF assms(1) works(2)]
    by (cases "tp_workers p ! i")
      (auto simp: taking_ok_def worker_step_def set_worker_def split: if_splits list.splits)
next
  case (notifies_one k i)
  then show ?thesis
    using assms(2) set_update_subset_insert [of "tp_workers p" i Woken]
    by (auto simp: taking_ok_def set_worker_def)
next
  case (spurious i)
  then show ?thesis
    using assms(2) set_update_subset_insert [of "tp_workers p" i Woken]
    by (auto simp: taking_ok_def set_worker_def)
next
  case notifies_all
  then show ?thesis
    using assms(1) by (auto simp: taking_ok_def pool_inv_def inv_phase_def)
next
  case clears
  then show ?thesis
    using assms(1) by (auto simp: taking_ok_def pool_inv_def inv_phase_def)
qed (use assms(2) in \<open>auto simp: taking_ok_def Submit_def split: if_splits\<close>)

subsection \<open>Effort\<close>

fun worker_rank :: "'task worker \<Rightarrow> nat" where
  "worker_rank At_loop = 4"
| "worker_rank At_lock = 3"
| "worker_rank Checking = 2"
| "worker_rank Going_to_sleep = 1"
| "worker_rank Blocked = 0"
| "worker_rank Woken = 3"
| "worker_rank Taking = 1"
| "worker_rank (Got t) = 6"
| "worker_rank (Running t) = 5"
| "worker_rank Exited = 0"

fun phase_rank :: "phase \<Rightarrow> nat" where
  "phase_rank Up = 201"
| "phase_rank Flagged = 200"
| "phase_rank Joining = 2"
| "phase_rank Joined = 1"
| "phase_rank Down = 0"

definition pool_effort :: "'task pool \<Rightarrow> nat" where
  "pool_effort p = phase_rank (tp_phase p) + 10 * length (tp_tasks p) + sum_list (map worker_rank (tp_workers p))"

lemma worker_effort:
  assumes "taking_ok p" and "i < length (tp_workers p)" and "worker_step i p = Some p'"
  shows "pool_effort p' < pool_effort p"
proof -
  obtain a w b where ws: "tp_workers p = a @ w # b" and nth: "tp_workers p ! i = w"
    and upd: "\<forall>v. (tp_workers p)[i := v] = a @ v # b"
    by (metis update_split [OF assms(2)])
  have "w = Taking \<Longrightarrow> tp_tasks p \<noteq> [] \<or> tp_stopping p"
    using assms(1) by (auto simp: taking_ok_def ws)
  then show ?thesis
    using assms(3) [unfolded worker_step_def nth]
    by (cases w) (auto simp: pool_effort_def set_worker_def upd ws [symmetric] split: if_splits list.splits,
      auto simp: ws)
qed

lemma woken_effort:
  assumes "i < length (tp_workers p)" and "tp_workers p ! i = Blocked"
  shows "pool_effort (set_worker i Woken (p\<lparr>tp_notifies := k\<rparr>)) = pool_effort p + 3"
proof -
  obtain a b where "tp_workers p = a @ Blocked # b" and "\<forall>w. (tp_workers p)[i := w] = a @ w # b"
    using update_split [OF assms(1)] assms(2) by metis
  then show ?thesis
    by (simp add: pool_effort_def set_worker_def)
qed

lemma wake_effort: "sum_list (map worker_rank (map wake ws)) \<le> sum_list (map worker_rank ws) + 3 * length ws"
proof (induction ws)
  case (Cons w ws)
  then show ?case
    by (cases w) (auto simp: wake_def)
qed simp

lemma shutdown_effort:
  assumes "pool_inv p" and "pool_step p a p'" and "a = Shuts_down \<or> a = Notifies_all \<or> a = Joins \<or> a = Clears"
  shows "pool_effort p' < pool_effort p"
  using assms(2)
proof cases
  case notifies_all
  have "length (tp_workers p) \<le> 64"
    using assms(1) by (simp add: pool_inv_def inv_count_def)
  then show ?thesis
    using notifies_all wake_effort [of "tp_workers p"] by (simp add: pool_effort_def)
qed (use assms(3) in \<open>auto simp: pool_effort_def\<close>)

lemma notify_effort:
  assumes "pool_step p Notifies_one p'"
  shows "pool_effort p' \<le> pool_effort p + 3"
  using assms
proof cases
  case (notifies_one k i)
  then show ?thesis
    using woken_effort by (metis order_refl)
qed (simp add: pool_effort_def)

end
