(* ===== verification/Tftp_Shutdown.thy ===== *)
theory Tftp_Shutdown
  imports Tftp_Server_Impl Tftp_Pool_Effort
begin

section \<open>Stopping the server\<close>

text \<open>
  \<^verbatim>\<open>Stop\<close> is called by one or more threads of the application while the server thread runs
  \<^verbatim>\<open>ServerLoop\<close> and the workers of the pool run their tasks (\<^verbatim>\<open>src/internal/tftp_server_impl.cpp\<close>).
  This theory interleaves these threads: a step is one access to \<^verbatim>\<open>running_\<close>, to \<^verbatim>\<open>sockfd_\<close> (the test and
  the argument of \<^verbatim>\<open>CLOSESOCKET\<close> are two), to the server thread, to \<^verbatim>\<open>thread_pool_mutex_\<close>, or one step of the pool. The states of the threads that
  call \<^verbatim>\<open>Stop\<close> are kept in a list. Closing the socket may or may not interrupt a \<^verbatim>\<open>recvfrom\<close> that is
  waiting on it, which is a parameter: it does with Winsock, it does not on Linux.
\<close>

subsection \<open>The threads\<close>

datatype caller =
    Stop_check      \<comment> \<open>before \<^verbatim>\<open>if (!running_)\<close>\<close>
  | Stop_store      \<comment> \<open>before \<^verbatim>\<open>running_ = false\<close>\<close>
  | Stop_lock       \<comment> \<open>before locking \<^verbatim>\<open>thread_pool_mutex_\<close>\<close>
  | Stop_pool       \<comment> \<open>mutex held, before \<^verbatim>\<open>if (thread_pool_)\<close>\<close>
  | Stop_shutdown   \<comment> \<open>mutex held, in \<^verbatim>\<open>Shutdown\<close> after the exchange\<close>
  | Stop_reset      \<comment> \<open>mutex held, before \<^verbatim>\<open>thread_pool_.reset()\<close>\<close>
  | Stop_close      \<comment> \<open>before \<^verbatim>\<open>if (sockfd_ >= 0)\<close>\<close>
  | Stop_closesocket  \<comment> \<open>before \<^verbatim>\<open>CLOSESOCKET(sockfd_)\<close>\<close>
  | Stop_forget     \<comment> \<open>closed, before \<^verbatim>\<open>sockfd_ = -1\<close>\<close>
  | Stop_joinable   \<comment> \<open>before \<^verbatim>\<open>if (server_thread_.joinable())\<close>\<close>
  | Stop_join       \<comment> \<open>before \<^verbatim>\<open>server_thread_.join()\<close>\<close>
  | Stop_wait       \<comment> \<open>in \<^verbatim>\<open>server_thread_.join()\<close>, waiting for the thread\<close>
  | Stop_done
  | Stop_ignored    \<comment> \<open>returned at once, as \<^verbatim>\<open>running_\<close> was false\<close>
  | Stop_thrown     \<comment> \<open>left by an exception of \<^verbatim>\<open>join\<close>\<close>

datatype receiver =
    Loop_test             \<comment> \<open>before \<^verbatim>\<open>while (running_)\<close>\<close>
  | Loop_call             \<comment> \<open>before \<^verbatim>\<open>recvfrom\<close>\<close>
  | Loop_recv int         \<comment> \<open>waiting in \<^verbatim>\<open>recvfrom\<close> on the descriptor\<close>
  | Loop_lock request     \<comment> \<open>before locking \<^verbatim>\<open>thread_pool_mutex_\<close>\<close>
  | Loop_pool request     \<comment> \<open>mutex held, before testing the pool\<close>
  | Loop_submit request   \<comment> \<open>mutex held, before \<^verbatim>\<open>Submit\<close>\<close>
  | Loop_notify           \<comment> \<open>mutex held, in \<^verbatim>\<open>Submit\<close> before \<^verbatim>\<open>notify_one\<close>\<close>
  | Loop_exit

datatype holder = By_caller nat | By_loop

text \<open>
  The members of the server and the states of the threads. The last four components are the
  descriptors that are open, the calls of \<^verbatim>\<open>close\<close> and the waiting calls of \<^verbatim>\<open>join\<close> that were made, and how often the
  \<^verbatim>\<open>catch\<close> around \<^verbatim>\<open>Submit\<close> was entered.
\<close>

record 's stop_state =
  st_sv :: "'s server_impl"
  st_mutex :: "holder option"
  st_callers :: "caller list"
  st_loop :: receiver
  st_open :: "int set"
  st_closed :: "int list"
  st_joins :: nat
  st_refused :: nat

definition set_caller :: "nat \<Rightarrow> caller \<Rightarrow> 's stop_state \<Rightarrow> 's stop_state" where
  "set_caller c pc st = st\<lparr>st_callers := (st_callers st)[c := pc]\<rparr>"

definition set_pool :: "request pool option \<Rightarrow> 's stop_state \<Rightarrow> 's stop_state" where
  "set_pool p st = st\<lparr>st_sv := (st_sv st)\<lparr>sv_thread_pool := p\<rparr>\<rparr>"

definition the_pool :: "'s stop_state \<Rightarrow> request pool option" where
  "the_pool st = sv_thread_pool (st_sv st)"

datatype stop_action =
    Caller nat | Loop | Recv recv_outcome | Worker nat | Worker_spurious nat

text \<open>
  A step of a thread in \<^verbatim>\<open>Stop\<close>, as far as it does not touch the pool. Calling \<^verbatim>\<open>join\<close> on a thread that is not
  joinable any more throws, and the exception leaves \<^verbatim>\<open>Stop\<close>. A call while another one waits in \<^verbatim>\<open>join\<close> is a
  race, of which C++ says nothing; here it is taken to throw as well, as \<^verbatim>\<open>pthread_join\<close> refuses a second waiter.
  Between its test and its use \<^verbatim>\<open>sockfd_\<close> may become \<open>-1\<close>; closing that has no effect.
\<close>

definition caller_step :: "nat \<Rightarrow> 's stop_state \<Rightarrow> 's stop_state option" where
  "caller_step c st = (let sv = st_sv st in case st_callers st ! c of
       Stop_check \<Rightarrow> Some (set_caller c (if sv_running sv then Stop_store else Stop_ignored) st)
     | Stop_store \<Rightarrow> Some (set_caller c Stop_lock (st\<lparr>st_sv := sv\<lparr>sv_running := False\<rparr>\<rparr>))
     | Stop_lock \<Rightarrow> if st_mutex st = None
         then Some (set_caller c Stop_pool (st\<lparr>st_mutex := Some (By_caller c)\<rparr>)) else None
     | Stop_pool \<Rightarrow> (case sv_thread_pool sv of
           None \<Rightarrow> Some (set_caller c Stop_close (st\<lparr>st_mutex := None\<rparr>))
         | Some p \<Rightarrow> if tp_stopping p then Some (set_caller c Stop_reset st) else None)
     | Stop_shutdown \<Rightarrow> None
     | Stop_reset \<Rightarrow> Some (set_caller c Stop_close (set_pool None (st\<lparr>st_mutex := None\<rparr>)))
     | Stop_close \<Rightarrow> Some (set_caller c (if sv_sockfd sv \<ge> 0 then Stop_closesocket else Stop_joinable) st)
     | Stop_closesocket \<Rightarrow> Some (set_caller c Stop_forget (st\<lparr>st_open := st_open st - {sv_sockfd sv},
         st_closed := sv_sockfd sv # st_closed st\<rparr>))
     | Stop_forget \<Rightarrow> Some (set_caller c Stop_joinable (st\<lparr>st_sv := sv\<lparr>sv_sockfd := -1\<rparr>\<rparr>))
     | Stop_joinable \<Rightarrow> Some (set_caller c (if sv_server_thread sv then Stop_join else Stop_done) st)
     | Stop_join \<Rightarrow> if \<not> sv_server_thread sv \<or> Stop_wait \<in> set (st_callers st)
         then Some (set_caller c Stop_thrown st)
         else Some (set_caller c Stop_wait (st\<lparr>st_joins := Suc (st_joins st)\<rparr>))
     | Stop_wait \<Rightarrow> if st_loop st = Loop_exit
         then Some (set_caller c Stop_done (st\<lparr>st_sv := sv\<lparr>sv_server_thread := False\<rparr>\<rparr>)) else None
     | Stop_done \<Rightarrow> None
     | Stop_ignored \<Rightarrow> None
     | Stop_thrown \<Rightarrow> None)"

text \<open>
  A step of the server thread, as far as it does not touch the pool. A \<^verbatim>\<open>recvfrom\<close> on a
  descriptor that is not open fails at once.
\<close>

definition loop_step :: "bool \<Rightarrow> 's stop_state \<Rightarrow> 's stop_state option" where
  "loop_step close_interrupts st = (let sv = st_sv st in case st_loop st of
       Loop_test \<Rightarrow> Some (st\<lparr>st_loop := (if sv_running sv then Loop_call else Loop_exit)\<rparr>)
     | Loop_call \<Rightarrow> Some (st\<lparr>st_loop :=
         (if sv_sockfd sv \<in> st_open st then Loop_recv (sv_sockfd sv) else Loop_test)\<rparr>)
     | Loop_recv fd \<Rightarrow> if close_interrupts \<and> fd \<notin> st_open st then Some (st\<lparr>st_loop := Loop_test\<rparr>) else None
     | Loop_lock q \<Rightarrow> if st_mutex st = None
         then Some (st\<lparr>st_loop := Loop_pool q, st_mutex := Some By_loop\<rparr>) else None
     | Loop_pool q \<Rightarrow> (case sv_thread_pool sv of
           None \<Rightarrow> Some (st\<lparr>st_loop := Loop_test, st_mutex := None\<rparr>)
         | Some p \<Rightarrow> if IsShuttingDown p then Some (st\<lparr>st_loop := Loop_test, st_mutex := None\<rparr>)
             else Some (st\<lparr>st_loop := Loop_submit q\<rparr>))
     | Loop_submit q \<Rightarrow> None
     | Loop_notify \<Rightarrow> None
     | Loop_exit \<Rightarrow> None)"

text \<open>What \<^verbatim>\<open>recvfrom\<close> returned: an error and an empty datagram are ignored.\<close>

definition after_recvfrom :: "recv_outcome \<Rightarrow> receiver" where
  "after_recvfrom r = (case r of
       Datagram client_addr bytes \<Rightarrow>
         (if take kMaxPacketSize bytes = [] then Loop_test else Loop_lock (take kMaxPacketSize bytes, client_addr))
     | _ \<Rightarrow> Loop_test)"

inductive stop_step :: "bool \<Rightarrow> 's stop_state \<Rightarrow> stop_action \<Rightarrow> 's stop_state \<Rightarrow> bool"
  for close_interrupts where
  caller: "c < length (st_callers st) \<Longrightarrow> caller_step c st = Some st' \<Longrightarrow>
    stop_step close_interrupts st (Caller c) st'"
| enters_shutdown: "c < length (st_callers st) \<Longrightarrow> st_callers st ! c = Stop_pool \<Longrightarrow>
    the_pool st = Some p \<Longrightarrow> pool_step p Shuts_down p' \<Longrightarrow>
    stop_step close_interrupts st (Caller c) (set_caller c Stop_shutdown (set_pool (Some p') st))"
| shuts_down_pool: "c < length (st_callers st) \<Longrightarrow> st_callers st ! c = Stop_shutdown \<Longrightarrow>
    the_pool st = Some p \<Longrightarrow> pool_step p a p' \<Longrightarrow> a = Notifies_all \<or> a = Joins \<Longrightarrow>
    stop_step close_interrupts st (Caller c) (set_pool (Some p') st)"
| leaves_shutdown: "c < length (st_callers st) \<Longrightarrow> st_callers st ! c = Stop_shutdown \<Longrightarrow>
    the_pool st = Some p \<Longrightarrow> pool_step p Clears p' \<Longrightarrow>
    stop_step close_interrupts st (Caller c) (set_caller c Stop_reset (set_pool (Some p') st))"
| loops: "loop_step close_interrupts st = Some st' \<Longrightarrow> stop_step close_interrupts st Loop st'"
| loop_submits: "st_loop st = Loop_submit q \<Longrightarrow> the_pool st = Some p \<Longrightarrow> lock_free p \<Longrightarrow>
    Submit q p = (Inr (), p') \<Longrightarrow>
    stop_step close_interrupts st Loop (set_pool (Some p') (st\<lparr>st_loop := Loop_notify\<rparr>))"
| loop_refused: "st_loop st = Loop_submit q \<Longrightarrow> the_pool st = Some p \<Longrightarrow> Submit q p = (Inl e, p') \<Longrightarrow>
    stop_step close_interrupts st Loop
      (st\<lparr>st_loop := Loop_test, st_mutex := None, st_refused := Suc (st_refused st)\<rparr>)"
| loop_notifies: "st_loop st = Loop_notify \<Longrightarrow> the_pool st = Some p \<Longrightarrow> pool_step p Notifies_one p' \<Longrightarrow>
    stop_step close_interrupts st Loop
      (set_pool (Some p') (st\<lparr>st_loop := Loop_test, st_mutex := None\<rparr>))"
| receives_datagram: "st_loop st = Loop_recv fd \<Longrightarrow>
    stop_step close_interrupts st (Recv r) (st\<lparr>st_loop := after_recvfrom r\<rparr>)"
| worker: "the_pool st = Some p \<Longrightarrow> pool_step p (Works i) p' \<Longrightarrow>
    stop_step close_interrupts st (Worker i) (set_pool (Some p') st)"
| worker_spurious: "the_pool st = Some p \<Longrightarrow> pool_step p (Spurious i) p' \<Longrightarrow>
    stop_step close_interrupts st (Worker_spurious i) (set_pool (Some p') st)"

inductive_cases stop_stepE [elim]: "stop_step k st a st'"

text \<open>The server has just been started; \<open>n\<close> threads are going to call \<^verbatim>\<open>Stop\<close>.\<close>

definition started :: "'s server_impl \<Rightarrow> bool" where
  "started sv = (\<exists>env sv0. \<not> sv_running sv0 \<and> Start env sv0 = (True, sv))"

definition stop_start :: "'s server_impl \<Rightarrow> nat \<Rightarrow> 's stop_state" where
  "stop_start sv n = \<lparr>st_sv = sv, st_mutex = None, st_callers = replicate n Stop_check,
     st_loop = Loop_test, st_open = {sv_sockfd sv}, st_closed = [], st_joins = 0, st_refused = 0\<rparr>"

definition stop_init :: "'s server_impl \<Rightarrow> nat \<Rightarrow> 's stop_state \<Rightarrow> bool" where
  "stop_init sv n st = (started sv \<and> st = stop_start sv n)"

subsection \<open>The invariant\<close>

definition finished_stop :: "caller \<Rightarrow> bool" where
  "finished_stop pc = (pc = Stop_done \<or> pc = Stop_ignored \<or> pc = Stop_thrown)"

fun in_pool :: "caller \<Rightarrow> bool" where
  "in_pool Stop_pool = True"
| "in_pool Stop_shutdown = True"
| "in_pool Stop_reset = True"
| "in_pool _ = False"

fun after_pool :: "caller \<Rightarrow> bool" where
  "after_pool Stop_close = True"
| "after_pool Stop_closesocket = True"
| "after_pool Stop_forget = True"
| "after_pool Stop_joinable = True"
| "after_pool Stop_join = True"
| "after_pool Stop_wait = True"
| "after_pool Stop_done = True"
| "after_pool Stop_thrown = True"
| "after_pool _ = False"

fun after_close :: "caller \<Rightarrow> bool" where
  "after_close Stop_joinable = True"
| "after_close Stop_join = True"
| "after_close Stop_wait = True"
| "after_close Stop_done = True"
| "after_close Stop_thrown = True"
| "after_close _ = False"

text \<open>The call has set \<^verbatim>\<open>running_\<close> to false.\<close>

fun past_store :: "caller \<Rightarrow> bool" where
  "past_store Stop_check = False"
| "past_store Stop_store = False"
| "past_store Stop_ignored = False"
| "past_store _ = True"

fun loop_in_pool :: "receiver \<Rightarrow> bool" where
  "loop_in_pool (Loop_pool q) = True"
| "loop_in_pool (Loop_submit q) = True"
| "loop_in_pool Loop_notify = True"
| "loop_in_pool _ = False"

text \<open>The mutex excludes, and its holder is where it says.\<close>

definition mutex_ok :: "caller list \<Rightarrow> holder option \<Rightarrow> receiver \<Rightarrow> bool" where
  "mutex_ok cs m l = ((\<forall>c. c < length cs \<and> in_pool (cs ! c) \<longleftrightarrow> m = Some (By_caller c)) \<and>
     (loop_in_pool l \<longleftrightarrow> m = Some By_loop))"

text \<open>What holds at each point of \<^verbatim>\<open>Stop\<close>; \<open>fd\<close> is the descriptor that \<^verbatim>\<open>Start\<close> opened.\<close>

definition caller_ok :: "int \<Rightarrow> 's server_impl \<Rightarrow> int set \<Rightarrow> caller \<Rightarrow> bool" where
  "caller_ok fd sv opened pc = (
     (sv_running sv \<longrightarrow> pc = Stop_check \<or> pc = Stop_store) \<and>
     (case sv_thread_pool sv of
        None \<Rightarrow> pc \<noteq> Stop_shutdown \<and> pc \<noteq> Stop_reset
      | Some p \<Rightarrow> \<not> after_pool pc \<and> (pc = Stop_shutdown \<longrightarrow> tp_phase p \<in> {Flagged, Joining, Joined}) \<and>
          (pc = Stop_reset \<longrightarrow> tp_phase p = Down)) \<and>
     (pc = Stop_forget \<longrightarrow> fd \<notin> opened) \<and> (after_close pc \<longrightarrow> sv_sockfd sv = -1) \<and>
     (pc = Stop_done \<longrightarrow> \<not> sv_server_thread sv))"

text \<open>The server thread uses the pool only while it exists, and submits to it only while it is up.\<close>

definition datagram_ok :: "request \<Rightarrow> bool" where
  "datagram_ok q = (fst q \<noteq> [] \<and> length (fst q) \<le> kMaxPacketSize)"

fun loop_request :: "receiver \<Rightarrow> request option" where
  "loop_request (Loop_lock q) = Some q"
| "loop_request (Loop_pool q) = Some q"
| "loop_request (Loop_submit q) = Some q"
| "loop_request _ = None"

definition loop_ok :: "'s server_impl \<Rightarrow> receiver \<Rightarrow> bool" where
  "loop_ok sv l = (pred_option datagram_ok (loop_request l) \<and>
     (case sv_thread_pool sv of
        None \<Rightarrow> (\<forall>q. l \<noteq> Loop_submit q) \<and> l \<noteq> Loop_notify
      | Some p \<Rightarrow> tp_notifies p = (if l = Loop_notify then 1 else 0)) \<and>
     (l = Loop_exit \<longrightarrow> \<not> sv_running sv) \<and> (\<not> sv_server_thread sv \<longrightarrow> l = Loop_exit))"

text \<open>The pool is up unless a caller holds the mutex to shut it down.\<close>

definition shared_pool_ok :: "request pool option \<Rightarrow> bool \<Rightarrow> caller list \<Rightarrow> bool" where
  "shared_pool_ok pool running cs = (case pool of
       None \<Rightarrow> \<not> running
     | Some p \<Rightarrow> pool_inv p \<and> taking_ok p \<and>
         (tp_stopping p \<longrightarrow> Stop_shutdown \<in> set cs \<or> Stop_reset \<in> set cs))"

text \<open>
  The server thread is joined once, by the only call that waits for it; a call that throws has met
  this one.
\<close>

definition join_ok :: "'s server_impl \<Rightarrow> caller list \<Rightarrow> nat \<Rightarrow> bool" where
  "join_ok sv cs joins = (
     joins = (if sv_server_thread sv \<and> Stop_wait \<notin> set cs then 0 else 1) \<and>
     (\<forall>c d. c < length cs \<and> d < length cs \<and> cs ! c = Stop_wait \<and> cs ! d = Stop_wait \<longrightarrow> c = d) \<and>
     (Stop_wait \<in> set cs \<longrightarrow> sv_server_thread sv) \<and> (\<not> sv_server_thread sv \<longrightarrow> Stop_done \<in> set cs) \<and>
     (Stop_thrown \<in> set cs \<longrightarrow> Stop_wait \<in> set cs \<or> Stop_done \<in> set cs) \<and>
     (\<not> sv_running sv \<longrightarrow> list_ex past_store cs))"

definition members_ok :: "'s server_impl \<Rightarrow> 's server_impl \<Rightarrow> int set \<Rightarrow> bool" where
  "members_ok sv0 sv opened = (sv_running sv0 \<and> sv_sockfd sv0 \<ge> 0 \<and>
     sv_root_dir sv = sv_root_dir sv0 \<and> sv_port sv = sv_port sv0 \<and> sv_secure_mode sv = sv_secure_mode sv0 \<and>
     sv_config sv = sv_config sv0 \<and> sv_thread_pool_size sv = sv_thread_pool_size sv0 \<and>
     (sv_sockfd sv = sv_sockfd sv0 \<or> sv_sockfd sv = -1) \<and>
     (sv_sockfd sv = -1 \<longrightarrow> sv_sockfd sv0 \<notin> opened) \<and> opened \<subseteq> {sv_sockfd sv0})"

definition stop_inv :: "'s server_impl \<Rightarrow> nat \<Rightarrow> 's stop_state \<Rightarrow> bool" where
  "stop_inv sv0 n st = (let sv = st_sv st; cs = st_callers st in
     length cs = n \<and> st_refused st = 0 \<and> mutex_ok cs (st_mutex st) (st_loop st) \<and>
     list_all (caller_ok (sv_sockfd sv0) sv (st_open st)) cs \<and> loop_ok sv (st_loop st) \<and>
     shared_pool_ok (sv_thread_pool sv) (sv_running sv) cs \<and> members_ok sv0 sv (st_open st) \<and>
     join_ok sv cs (st_joins st))"

lemma set_caller_simps [simp]:
  "st_sv (set_caller c pc st) = st_sv st" "st_mutex (set_caller c pc st) = st_mutex st"
  "st_callers (set_caller c pc st) = (st_callers st)[c := pc]" "st_loop (set_caller c pc st) = st_loop st"
  "st_open (set_caller c pc st) = st_open st" "st_closed (set_caller c pc st) = st_closed st"
  "st_joins (set_caller c pc st) = st_joins st" "st_refused (set_caller c pc st) = st_refused st"
  "the_pool (set_caller c pc st) = the_pool st"
  by (simp_all add: set_caller_def the_pool_def)

lemma set_pool_simps [simp]:
  "st_sv (set_pool p st) = (st_sv st)\<lparr>sv_thread_pool := p\<rparr>" "st_mutex (set_pool p st) = st_mutex st"
  "st_callers (set_pool p st) = st_callers st" "st_loop (set_pool p st) = st_loop st"
  "st_open (set_pool p st) = st_open st" "st_closed (set_pool p st) = st_closed st"
  "st_joins (set_pool p st) = st_joins st" "st_refused (set_pool p st) = st_refused st"
  "the_pool (set_pool p st) = p"
  by (simp_all add: set_pool_def the_pool_def)

lemma nth_update: "d < length xs \<Longrightarrow> xs[c := x] ! d = (if c = d then x else xs ! d)"
  by (cases "c = d") simp_all

lemma mutex_okD: "mutex_ok cs m l \<Longrightarrow> c < length cs \<Longrightarrow> in_pool (cs ! c) \<Longrightarrow> m = Some (By_caller c)"
  unfolding mutex_ok_def by blast

lemma mutex_ok_stay:
  assumes "mutex_ok cs m l" and "in_pool pc = in_pool (cs ! c)"
  shows "mutex_ok (cs[c := pc]) m l"
proof -
  have "d < length cs \<and> in_pool (cs[c := pc] ! d) \<longleftrightarrow> d < length cs \<and> in_pool (cs ! d)" for d
    using assms(2) by (auto simp: nth_update split: if_splits)
  then show ?thesis
    using assms(1) by (simp add: mutex_ok_def)
qed

lemma mutex_ok_enter:
  assumes "mutex_ok cs None l" and "c < length cs" and "in_pool pc"
  shows "mutex_ok (cs[c := pc]) (Some (By_caller c)) l"
proof -
  have "d < length cs \<and> in_pool (cs[c := pc] ! d) \<longleftrightarrow> c = d" for d
    using assms by (auto simp: nth_update mutex_ok_def split: if_splits)
  then show ?thesis
    using assms(1) by (simp add: mutex_ok_def)
qed

lemma mutex_ok_leave:
  assumes "mutex_ok cs m l" and "c < length cs" and "in_pool (cs ! c)" and "\<not> in_pool pc"
  shows "mutex_ok (cs[c := pc]) None l"
proof -
  have "m = Some (By_caller c)"
    by (rule mutex_okD [OF assms(1-3)])
  moreover from this have "\<not> (d < length cs \<and> in_pool (cs[c := pc] ! d))" for d
    using assms by (auto simp: nth_update mutex_ok_def split: if_splits)
  ultimately show ?thesis
    using assms(1) by (simp add: mutex_ok_def)
qed

lemma mutex_ok_free:
  assumes "mutex_ok cs m l" and "\<not> loop_in_pool l" and "\<And>c. c < length cs \<Longrightarrow> \<not> in_pool (cs ! c)"
  shows "m = None"
proof (cases m)
  case (Some h)
  then show ?thesis
    using assms by (cases h) (auto simp: mutex_ok_def)
qed simp

lemma mutex_ok_loop:
  "mutex_ok cs m l \<Longrightarrow> loop_in_pool l' = loop_in_pool l \<Longrightarrow> mutex_ok cs m l'"
  "mutex_ok cs None l \<Longrightarrow> loop_in_pool l' \<Longrightarrow> mutex_ok cs (Some By_loop) l'"
  "mutex_ok cs m l \<Longrightarrow> loop_in_pool l \<Longrightarrow> \<not> loop_in_pool l' \<Longrightarrow> mutex_ok cs None l'"
  by (auto simp: mutex_ok_def)

lemma mutex_ok_alone:
  assumes "mutex_ok cs m l" and "c < length cs" and "in_pool (cs ! c)"
  shows "\<not> loop_in_pool l" and "d < length cs \<Longrightarrow> d \<noteq> c \<Longrightarrow> \<not> in_pool (cs ! d)"
proof -
  have m: "m = Some (By_caller c)"
    by (rule mutex_okD [OF assms])
  then show "\<not> loop_in_pool l"
    using assms(1) by (simp add: mutex_ok_def)
  show "\<not> in_pool (cs ! d)" if "d < length cs" "d \<noteq> c"
  proof
    assume "in_pool (cs ! d)"
    with assms(1) that(1) have "m = Some (By_caller d)"
      by (rule mutex_okD)
    with m that(2) show False
      by simp
  qed
qed

lemma list_all_other:
  assumes "list_all P cs" and "Q pc" and "\<And>d. d < length cs \<Longrightarrow> d \<noteq> c \<Longrightarrow> P (cs ! d) \<Longrightarrow> Q (cs ! d)"
  shows "list_all Q (cs[c := pc])"
  using assms by (auto simp: list_all_length nth_update)

lemma after_recvfrom_lock:
  assumes "P Loop_test" and "\<And>q. datagram_ok q \<Longrightarrow> P (Loop_lock q)"
  shows "P (after_recvfrom r)"
  using assms by (auto simp: after_recvfrom_def datagram_ok_def split: recv_outcome.split)

lemma in_update: "x \<in> set cs \<Longrightarrow> cs ! c \<noteq> x \<Longrightarrow> x \<in> set (cs[c := pc])"
  by (metis in_set_conv_nth length_list_update nth_list_update_neq)

lemma shared_pool_ok_update:
  assumes "shared_pool_ok p b cs" and "b' \<longrightarrow> b" and "cs ! c \<noteq> Stop_shutdown" and "cs ! c \<noteq> Stop_reset"
  shows "shared_pool_ok p b' (cs[c := pc])"
  using assms by (auto simp: shared_pool_ok_def in_update split: option.splits)

lemmas caller_step_simps = caller_step_def Let_def

lemma stop_invD:
  assumes "stop_inv sv0 n st"
  shows "mutex_ok (st_callers st) (st_mutex st) (st_loop st)"
    and "list_all (caller_ok (sv_sockfd sv0) (st_sv st) (st_open st)) (st_callers st)"
    and "loop_ok (st_sv st) (st_loop st)"
    and "shared_pool_ok (sv_thread_pool (st_sv st)) (sv_running (st_sv st)) (st_callers st)"
    and "members_ok sv0 (st_sv st) (st_open st)" and "length (st_callers st) = n" and "st_refused st = 0"
    and "join_ok (st_sv st) (st_callers st) (st_joins st)"
  using assms by (simp_all add: stop_inv_def Let_def)

lemma caller_inv:
  assumes "stop_inv sv0 n st" and "c < length (st_callers st)"
  shows "caller_ok (sv_sockfd sv0) (st_sv st) (st_open st) (st_callers st ! c)"
  using stop_invD(2) [OF assms(1)] assms(2) by (simp add: list_all_length)

lemma caller_step_mutex:
  assumes "mutex_ok (st_callers st) (st_mutex st) (st_loop st)" and "c < length (st_callers st)"
    and "caller_step c st = Some st'"
  shows "mutex_ok (st_callers st') (st_mutex st') (st_loop st')"
  using assms mutex_ok_stay [OF assms(1), of _ c] mutex_ok_leave [OF assms(1,2)]
  by (cases "st_callers st ! c")
    (auto simp: caller_step_simps mutex_ok_enter split: if_splits option.splits)

lemma loop_ok_mono:
  assumes "loop_ok sv l" and "sv_thread_pool sv' = sv_thread_pool sv" and "sv_running sv' \<longrightarrow> sv_running sv"
    and "\<not> sv_server_thread sv' \<longrightarrow> \<not> sv_server_thread sv \<or> l = Loop_exit"
  shows "loop_ok sv' l"
  using assms by (auto simp: loop_ok_def split: option.splits)

lemma loop_ok_pool:
  assumes "loop_ok sv l" and "\<not> loop_in_pool l" and "\<forall>p'. pool = Some p' \<longrightarrow> tp_notifies p' = 0"
  shows "loop_ok (sv\<lparr>sv_thread_pool := pool\<rparr>) l"
  using assms by (cases l) (auto simp: loop_ok_def split: option.splits)

lemma caller_step_loop:
  assumes "stop_inv sv0 n st" and "c < length (st_callers st)" and "caller_step c st = Some st'"
  shows "loop_ok (st_sv st') (st_loop st')"
proof -
  note inv = stop_invD [OF assms(1)]
  have alone: "in_pool (st_callers st ! c) \<Longrightarrow> \<not> loop_in_pool (st_loop st)"
    by (rule mutex_ok_alone(1) [OF inv(1) assms(2)])
  show ?thesis
    using assms(3) inv(3) alone
    by (cases "st_callers st ! c")
      (auto simp: caller_step_simps loop_ok_pool intro: loop_ok_mono split: if_splits option.splits)
qed

lemma members_ok_mono:
  assumes "members_ok sv0 sv opened" and "opened' \<subseteq> opened"
  shows "members_ok sv0 sv opened'" and "members_ok sv0 (sv\<lparr>sv_running := b\<rparr>) opened'"
    and "members_ok sv0 (sv\<lparr>sv_thread_pool := p\<rparr>) opened'" and "members_ok sv0 (sv\<lparr>sv_server_thread := b\<rparr>) opened'"
    and "sv_sockfd sv0 \<notin> opened' \<Longrightarrow> members_ok sv0 (sv\<lparr>sv_sockfd := -1\<rparr>) opened'"
  using assms by (auto simp: members_ok_def)

lemma caller_step_members:
  assumes "stop_inv sv0 n st" and "c < length (st_callers st)" and "caller_step c st = Some st'"
  shows "members_ok sv0 (st_sv st') (st_open st')" and "st_refused st' = 0" and "length (st_callers st') = n"
proof -
  note inv = stop_invD [OF assms(1)]
  have "st_callers st ! c = Stop_forget \<Longrightarrow> sv_sockfd sv0 \<notin> st_open st"
    using caller_inv [OF assms(1,2)] by (simp add: caller_ok_def)
  then show "members_ok sv0 (st_sv st') (st_open st')"
    using assms(3)
    by (cases "st_callers st ! c")
      (auto simp: caller_step_simps members_ok_mono [OF inv(5)] split: if_splits option.splits)
  show "st_refused st' = 0" and "length (st_callers st') = n"
    using assms(3) inv(6,7)
    by (cases "st_callers st ! c"; auto simp: caller_step_simps split: if_splits option.splits)+
qed

lemma join_ok_pool [simp]: "join_ok (sv\<lparr>sv_thread_pool := p\<rparr>) cs j = join_ok sv cs j"
  by (simp add: join_ok_def)

text \<open>A step of a caller that does not concern the join.\<close>

lemma join_ok_move:
  assumes "join_ok sv cs j" and "c < length cs" and "cs ! c \<noteq> Stop_wait" and "cs ! c \<noteq> Stop_done" and "cs ! c \<noteq> Stop_thrown"
    and "pc \<noteq> Stop_wait" and "pc \<noteq> Stop_thrown" and "past_store (cs ! c) \<longrightarrow> past_store pc"
    and "sv_server_thread sv' = sv_server_thread sv" and "sv_running sv' = sv_running sv \<or> past_store pc"
  shows "join_ok sv' (cs[c := pc]) j"
proof -
  have wait: "Stop_wait \<in> set (cs[c := pc]) \<longleftrightarrow> Stop_wait \<in> set cs"
    and done': "Stop_done \<in> set cs \<longrightarrow> Stop_done \<in> set (cs[c := pc])"
    and thrown: "Stop_thrown \<in> set (cs[c := pc]) \<longrightarrow> Stop_thrown \<in> set cs"
    using assms(3-7) set_update_subset_insert [of cs c pc] in_update [of _ cs c pc] by auto
  have "list_ex past_store (cs[c := pc])" if "past_store pc \<or> list_ex past_store cs"
    using that assms(2,8) by (auto simp: list_ex_length nth_update)
  moreover have "\<forall>a b. a < length cs \<and> b < length cs \<and> cs[c := pc] ! a = Stop_wait \<and> cs[c := pc] ! b = Stop_wait \<longrightarrow> a = b"
    using assms(1,6) by (auto simp: join_ok_def nth_update split: if_splits)
  ultimately show ?thesis
    using assms(1,9,10) wait done' thrown by (auto simp: join_ok_def)
qed

lemma join_ok_throws:
  assumes "join_ok sv cs j" and "c < length cs" and "cs ! c = Stop_join" and "\<not> sv_server_thread sv \<or> Stop_wait \<in> set cs"
  shows "join_ok sv (cs[c := Stop_thrown]) j"
proof -
  have "Stop_wait \<in> set (cs[c := Stop_thrown]) \<longleftrightarrow> Stop_wait \<in> set cs" "Stop_done \<in> set cs \<longrightarrow> Stop_done \<in> set (cs[c := Stop_thrown])"
    using assms(3) set_update_subset_insert [of cs c Stop_thrown] in_update [of _ cs c Stop_thrown] by auto
  moreover have "list_ex past_store (cs[c := Stop_thrown])"
    using assms(2) by (auto simp: list_ex_length intro!: exI [of _ c])
  moreover have "\<forall>a b. a < length cs \<and> b < length cs \<and> cs[c := Stop_thrown] ! a = Stop_wait \<and> cs[c := Stop_thrown] ! b = Stop_wait \<longrightarrow> a = b"
    using assms(1) by (auto simp: join_ok_def nth_update split: if_splits)
  ultimately show ?thesis
    using assms(1,4) by (auto simp: join_ok_def)
qed

lemma join_ok_waits:
  assumes "join_ok sv cs j" and "c < length cs" and "cs ! c = Stop_join" and "sv_server_thread sv" and "Stop_wait \<notin> set cs"
  shows "join_ok sv (cs[c := Stop_wait]) (Suc j)"
proof -
  have "Stop_wait \<in> set (cs[c := Stop_wait])"
    using assms(2) by (rule set_update_memI)
  moreover have "list_ex past_store (cs[c := Stop_wait])"
    using assms(2) by (auto simp: list_ex_length intro!: exI [of _ c])
  moreover have "a = c" if "a < length cs" "cs[c := Stop_wait] ! a = Stop_wait" for a
    using that assms(5) by (auto simp: nth_update dest: nth_mem split: if_splits)
  ultimately show ?thesis
    using assms(1,4,5) by (auto simp: join_ok_def)
qed

lemma join_ok_joined:
  assumes "join_ok sv cs j" and "c < length cs" and "cs ! c = Stop_wait"
  shows "join_ok (sv\<lparr>sv_server_thread := False\<rparr>) (cs[c := Stop_done]) j"
proof -
  have "Stop_done \<in> set (cs[c := Stop_done])"
    using assms(2) by (rule set_update_memI)
  moreover have "list_ex past_store (cs[c := Stop_done])"
    using assms(2) by (auto simp: list_ex_length intro!: exI [of _ c])
  moreover have "Stop_wait \<notin> set (cs[c := Stop_done])"
    using assms by (auto simp: join_ok_def in_set_conv_nth nth_update split: if_splits)
  moreover have "Stop_wait \<in> set cs"
    using assms(2,3) by (metis nth_mem)
  ultimately show ?thesis
    using assms(1) by (auto simp: join_ok_def in_set_conv_nth)
qed

lemma caller_step_join:
  assumes "stop_inv sv0 n st" and "c < length (st_callers st)" and "caller_step c st = Some st'"
  shows "join_ok (st_sv st') (st_callers st') (st_joins st')"
proof -
  note join = stop_invD(8) [OF assms(1)]
  show ?thesis
    using assms(3) join_ok_throws [OF join assms(2)] join_ok_waits [OF join assms(2)] join_ok_joined [OF join assms(2)]
    by (cases "st_callers st ! c")
      (auto simp: caller_step_simps intro!: join_ok_move [OF join assms(2)] split: if_splits option.splits)
qed

lemma caller_step_pool:
  assumes "stop_inv sv0 n st" and "c < length (st_callers st)" and "caller_step c st = Some st'"
  shows "shared_pool_ok (sv_thread_pool (st_sv st')) (sv_running (st_sv st')) (st_callers st')"
proof -
  have pool: "shared_pool_ok (sv_thread_pool (st_sv st)) (sv_running (st_sv st)) (st_callers st)"
    by (rule stop_invD(4) [OF assms(1)])
  have off: "in_pool (st_callers st ! c) \<Longrightarrow> \<not> sv_running (st_sv st)"
    using caller_inv [OF assms(1,2)] by (cases "st_callers st ! c") (auto simp: caller_ok_def)
  have reset: "shared_pool_ok (Some p) b ((st_callers st)[c := Stop_reset])" if "shared_pool_ok (Some p) b (st_callers st)" for p b
    using that assms(2) by (simp add: shared_pool_ok_def set_update_memI)
  show ?thesis
    using assms(3) pool off
    by (cases "st_callers st ! c")
      (auto simp: caller_step_simps shared_pool_ok_update [OF pool] reset shared_pool_ok_def [of None]
         split: if_splits option.splits)
qed

lemma caller_ok_mono:
  assumes "caller_ok fd sv opened pc" and "sv_thread_pool sv' = sv_thread_pool sv" and "sv_running sv' \<longrightarrow> sv_running sv"
    and "sv_server_thread sv' \<longrightarrow> sv_server_thread sv" and "sv_sockfd sv = -1 \<longrightarrow> sv_sockfd sv' = -1"
    and "opened' \<subseteq> opened"
  shows "caller_ok fd sv' opened' pc"
  using assms by (auto simp: caller_ok_def split: option.splits)

lemma caller_ok_pool:
  assumes "caller_ok fd sv opened pc" and "\<not> in_pool pc" and "sv_thread_pool sv = None \<longrightarrow> pool = None"
    and "pool = None \<longrightarrow> \<not> sv_running sv"
  shows "caller_ok fd (sv\<lparr>sv_thread_pool := pool\<rparr>) opened pc"
  using assms by (auto simp: caller_ok_def split: option.splits)

text \<open>A thread that holds the mutex finds the pool up, unless it is shutting the pool down itself.\<close>

lemma pool_up:
  assumes "stop_inv sv0 n st" and "sv_thread_pool (st_sv st) = Some p"
    and "loop_in_pool (st_loop st) \<or> (\<exists>c < length (st_callers st). st_callers st ! c = Stop_pool)"
  shows "\<not> tp_stopping p"
proof
  note inv = stop_invD [OF assms(1)]
  assume "tp_stopping p"
  then have "Stop_shutdown \<in> set (st_callers st) \<or> Stop_reset \<in> set (st_callers st)"
    using inv(4) assms(2) by (simp add: shared_pool_ok_def)
  then obtain d where d: "d < length (st_callers st)" "st_callers st ! d = Stop_shutdown \<or> st_callers st ! d = Stop_reset"
    by (metis in_set_conv_nth)
  then have "in_pool (st_callers st ! d)"
    by auto
  then show False
    using mutex_ok_alone [OF inv(1) d(1)] assms(3) d(2) by (metis caller.distinct in_pool.simps(1))
qed

lemma caller_step_callers:
  fixes sv0 :: "'a server_impl"
  assumes "stop_inv sv0 n st" and "c < length (st_callers st)" and "caller_step c st = Some st'"
  shows "list_all (caller_ok (sv_sockfd sv0) (st_sv st') (st_open st')) (st_callers st')"
proof -
  note inv = stop_invD [OF assms(1)]
  have alone: "in_pool (st_callers st ! c) \<Longrightarrow> d < length (st_callers st) \<Longrightarrow> d \<noteq> c \<Longrightarrow> \<not> in_pool (st_callers st ! d)" for d
    by (rule mutex_ok_alone(2) [OF inv(1) assms(2)])
  show ?thesis
  proof (cases "st_callers st ! c = Stop_reset")
    case True
    then have off: "\<not> sv_running (st_sv st)"
      using caller_inv [OF assms(1,2)] by (simp add: caller_ok_def)
    then have "caller_ok (sv_sockfd sv0) ((st_sv st)\<lparr>sv_thread_pool := None\<rparr>) (st_open st) Stop_close"
      by (simp add: caller_ok_def)
    then show ?thesis
      using assms(3) True alone off
      by (auto simp: caller_step_simps intro!: list_all_other [OF inv(2)] caller_ok_pool)
  next
    case False
    have mono: "list_all (caller_ok (sv_sockfd sv0) sv' opened) ((st_callers st)[c := pc])"
      if "caller_ok (sv_sockfd sv0) sv' opened pc" "sv_thread_pool sv' = sv_thread_pool (st_sv st)"
        "sv_running sv' \<longrightarrow> sv_running (st_sv st)" "sv_server_thread sv' \<longrightarrow> sv_server_thread (st_sv st)"
        "sv_sockfd (st_sv st) = -1 \<longrightarrow> sv_sockfd sv' = -1" "opened \<subseteq> st_open st" for sv' :: "'a server_impl" and opened pc
      by (rule list_all_other [OF inv(2), where Q = "caller_ok (sv_sockfd sv0) sv' opened", OF that(1)])
        (rule caller_ok_mono [OF _ that(2-)])
    show ?thesis
      using assms(3) caller_inv [OF assms(1,2)] inv(5) False pool_up [OF assms(1)] assms(2)
      by (cases "st_callers st ! c")
        (auto simp: caller_step_simps intro!: mono split: if_splits option.splits,
         auto simp: caller_ok_def members_ok_def split: option.splits)
  qed
qed

lemma caller_step_inv:
  assumes "stop_inv sv0 n st" and "c < length (st_callers st)" and "caller_step c st = Some st'"
  shows "stop_inv sv0 n st'"
  using caller_step_mutex [OF stop_invD(1) [OF assms(1)] assms(2,3)] caller_step_members [OF assms]
    caller_step_callers [OF assms] caller_step_pool [OF assms] caller_step_loop [OF assms] caller_step_join [OF assms]
  by (simp add: stop_inv_def Let_def)

lemma loop_step_inv:
  assumes "stop_inv sv0 n st" and "loop_step k st = Some st'"
  shows "stop_inv sv0 n st'"
proof -
  note inv = stop_invD [OF assms(1)]
  have "st_mutex st = None \<Longrightarrow> loop_in_pool l \<Longrightarrow> mutex_ok (st_callers st) (Some By_loop) l" for l
    using inv(1) mutex_ok_loop(2) by metis
  then have mutex: "mutex_ok (st_callers st') (st_mutex st') (st_loop st')"
    using assms(2) inv(1) mutex_ok_loop(1) [OF inv(1)] mutex_ok_loop(3) [OF inv(1)]
    by (cases "st_loop st") (auto simp: loop_step_def Let_def split: if_splits option.splits)
  have same: "st_callers st' = st_callers st" "st_sv st' = st_sv st" "st_open st' = st_open st" "st_refused st' = st_refused st"
    "st_joins st' = st_joins st"
    using assms(2) by (cases "st_loop st"; auto simp: loop_step_def Let_def split: if_splits option.splits)+
  have "loop_ok (st_sv st) (st_loop st')"
    using assms(2) inv(3)
    by (cases "st_loop st") (auto simp: loop_step_def Let_def loop_ok_def split: if_splits option.splits)
  then show ?thesis
    using inv mutex by (simp add: stop_inv_def Let_def same)
qed

lemma pool_step_frame:
  assumes "pool_step p a p'"
  shows "a = Shuts_down \<Longrightarrow> tp_phase p' = Flagged"
    and "a = Notifies_all \<Longrightarrow> tp_phase p' = Joining"
    and "a = Joins \<Longrightarrow> tp_phase p' = Joined"
    and "a = Clears \<Longrightarrow> tp_phase p' = Down"
    and "a = Works i \<or> a = Spurious i \<or> a = Notifies_one \<Longrightarrow> tp_phase p' = tp_phase p \<and> tp_stopping p' = tp_stopping p"
    and "a = Notifies_one \<Longrightarrow> tp_notifies p = Suc (tp_notifies p')"
    and "(\<forall>t. a \<noteq> Submits t) \<Longrightarrow> a \<noteq> Notifies_one \<Longrightarrow> tp_notifies p' = tp_notifies p"
  using assms
  by (cases; auto simp: set_worker_def worker_step_def split: worker.splits if_splits list.splits)+

text \<open>A step of the pool by a worker, or by the server thread, which leaves the phase as it is.\<close>

lemma pool_keeps:
  assumes "stop_inv sv0 n st" and "the_pool st = Some p" and "pool_step p a p'"
    and "tp_phase p' = tp_phase p" and "tp_stopping p' = tp_stopping p"
  shows "list_all (caller_ok (sv_sockfd sv0) ((st_sv st)\<lparr>sv_thread_pool := Some p'\<rparr>) (st_open st)) (st_callers st)"
    and "shared_pool_ok (Some p') (sv_running (st_sv st)) (st_callers st)"
    and "members_ok sv0 ((st_sv st)\<lparr>sv_thread_pool := Some p'\<rparr>) (st_open st)"
proof -
  note inv = stop_invD [OF assms(1)]
  have pool: "sv_thread_pool (st_sv st) = Some p"
    using assms(2) by (simp add: the_pool_def)
  have "caller_ok (sv_sockfd sv0) ((st_sv st)\<lparr>sv_thread_pool := Some p'\<rparr>) (st_open st) pc"
    if "caller_ok (sv_sockfd sv0) (st_sv st) (st_open st) pc" for pc
    using that assms(4) by (simp add: caller_ok_def pool)
  then show "list_all (caller_ok (sv_sockfd sv0) ((st_sv st)\<lparr>sv_thread_pool := Some p'\<rparr>) (st_open st)) (st_callers st)"
    using inv(2) by (simp add: list_all_iff)
  show "shared_pool_ok (Some p') (sv_running (st_sv st)) (st_callers st)"
    using inv(4) pool.inv_step [OF _ assms(3)] taking_ok_step [OF _ _ assms(3)] assms(5)
    by (simp add: shared_pool_ok_def pool)
  show "members_ok sv0 ((st_sv st)\<lparr>sv_thread_pool := Some p'\<rparr>) (st_open st)"
    using inv(5) by (simp add: members_ok_def)
qed

lemma worker_inv:
  assumes "stop_inv sv0 n st" and "the_pool st = Some p" and "pool_step p a p'" and "a = Works i \<or> a = Spurious i"
  shows "stop_inv sv0 n (set_pool (Some p') st)"
proof -
  note inv = stop_invD [OF assms(1)]
  have frame: "tp_phase p' = tp_phase p" "tp_stopping p' = tp_stopping p" "tp_notifies p' = tp_notifies p"
    using pool_step_frame(5,7) [OF assms(3)] assms(4) by auto
  then have "loop_ok ((st_sv st)\<lparr>sv_thread_pool := Some p'\<rparr>) (st_loop st)"
    using inv(3) assms(2) by (simp add: loop_ok_def the_pool_def)
  then show ?thesis
    using pool_keeps [OF assms(1-3) frame(1,2)] inv by (simp add: stop_inv_def Let_def)
qed

lemma loop_submits_inv:
  assumes "stop_inv sv0 n st" and "st_loop st = Loop_submit q" and "the_pool st = Some p" and "lock_free p"
    and "Submit q p = (Inr (), p')"
  shows "stop_inv sv0 n (set_pool (Some p') (st\<lparr>st_loop := Loop_notify\<rparr>))"
proof -
  note inv = stop_invD [OF assms(1)]
  have step: "pool_step p (Submits q) p'"
    by (rule submits [OF assms(4,5)])
  have frame: "tp_phase p' = tp_phase p" "tp_stopping p' = tp_stopping p" "tp_notifies p' = Suc (tp_notifies p)"
    using assms(5) by (auto simp: Submit_def split: if_splits)
  then have "loop_ok ((st_sv st)\<lparr>sv_thread_pool := Some p'\<rparr>) Loop_notify"
    using inv(3) assms(2,3) by (simp add: loop_ok_def the_pool_def)
  then show ?thesis
    using pool_keeps [OF assms(1,3) step frame(1,2)] inv mutex_ok_loop(1) [OF inv(1), of Loop_notify] assms(2)
    by (simp add: stop_inv_def Let_def)
qed

lemma loop_notifies_inv:
  assumes "stop_inv sv0 n st" and "st_loop st = Loop_notify" and "the_pool st = Some p" and "pool_step p Notifies_one p'"
  shows "stop_inv sv0 n (set_pool (Some p') (st\<lparr>st_loop := Loop_test, st_mutex := None\<rparr>))"
proof -
  note inv = stop_invD [OF assms(1)]
  have frame: "tp_phase p' = tp_phase p" "tp_stopping p' = tp_stopping p" "tp_notifies p = Suc (tp_notifies p')"
    using pool_step_frame(5,6) [OF assms(4)] by auto
  then have "loop_ok ((st_sv st)\<lparr>sv_thread_pool := Some p'\<rparr>) Loop_test"
    using inv(3) assms(2,3) by (simp add: loop_ok_def the_pool_def)
  then show ?thesis
    using pool_keeps [OF assms(1,3,4) frame(1,2)] inv mutex_ok_loop(3) [OF inv(1), of Loop_test] assms(2)
    by (simp add: stop_inv_def Let_def)
qed

text \<open>A step of the shutdown by the caller that holds the mutex.\<close>

lemma shutdown_inv:
  assumes "stop_inv sv0 n st" and "c < length (st_callers st)" and "in_pool (st_callers st ! c)"
    and "the_pool st = Some p" and "pool_step p a p'" and "(\<forall>t. a \<noteq> Submits t) \<and> a \<noteq> Notifies_one"
    and "pc = Stop_shutdown \<and> tp_phase p' \<in> {Flagged, Joining, Joined} \<or> pc = Stop_reset \<and> tp_phase p' = Down"
  shows "stop_inv sv0 n (set_caller c pc (set_pool (Some p') st))"
proof -
  note inv = stop_invD [OF assms(1)]
  have pool: "sv_thread_pool (st_sv st) = Some p"
    using assms(4) by (simp add: the_pool_def)
  have notifies: "tp_notifies p' = tp_notifies p"
    using pool_step_frame(7) [OF assms(5)] assms(6) by blast
  have alone: "\<not> loop_in_pool (st_loop st)" "d < length (st_callers st) \<Longrightarrow> d \<noteq> c \<Longrightarrow> \<not> in_pool (st_callers st ! d)" for d
    by (rule mutex_ok_alone [OF inv(1) assms(2,3)])+
  have off: "\<not> sv_running (st_sv st)"
    using caller_inv [OF assms(1,2)] assms(3) by (cases "st_callers st ! c") (auto simp: caller_ok_def)
  then have new: "caller_ok (sv_sockfd sv0) ((st_sv st)\<lparr>sv_thread_pool := Some p'\<rparr>) (st_open st) pc"
    using assms(7) by (auto simp: caller_ok_def)
  have "list_all (caller_ok (sv_sockfd sv0) ((st_sv st)\<lparr>sv_thread_pool := Some p'\<rparr>) (st_open st)) ((st_callers st)[c := pc])"
    using alone(2) pool by (auto intro!: list_all_other [OF inv(2)] new caller_ok_pool)
  moreover have "loop_ok ((st_sv st)\<lparr>sv_thread_pool := Some p'\<rparr>) (st_loop st)"
    using inv(3) notifies pool by (auto simp: loop_ok_def)
  moreover have "shared_pool_ok (Some p') (sv_running (st_sv st)) ((st_callers st)[c := pc])"
    using inv(4) pool.inv_step [OF _ assms(5)] taking_ok_step [OF _ _ assms(5)] assms(2,7)
    by (auto simp: shared_pool_ok_def pool set_update_memI)
  moreover have "mutex_ok ((st_callers st)[c := pc]) (st_mutex st) (st_loop st)"
    using mutex_ok_stay [OF inv(1), of pc c] assms(3,7) by auto
  moreover have "members_ok sv0 ((st_sv st)\<lparr>sv_thread_pool := Some p'\<rparr>) (st_open st)"
    using inv(5) by (simp add: members_ok_def)
  moreover have "join_ok (st_sv st) ((st_callers st)[c := pc]) (st_joins st)"
    using assms(3,7) by (auto intro!: join_ok_move [OF inv(8) assms(2)])
  ultimately show ?thesis
    using inv(6,7) by (simp add: stop_inv_def Let_def)
qed

lemma started_inv:
  assumes "started sv"
  shows "stop_inv sv n (stop_start sv n)"
  using assms new_pool_inv
  by (auto simp: started_def Start_def Let_def stop_start_def stop_inv_def mutex_ok_def caller_ok_def loop_ok_def
      shared_pool_ok_def members_ok_def join_ok_def list_all_length new_pool_def taking_ok_def split: if_splits)

lemma after_recvfrom_inv:
  assumes "stop_inv sv0 n st" and "st_loop st = Loop_recv fd"
  shows "stop_inv sv0 n (st\<lparr>st_loop := after_recvfrom r\<rparr>)"
proof -
  note inv = stop_invD [OF assms(1)]
  have "loop_ok (st_sv st) (after_recvfrom r)"
    using inv(3) assms(2) by - (rule after_recvfrom_lock, auto simp: loop_ok_def split: option.splits)
  moreover have "mutex_ok (st_callers st) (st_mutex st) (after_recvfrom r)"
    using mutex_ok_loop(1) [OF inv(1)] assms(2) by - (rule after_recvfrom_lock, simp_all)
  ultimately show ?thesis
    using inv by (simp add: stop_inv_def Let_def)
qed

lemma stop_step_inv:
  assumes inv: "stop_inv sv n st" and step: "stop_step k st a st'"
  shows "stop_inv sv n st'"
  using step
proof cases
  case (caller c)
  then show ?thesis
    using caller_step_inv [OF inv] by blast
next
  case (enters_shutdown c p p')
  then show ?thesis
    using shutdown_inv [OF inv] pool_step_frame(1) by fastforce
next
  case (shuts_down_pool c p b p')
  then have "stop_inv sv n (set_caller c Stop_shutdown (set_pool (Some p') st))"
    using shutdown_inv [OF inv] pool_step_frame(2,3) by fastforce
  moreover have "set_caller c Stop_shutdown (set_pool (Some p') st) = set_pool (Some p') st"
    using shuts_down_pool by (simp add: set_caller_def list_update_same_conv)
  ultimately show ?thesis
    using shuts_down_pool by simp
next
  case (leaves_shutdown c p p')
  then show ?thesis
    using shutdown_inv [OF inv] pool_step_frame(4) by fastforce
next
  case (loop_refused q p e p')
  then show ?thesis
    using pool_up [OF inv] by (simp add: Submit_def the_pool_def)
qed (use worker_inv [OF inv] loop_step_inv [OF inv] loop_submits_inv [OF inv] loop_notifies_inv [OF inv]
    after_recvfrom_inv [OF inv] in blast)+

interpretation stop: invariant_system "stop_init sv n" "stop_step k" "stop_inv sv n" for sv n k
  by standard (auto simp: stop_init_def intro: started_inv stop_step_inv)

lemma running_stays_false:
  "stop_step k st a st' \<Longrightarrow> \<not> sv_running (st_sv st) \<Longrightarrow> \<not> sv_running (st_sv st')"
  by (erule stop_step.cases)
    (auto simp: caller_step_simps loop_step_def split: caller.splits receiver.splits if_splits option.splits)

end
