(* ===== verification/Tftp_Stop.thy ===== *)
theory Tftp_Stop
  imports Tftp_Shutdown
begin

section \<open>What stopping the server gives\<close>

text \<open>
  The properties of the interleaved steps of \<^verbatim>\<open>Tftp_Shutdown\<close>: a bound on the steps that are left once
  \<^verbatim>\<open>running_\<close> is false, the states in which no thread can go on, the refinement of the life cycle of
  \<^verbatim>\<open>Tftp_Server_Impl\<close>, and two schedules in which \<^verbatim>\<open>Stop\<close> goes wrong.
\<close>

subsection \<open>Effort and progress\<close>

text \<open>
  Once \<^verbatim>\<open>running_\<close> is false, every step that is not a spurious wake-up decreases a measure: the
  server thread handles at most one more datagram, and a worker finishes the tasks that are queued.
\<close>

fun caller_rank :: "caller \<Rightarrow> nat" where
  "caller_rank Stop_check = 14"
| "caller_rank Stop_store = 13"
| "caller_rank Stop_lock = 12"
| "caller_rank Stop_pool = 11"
| "caller_rank Stop_shutdown = 10"
| "caller_rank Stop_reset = 9"
| "caller_rank Stop_close = 8"
| "caller_rank Stop_closesocket = 7"
| "caller_rank Stop_forget = 6"
| "caller_rank Stop_joinable = 5"
| "caller_rank Stop_join = 4"
| "caller_rank Stop_wait = 3"
| "caller_rank Stop_done = 0"
| "caller_rank Stop_ignored = 0"
| "caller_rank Stop_thrown = 0"

fun loop_rank :: "receiver \<Rightarrow> nat" where
  "loop_rank Loop_test = 1"
| "loop_rank Loop_call = 21"
| "loop_rank (Loop_recv fd) = 20"
| "loop_rank (Loop_lock q) = 19"
| "loop_rank (Loop_pool q) = 18"
| "loop_rank (Loop_submit q) = 17"
| "loop_rank Loop_notify = 6"
| "loop_rank Loop_exit = 0"

definition stop_effort :: "'s stop_state \<Rightarrow> nat" where
  "stop_effort st = sum_list (map caller_rank (st_callers st)) + loop_rank (st_loop st) +
     (case the_pool st of None \<Rightarrow> 0 | Some p \<Rightarrow> pool_effort p)"

lemma caller_rank_update:
  assumes "c < length cs" and "caller_rank pc < caller_rank (cs ! c)"
  shows "sum_list (map caller_rank (cs[c := pc])) < sum_list (map caller_rank cs)"
proof -
  obtain a w b where "cs = a @ w # b" and "cs ! c = w" and upd: "\<forall>v. cs[c := v] = a @ v # b"
    by (metis update_split [OF assms(1)])
  then have "sum_list (map caller_rank cs) = sum_list (map caller_rank (a @ w # b))" "caller_rank pc < caller_rank w"
    using assms(2) by simp_all
  then show ?thesis
    by (simp add: upd)
qed

lemma caller_effort:
  assumes "c < length (st_callers st)" and "caller_step c st = Some st'" 
  shows "stop_effort st' < stop_effort st"
proof -
  have "sum_list (map caller_rank (st_callers st')) < sum_list (map caller_rank (st_callers st)) \<and> st_loop st' = st_loop st \<and>
      (the_pool st' = the_pool st \<or> the_pool st' = None)"
    using assms(2) caller_rank_update [OF assms(1)]
    by (cases "st_callers st ! c") (auto simp: caller_step_simps the_pool_def split: if_splits option.splits)
  then show ?thesis
    by (auto simp: stop_effort_def split: option.splits)
qed

lemma loop_effort:
  assumes "\<not> sv_running (st_sv st)" and "loop_step k st = Some st'"
  shows "stop_effort st' < stop_effort st"
  using assms
  by (cases "st_loop st") (auto simp: loop_step_def Let_def stop_effort_def the_pool_def split: if_splits option.splits)

lemma after_recvfrom_effort: "loop_rank (after_recvfrom r) < 20"
  by (rule after_recvfrom_lock) simp_all

definition internal :: "stop_action \<Rightarrow> bool" where
  "internal a = (case a of Recv r \<Rightarrow> False | Worker_spurious i \<Rightarrow> False | _ \<Rightarrow> True)"

text \<open>The steps on the pool, by the caller that holds the mutex and by a worker.\<close>

lemma pool_step_effort:
  assumes "stop_inv sv n st" and "the_pool st = Some p" and "pool_step p a p'"
    and "a = Shuts_down \<or> a = Notifies_all \<or> a = Joins \<or> a = Clears \<or> (\<exists>i. a = Works i)"
  shows "pool_effort p' < pool_effort p"
proof -
  have inv: "pool_inv p" "taking_ok p"
    using stop_invD(4) [OF assms(1)] assms(2) by (auto simp: shared_pool_ok_def the_pool_def)
  from assms(3) show ?thesis
  proof cases
    case (works i)
    then show ?thesis
      using worker_effort [OF inv(2)] by blast
  qed (use shutdown_effort [OF inv(1) assms(3)] assms(4) in auto)
qed

lemma step_effort:
  assumes "stop_inv sv n st" and "\<not> sv_running (st_sv st)" and "stop_step k st a st'" and "\<forall>i. a \<noteq> Worker_spurious i"
  shows "stop_effort st' < stop_effort st"
proof -
  note pool = pool_step_effort [OF assms(1)]
  from assms(3) show ?thesis
  proof cases
    case (caller c)
    then show ?thesis
      using caller_effort by blast
  next
    case (enters_shutdown c p p')
    then show ?thesis
      using pool [of p Shuts_down p'] caller_rank_update [OF enters_shutdown(3), of Stop_shutdown]
      by (simp add: stop_effort_def)
  next
    case (shuts_down_pool c p b p')
    then show ?thesis
      using pool [of p b p'] by (auto simp: stop_effort_def)
  next
    case (leaves_shutdown c p p')
    then show ?thesis
      using pool [of p Clears p'] caller_rank_update [OF leaves_shutdown(3), of Stop_reset] by (simp add: stop_effort_def)
  next
    case loops
    then show ?thesis
      using loop_effort assms(2) by blast
  next
    case (loop_notifies p p')
    then show ?thesis
      using notify_effort [of p p'] by (simp add: stop_effort_def)
  next
    case (receives_datagram fd r)
    then show ?thesis
      using after_recvfrom_effort [of r] by (simp add: stop_effort_def the_pool_def)
  next
    case (worker p i p')
    then show ?thesis
      using pool [of p "Works i" p'] by (simp add: stop_effort_def)
  qed (use assms(4) in \<open>auto simp: stop_effort_def the_pool_def Submit_def pool_effort_def split: if_splits\<close>)
qed

lemma run_effort:
  assumes "run (stop_step k) st as st'" and "stop_inv sv n st" and "\<not> sv_running (st_sv st)"
    and "\<forall>i. Worker_spurious i \<notin> set as"
  shows "length as + stop_effort st' \<le> stop_effort st"
  using assms
proof (induction rule: run.induct)
  case (run_cons st a st1 as st2)
  have "stop_effort st1 < stop_effort st"
    using step_effort [OF run_cons.prems(1,2) run_cons.hyps(1)] run_cons.prems(3) by auto
  moreover have "length as + stop_effort st2 \<le> stop_effort st1"
    using run_cons.IH [OF stop.inv_step [OF run_cons.prems(1) run_cons.hyps(1)]]
      running_stays_false [OF run_cons.hyps(1)] run_cons.prems(2,3) by auto
  ultimately show ?case
    by simp
qed simp

text \<open>A worker that has not exited can go on, unless it waits for a notification.\<close>

lemma worker_goes_on:
  assumes "pool_inv p" and "w \<in> set (tp_workers p)" and "w \<noteq> Blocked" and "w \<noteq> Exited"
  shows "\<exists>i p'. pool_step p (Works i) p'"
proof (cases "w = Going_to_sleep")
  case True
  then obtain i where i: "i < length (tp_workers p)" "tp_workers p ! i = Going_to_sleep"
    using assms(2) by (metis in_set_conv_nth)
  then show ?thesis
    using works [OF i(1)] by (auto simp: worker_step_def)
next
  case False
  then have "awake w"
    using assms(3,4) by (cases w) simp_all
  then show ?thesis
    by (rule worker_enabled [OF assms(1,2)])
qed

lemma lock_holder_goes_on:
  assumes "pool_inv p" and "\<not> lock_free p"
  shows "\<exists>i p'. pool_step p (Works i) p'"
proof -
  obtain w where "w \<in> set (tp_workers p)" "holds_lock w"
    using assms(2) by (auto simp: lock_free_def list_all_iff)
  then show ?thesis
    by (intro worker_goes_on [OF assms(1)]) auto
qed

text \<open>The two ways in which a call of \<^verbatim>\<open>Stop\<close> waits for ever.\<close>

definition lost_wakeup :: "'s stop_state \<Rightarrow> bool" where
  "lost_wakeup st = (case the_pool st of
       None \<Rightarrow> False
     | Some p \<Rightarrow> tp_phase p = Joining \<and> Blocked \<in> set (tp_workers p) \<and>
         list_all (\<lambda>w. w = Blocked \<or> w = Exited) (tp_workers p))"

fun waits_in_recvfrom :: "receiver \<Rightarrow> bool" where
  "waits_in_recvfrom (Loop_recv fd) = True"
| "waits_in_recvfrom _ = False"

definition can_go_on :: "bool \<Rightarrow> 's stop_state \<Rightarrow> bool" where
  "can_go_on k st = (\<exists>a st'. internal a \<and> stop_step k st a st')"

lemma can_go_onI: "stop_step k st a st' \<Longrightarrow> internal a \<Longrightarrow> can_go_on k st"
  by (auto simp: can_go_on_def)

lemma internal_simps [simp]:
  "internal (Caller c)" "internal Loop" "internal (Worker i)" "\<not> internal (Recv r)" "\<not> internal (Worker_spurious i)"
  by (simp_all add: internal_def)

lemma pool_can_go_on:
  assumes "the_pool st = Some p" and "\<exists>i p'. pool_step p (Works i) p'"
  shows "can_go_on k st"
  using assms(2) can_go_onI [OF worker [OF assms(1)]] by auto

lemma caller_goes_on:
  assumes "c < length (st_callers st)" and "caller_step c st \<noteq> None"
  shows "can_go_on k st"
  using assms(2) can_go_onI [OF caller [OF assms(1)]] by auto

lemma loop_goes_on:
  assumes "loop_step k st \<noteq> None"
  shows "can_go_on k st"
  using assms can_go_onI [OF loops] by auto

lemma shutdown_goes_on:
  assumes "stop_inv sv n st" and "c < length (st_callers st)" and "st_callers st ! c = Stop_shutdown"
  shows "can_go_on k st \<or> lost_wakeup st"
proof -
  obtain p where p: "the_pool st = Some p" and phase: "tp_phase p \<in> {Flagged, Joining, Joined}"
    using caller_inv [OF assms(1,2)] assms(3) by (auto simp: caller_ok_def the_pool_def split: option.splits)
  have inv: "pool_inv p"
    using stop_invD(4) [OF assms(1)] p by (simp add: shared_pool_ok_def the_pool_def)
  show ?thesis
  proof (cases "\<exists>i p'. pool_step p (Works i) p'")
    case True
    then show ?thesis
      using pool_can_go_on [OF p] by blast
  next
    case False
    then have idle: "list_all (\<lambda>w. w = Blocked \<or> w = Exited) (tp_workers p)" and free: "lock_free p"
      using worker_goes_on [OF inv] lock_holder_goes_on [OF inv] by (auto simp: list_all_iff)
    consider "tp_phase p = Flagged" | "tp_phase p = Joined" | "tp_phase p = Joining" "list_all (\<lambda>w. w = Exited) (tp_workers p)"
      | "tp_phase p = Joining" "Blocked \<in> set (tp_workers p)"
      using phase idle by (fastforce simp: list_all_iff)
    then show ?thesis
    proof cases
      case 1
      then show ?thesis
        using can_go_onI [OF shuts_down_pool [OF assms(2,3) p notifies_all]] by simp
    next
      case 2
      then show ?thesis
        using can_go_onI [OF leaves_shutdown [OF assms(2,3) p clears]] free by simp
    next
      case 3
      then show ?thesis
        using can_go_onI [OF shuts_down_pool [OF assms(2,3) p joins]] by simp
    next
      case 4
      then show ?thesis
        using idle p by (simp add: lost_wakeup_def)
    qed
  qed
qed

lemma loop_holder_goes_on:
  assumes "stop_inv sv n st" and "loop_in_pool (st_loop st)"
  shows "can_go_on k st"
proof (cases "st_loop st")
  case (Loop_pool q)
  then show ?thesis
    by (intro loop_goes_on) (auto simp: loop_step_def Let_def split: option.splits)
next
  case (Loop_submit q)
  then obtain p where p: "the_pool st = Some p"
    using stop_invD(3) [OF assms(1)] by (auto simp: loop_ok_def the_pool_def split: option.splits)
  then have inv: "pool_inv p" and up: "\<not> tp_stopping p"
    using stop_invD(4) [OF assms(1)] pool_up [OF assms(1)] assms(2) by (auto simp: shared_pool_ok_def the_pool_def)
  then obtain p' where submit: "Submit q p = (Inr (), p')"
    by (simp add: Submit_def)
  show ?thesis
    using lock_holder_goes_on [OF inv] pool_can_go_on [OF p] can_go_onI [OF loop_submits [OF Loop_submit p _ submit]]
    by auto
next
  case Loop_notify
  then obtain p where p: "the_pool st = Some p" "tp_notifies p = 1"
    using stop_invD(3) [OF assms(1)] by (auto simp: loop_ok_def the_pool_def split: option.splits)
  then obtain p' where "pool_step p Notifies_one p'"
    using notifies_one [of p 0] notifies_none [of p 0] by (metis One_nat_def in_set_conv_nth)
  then show ?thesis
    using can_go_onI [OF loop_notifies [OF Loop_notify p(1)]] by auto
qed (use assms(2) in auto)

lemma caller_holder_goes_on:
  assumes "stop_inv sv n st" and "c < length (st_callers st)" and "in_pool (st_callers st ! c)"
  shows "can_go_on k st \<or> lost_wakeup st"
proof (cases "st_callers st ! c")
  case Stop_pool
  have "can_go_on k st" if "the_pool st = Some p" "\<not> tp_stopping p" for p
    using that can_go_onI [OF enters_shutdown [OF assms(2) Stop_pool that(1) shuts_down]]
      stop_invD(4) [OF assms(1)] by (auto simp: shared_pool_ok_def the_pool_def pool_inv_def inv_phase_def)
  moreover have "can_go_on k st" if "\<And>p. the_pool st = Some p \<Longrightarrow> tp_stopping p"
    using that Stop_pool
    by (intro caller_goes_on [OF assms(2)]) (auto simp: caller_step_simps the_pool_def split: option.splits)
  ultimately show ?thesis
    by blast
next
  case Stop_shutdown
  then show ?thesis
    using shutdown_goes_on [OF assms(1,2)] by blast
next
  case Stop_reset
  then show ?thesis
    using caller_goes_on [OF assms(2)] by (auto simp: caller_step_simps)
qed (use assms(3) in auto)

lemma joining_caller_goes_on:
  assumes "stop_inv sv n st" and "c < length (st_callers st)" and "st_callers st ! c = Stop_wait"
    and "st_mutex st = None" and "\<not> loop_in_pool (st_loop st)"
  shows "can_go_on k st \<or> waits_in_recvfrom (st_loop st) \<and> \<not> k"
proof -
  have "sv_sockfd (st_sv st) = -1"
    using caller_inv [OF assms(1,2)] assms(3) by (simp add: caller_ok_def)
  then have "st_open st = {}"
    using stop_invD(5) [OF assms(1)] by (auto simp: members_ok_def)
  then show ?thesis
    using assms(3-5) loop_goes_on [of k st] caller_goes_on [OF assms(2), of k]
    by (cases "st_loop st") (auto simp: loop_step_def caller_step_simps)
qed

lemma free_caller_goes_on:
  assumes "c < length (st_callers st)" and "\<not> finished_stop (st_callers st ! c)" and "st_callers st ! c \<noteq> Stop_wait"
    and "\<not> in_pool (st_callers st ! c)" and "st_mutex st = None"
  shows "can_go_on k st"
proof (rule caller_goes_on [OF assms(1)])
  show "caller_step c st \<noteq> None"
    using assms(2-5) by (cases "st_callers st ! c") (auto simp: caller_step_simps finished_stop_def)
qed

text \<open>
  When no thread can go on by itself, each call of \<^verbatim>\<open>Stop\<close> has returned or thrown, or one of them waits for a
  worker that has missed its wake-up, or for the server thread, which waits for a datagram.
\<close>

lemma stop_progress:
  assumes "stop_inv sv n st"
  shows "can_go_on k st \<or> list_all finished_stop (st_callers st) \<or> lost_wakeup st \<or>
    (Stop_wait \<in> set (st_callers st) \<and> waits_in_recvfrom (st_loop st) \<and> \<not> k)"
proof (cases "(\<exists>c < length (st_callers st). in_pool (st_callers st ! c)) \<or> loop_in_pool (st_loop st)")
  case True
  then show ?thesis
    using caller_holder_goes_on [OF assms] loop_holder_goes_on [OF assms] by blast
next
  case False
  then have free: "st_mutex st = None"
    using mutex_ok_free [OF stop_invD(1) [OF assms]] by blast
  show ?thesis
  proof (cases "list_all finished_stop (st_callers st)")
    case unfinished: False
    then obtain c where c: "c < length (st_callers st)" "\<not> finished_stop (st_callers st ! c)"
      by (auto simp: list_all_length)
    show ?thesis
    proof (cases "st_callers st ! c = Stop_wait")
      case True
      then have "Stop_wait \<in> set (st_callers st)"
        using c(1) by (metis nth_mem)
      then show ?thesis
        using joining_caller_goes_on [OF assms c(1) True free] False by blast
    qed (use free_caller_goes_on [OF c] free False c(1) in blast)
  qed blast
qed

subsection \<open>Properties\<close>

text \<open>
  C12. The pool is safe against \<^verbatim>\<open>Stop\<close>, however many threads call it and however the threads are
  scheduled: at most one thread is in a section that \<^verbatim>\<open>thread_pool_mutex_\<close> protects, the server
  thread submits only to a pool that exists and is up, so that \<^verbatim>\<open>Submit\<close> never throws in
  \<^verbatim>\<open>ServerLoop\<close>, and the pool is destroyed only when all its workers have exited and no
  notification is pending.
\<close>

theorem stop_pool_safe:
  assumes "reach (stop_init sv n) (stop_step k) st"
  shows "st_refused st = 0 \<and>
    (loop_in_pool (st_loop st) \<longrightarrow> \<not> list_ex in_pool (st_callers st)) \<and>
    (\<forall>c d. c < n \<and> d < n \<and> in_pool (st_callers st ! c) \<and> in_pool (st_callers st ! d) \<longrightarrow> c = d) \<and>
    ((\<exists>q. st_loop st = Loop_submit q) \<or> st_loop st = Loop_notify \<longrightarrow>
       (\<exists>p. the_pool st = Some p \<and> \<not> IsShuttingDown p)) \<and>
    (Stop_reset \<in> set (st_callers st) \<longrightarrow>
       (\<exists>p. the_pool st = Some p \<and> list_all (\<lambda>w. w = Exited) (tp_workers p) \<and> tp_notifies p = 0))"
proof -
  have inv: "stop_inv sv n st"
    by (rule stop.reach_inv [OF assms])
  note parts = stop_invD [OF inv]
  have "\<not> list_ex in_pool (st_callers st)" if "loop_in_pool (st_loop st)"
    using that mutex_ok_alone(1) [OF parts(1)] by (auto simp: list_ex_length)
  moreover have "c = d" if "c < n" "d < n" "in_pool (st_callers st ! c)" "in_pool (st_callers st ! d)" for c d
    using that mutex_ok_alone(2) [OF parts(1)] parts(6) by metis
  moreover have "\<exists>p. the_pool st = Some p \<and> \<not> IsShuttingDown p"
    if "(\<exists>q. st_loop st = Loop_submit q) \<or> st_loop st = Loop_notify"
    using that parts(3) pool_up [OF inv] by (auto simp: loop_ok_def the_pool_def IsShuttingDown_def split: option.splits)
  moreover have "\<exists>p. the_pool st = Some p \<and> list_all (\<lambda>w. w = Exited) (tp_workers p) \<and> tp_notifies p = 0"
    if reset: "Stop_reset \<in> set (st_callers st)"
  proof -
    obtain c where c: "c < length (st_callers st)" "st_callers st ! c = Stop_reset"
      using reset by (metis in_set_conv_nth)
    then obtain p where p: "the_pool st = Some p" "tp_phase p = Down"
      using caller_inv [OF inv c(1)] by (auto simp: caller_ok_def the_pool_def split: option.splits)
    moreover have "\<not> loop_in_pool (st_loop st)"
      using mutex_ok_alone(1) [OF parts(1) c(1)] c(2) by simp
    ultimately show ?thesis
      using parts(3,4) by (auto simp: loop_ok_def shared_pool_ok_def the_pool_def pool_inv_def inv_phase_def)
  qed
  ultimately show ?thesis
    using parts(7) by blast
qed

subsection \<open>The stages of a shutdown\<close>

text \<open>
  What \<^verbatim>\<open>Stop\<close> promises of the members of the server, without threads that call it: they change in
  stages. \<^verbatim>\<open>running_\<close> becomes false first; only then is the pool shut down, and destroyed when its workers
  have ended; only without a pool is the socket given up, and only without a socket the thread. Until it
  is destroyed the pool makes steps of its own.
\<close>

datatype stage = Pool_moves "request action" | Running_off | Pool_gone | Socket_gone | Thread_gone

definition shuts :: "request action \<Rightarrow> bool" where
  "shuts a = (a = Shuts_down \<or> a = Notifies_all \<or> a = Joins \<or> a = Clears)"

inductive stage_step :: "'s server_impl \<Rightarrow> stage \<Rightarrow> 's server_impl \<Rightarrow> bool" where
  pool_moves: "sv_thread_pool sv = Some p \<Longrightarrow> pool_step p a p' \<Longrightarrow> shuts a \<longrightarrow> \<not> sv_running sv \<Longrightarrow>
    stage_step sv (Pool_moves a) (sv\<lparr>sv_thread_pool := Some p'\<rparr>)"
| running_off: "sv_running sv \<Longrightarrow> stage_step sv Running_off (sv\<lparr>sv_running := False\<rparr>)"
| pool_gone: "\<not> sv_running sv \<Longrightarrow> sv_thread_pool sv = Some p \<Longrightarrow> tp_phase p = Down \<Longrightarrow>
    stage_step sv Pool_gone (sv\<lparr>sv_thread_pool := None\<rparr>)"
| socket_gone: "\<not> sv_running sv \<Longrightarrow> sv_thread_pool sv = None \<Longrightarrow>
    stage_step sv Socket_gone (sv\<lparr>sv_sockfd := -1\<rparr>)"
| thread_gone: "\<not> sv_running sv \<Longrightarrow> sv_thread_pool sv = None \<Longrightarrow> sv_sockfd sv = -1 \<Longrightarrow>
    stage_step sv Thread_gone (sv\<lparr>sv_server_thread := False\<rparr>)"

inductive_cases stage_stepE [elim]: "stage_step sv a sv'"

text \<open>Between the stages, every member that is gone was preceded by those before it.\<close>

definition stage_inv :: "'s server_impl \<Rightarrow> 's server_impl \<Rightarrow> bool" where
  "stage_inv sv0 sv = (
     (\<not> sv_server_thread sv \<longrightarrow> sv_sockfd sv = -1) \<and> (sv_sockfd sv \<noteq> sv_sockfd sv0 \<longrightarrow> sv_thread_pool sv = None) \<and>
     (sv_thread_pool sv = None \<longrightarrow> \<not> sv_running sv) \<and> (sv_sockfd sv = sv_sockfd sv0 \<or> sv_sockfd sv = -1) \<and>
     sv_root_dir sv = sv_root_dir sv0 \<and> sv_port sv = sv_port sv0 \<and> sv_secure_mode sv = sv_secure_mode sv0 \<and>
     sv_config sv = sv_config sv0 \<and> sv_thread_pool_size sv = sv_thread_pool_size sv0)"

interpretation stages: invariant_system "\<lambda>sv. started sv \<and> sv = sv0" stage_step "stage_inv sv0" for sv0
proof
  show "stage_inv sv0 sv" if "started sv \<and> sv = sv0" for sv
    using that by (auto simp: stage_inv_def started_def Start_def Let_def split: if_splits)
  show "stage_inv sv0 sv'" if "stage_inv sv0 sv" "stage_step sv a sv'" for sv a sv'
    using that(2,1) by cases (auto simp: stage_inv_def)
qed

text \<open>Stages that have led to the end of the server thread are the sequential \<^verbatim>\<open>Stop\<close>.\<close>

lemma stages_end:
  assumes "reach (\<lambda>sv'. started sv' \<and> sv' = sv0) stage_step sv" and "\<not> sv_server_thread sv" and "started sv0"
  shows "sv = Stop sv0"
proof -
  have "0 \<le> sv_sockfd sv0" "sv_running sv0"
    using assms(3) by (auto simp: started_def Start_def Let_def split: if_splits)
  then show ?thesis
    using stages.reach_inv [OF assms(1)] assms(2)
    by (intro server_impl.equality) (auto simp: stage_inv_def Stop_def)
qed

lemma caller_step_stage:
  assumes "stop_inv sv0 n st" and "c < length (st_callers st)" and "caller_step c st = Some st'"
  shows "st_sv st' = st_sv st \<or> (\<exists>a. stage_step (st_sv st) a (st_sv st'))"
proof -
  have ok: "caller_ok (sv_sockfd sv0) (st_sv st) (st_open st) (st_callers st ! c)"
    by (rule caller_inv [OF assms(1,2)])
  show ?thesis
  proof (cases "st_callers st ! c")
    case Stop_store
    then show ?thesis
      using assms(3) running_off [of "st_sv st"] by (cases "sv_running (st_sv st)") (auto simp: caller_step_simps)
  next
    case Stop_reset
    then obtain p where "sv_thread_pool (st_sv st) = Some p" "tp_phase p = Down" "\<not> sv_running (st_sv st)"
      using ok by (auto simp: caller_ok_def split: option.splits)
    then show ?thesis
      using pool_gone [of "st_sv st" p] Stop_reset assms(3) by (auto simp: caller_step_simps)
  next
    case Stop_forget
    then have "sv_thread_pool (st_sv st) = None" "\<not> sv_running (st_sv st)"
      using ok by (auto simp: caller_ok_def split: option.splits)
    then show ?thesis
      using socket_gone [of "st_sv st"] Stop_forget assms(3) by (auto simp: caller_step_simps)
  next
    case Stop_wait
    then have "sv_thread_pool (st_sv st) = None" "\<not> sv_running (st_sv st)" "sv_sockfd (st_sv st) = -1"
      using ok by (auto simp: caller_ok_def split: option.splits)
    then show ?thesis
      using thread_gone [of "st_sv st"] Stop_wait assms(3) by (auto simp: caller_step_simps split: if_splits)
  qed (use assms(3) in \<open>auto simp: caller_step_simps split: if_splits option.splits\<close>)
qed

lemma stop_step_stage:
  assumes inv: "stop_inv sv n st" and step: "stop_step k st a st'"
  shows "st_sv st' = st_sv st \<or> (\<exists>a. stage_step (st_sv st) a (st_sv st'))"
proof -
  have off: "\<not> sv_running (st_sv st)" if "c < length (st_callers st)" "in_pool (st_callers st ! c)" for c
    using caller_inv [OF inv that(1)] that(2) by (cases "st_callers st ! c") (auto simp: caller_ok_def)
  have moves: "\<exists>a. stage_step (st_sv st) a ((st_sv st)\<lparr>sv_thread_pool := Some p'\<rparr>)"
    if "the_pool st = Some p" "pool_step p b p'" "shuts b \<longrightarrow> \<not> sv_running (st_sv st)" for p b p'
    using pool_moves [OF _ that(2,3)] that(1) by (auto simp: the_pool_def)
  from step show ?thesis
  proof cases
    case (caller c)
    then show ?thesis
      using caller_step_stage [OF inv] by blast
  next
    case (loop_submits q p p')
    then show ?thesis
      using moves [OF loop_submits(4) submits [OF loop_submits(5,6)]] by (simp add: shuts_def)
  next
    case loops
    then show ?thesis
      by (cases "st_loop st") (auto simp: loop_step_def Let_def split: if_splits option.splits)
  qed (use moves off in \<open>auto simp: shuts_def\<close>)
qed

interpretation stop_stages: refinement "stop_init sv n" "stop_step k" "stop_inv sv n" "\<lambda>sv'. started sv' \<and> sv' = sv" stage_step st_sv
  for sv n k
  by standard (auto simp: stop_init_def stop_start_def dest: stop_step_stage)

lemma stop_done_final:
  assumes "stop_inv sv n st" and "Stop_done \<in> set (st_callers st)"
  shows "st_sv st = Stop sv \<and> st_loop st = Loop_exit \<and> st_open st = {}"
proof -
  note parts = stop_invD [OF assms(1)]
  have "caller_ok (sv_sockfd sv) (st_sv st) (st_open st) Stop_done"
    using parts(2) assms(2) by (simp add: list_all_iff)
  then have final: "\<not> sv_running (st_sv st)" "sv_thread_pool (st_sv st) = None" "sv_sockfd (st_sv st) = -1"
    "\<not> sv_server_thread (st_sv st)"
    by (auto simp: caller_ok_def split: option.splits)
  moreover have "st_loop st = Loop_exit" "st_open st = {}"
    using parts(3,5) final by (auto simp: loop_ok_def members_ok_def)
  moreover have "st_sv st = Stop sv"
    using parts(5) final by (intro server_impl.equality) (auto simp: Stop_def members_ok_def)
  ultimately show ?thesis
    by simp
qed

text \<open>
  C13. However many threads call \<^verbatim>\<open>Stop\<close>, and however they are interleaved with the server thread and the
  workers, the members of the server go through the stages of one orderly shutdown, in their order: the
  pool is shut down only when \<^verbatim>\<open>running_\<close> is false, the socket is given up only when the pool is
  destroyed, and the thread only after the socket. At most one call waits for the thread. The call that
  gets through to the end, unlike one that returns at once because it found \<^verbatim>\<open>running_\<close> false, leaves
  the members exactly as the sequential \<^verbatim>\<open>Stop\<close> does, with the socket closed and the server thread at its end.
\<close>

theorem stop_refines:
  assumes "reach (stop_init sv n) (stop_step k) st"
  shows "reach (\<lambda>sv'. started sv' \<and> sv' = sv) stage_step (st_sv st) \<and> st_joins st \<le> 1 \<and>
    (\<not> sv_server_thread (st_sv st) \<longrightarrow> st_sv st = Stop sv) \<and>
    (Stop_done \<in> set (st_callers st) \<longrightarrow> st_sv st = Stop sv \<and> st_loop st = Loop_exit \<and> st_open st = {})"
proof -
  have inv: "stop_inv sv n st"
    by (rule stop.reach_inv [OF assms])
  have stages: "reach (\<lambda>sv'. started sv' \<and> sv' = sv) stage_step (st_sv st)"
    by (rule stop_stages.reach_view [OF assms])
  have "started sv"
    using assms by (induction rule: reach.induct) (auto simp: stop_init_def)
  then have "\<not> sv_server_thread (st_sv st) \<longrightarrow> st_sv st = Stop sv"
    using stages_end [OF stages] by blast
  moreover have "st_joins st \<le> 1"
    using stop_invD(8) [OF inv] by (simp add: join_ok_def)
  ultimately show ?thesis
    using stages stop_done_final [OF inv] by blast
qed

text \<open>
  C14. Once \<^verbatim>\<open>running_\<close> is false, the threads make a bounded number of steps, if no worker wakes up
  without a notification. Whenever no thread can go on by itself, all calls of \<^verbatim>\<open>Stop\<close> have ended, one of them by
  going through to the end, but for two cases: a worker has missed the notification of the shutdown,
  or closing the socket does not interrupt the \<^verbatim>\<open>recvfrom\<close> of the server thread and no datagram comes. A call ends with an
  exception only if another call waits, or has waited, for the server thread.
\<close>

theorem stop_returns:
  assumes "reach (stop_init sv n) (stop_step k) st" and "\<not> sv_running (st_sv st)"
    and "run (stop_step k) st as st'" and "\<forall>i. Worker_spurious i \<notin> set as"
  shows "length as \<le> stop_effort st \<and>
    (can_go_on k st' \<or> list_all finished_stop (st_callers st') \<and> Stop_done \<in> set (st_callers st') \<or> lost_wakeup st' \<or>
     (\<not> k \<and> Stop_wait \<in> set (st_callers st') \<and> waits_in_recvfrom (st_loop st'))) \<and>
    (Stop_thrown \<in> set (st_callers st') \<longrightarrow> Stop_wait \<in> set (st_callers st') \<or> Stop_done \<in> set (st_callers st'))"
proof -
  have inv: "stop_inv sv n st"
    by (rule stop.reach_inv [OF assms(1)])
  then have inv': "stop_inv sv n st'"
    by (rule stop.run_inv [OF assms(3)])
  have "\<not> sv_running (st_sv st')"
    using assms(3,2) by (induction rule: run.induct) (auto dest: running_stays_false)
  then have "Stop_done \<in> set (st_callers st')" if "list_all finished_stop (st_callers st')"
    using that stop_invD(8) [OF inv'] by (force simp: join_ok_def finished_stop_def list_all_iff list_ex_iff)
  then show ?thesis
    using stop_progress [OF inv', of k] run_effort [OF assms(3) inv assms(2,4)] stop_invD(8) [OF inv'] by (auto simp: join_ok_def)
qed

subsection \<open>Examples\<close>

text \<open>A server with one worker; the states differ in the arguments only.\<close>

definition started_example :: "unit world server_impl" where
  "started_example = snd (Start \<lparr>se_socket = 3, se_setsockopt = 0, se_bind = 0, se_hardware_concurrency = 1\<rparr>
     (new_server_impl 1 ''/srv/tftp'' 69))"

definition stop_at :: "bool \<Rightarrow> request pool option \<Rightarrow> holder option \<Rightarrow> caller list \<Rightarrow> receiver \<Rightarrow> int \<Rightarrow> int list \<Rightarrow> nat \<Rightarrow>
    unit world stop_state" where
  "stop_at r p m cs l fd closed j = \<lparr>st_sv = started_example\<lparr>sv_running := r, sv_thread_pool := p, sv_sockfd := fd\<rparr>,
     st_mutex = m, st_callers = cs, st_loop = l, st_open = {3} - set closed, st_closed = closed, st_joins = j, st_refused = 0\<rparr>"

lemma stop_at_simps [simp]:
  "st_mutex (stop_at r p m cs l fd closed j) = m" "st_callers (stop_at r p m cs l fd closed j) = cs"
  "st_loop (stop_at r p m cs l fd closed j) = l" "the_pool (stop_at r p m cs l fd closed j) = p"
  "st_closed (stop_at r p m cs l fd closed j) = closed" "st_joins (stop_at r p m cs l fd closed j) = j"
  "sv_running (st_sv (stop_at r p m cs l fd closed j)) = r" "sv_sockfd (st_sv (stop_at r p m cs l fd closed j)) = fd"
  "sv_thread_pool (st_sv (stop_at r p m cs l fd closed j)) = p" "sv_server_thread (st_sv (stop_at r p m cs l fd closed j)) = True"
  by (simp_all add: stop_at_def the_pool_def started_example_def Start_def new_server_impl_def Let_def)

lemma stop_at_start: "stop_init started_example n (stop_at True (Some (new_pool 1 1)) None (replicate n Stop_check) Loop_test 3 [] 0)"
proof -
  let ?env = "\<lparr>se_socket = 3, se_setsockopt = 0, se_bind = 0, se_hardware_concurrency = 1\<rparr>"
    and ?sv = "new_server_impl 1 ''/srv/tftp'' 69 :: unit world server_impl"
  have "\<not> sv_running ?sv" "Start ?env ?sv = (True, started_example)"
    by (simp_all add: started_example_def Start_def new_server_impl_def Let_def)
  then have "started started_example"
    unfolding started_def by blast
  moreover have "stop_start started_example n = stop_at True (Some (new_pool 1 1)) None (replicate n Stop_check) Loop_test 3 [] 0"
    by (simp add: stop_start_def stop_at_def started_example_def Start_def new_server_impl_def Let_def)
  ultimately show ?thesis
    by (simp add: stop_init_def)
qed

text \<open>Steps of the callers alone, in the given order.\<close>

fun run_callers :: "nat list \<Rightarrow> 's stop_state \<Rightarrow> 's stop_state option" where
  "run_callers [] st = Some st"
| "run_callers (c # cs) st = (if c < length (st_callers st) then
     (case caller_step c st of None \<Rightarrow> None | Some st' \<Rightarrow> run_callers cs st') else None)"

lemma run_callers_run: "run_callers cs st = Some st' \<Longrightarrow> run (stop_step k) st (map Caller cs) st'"
  by (induction cs arbitrary: st) (auto split: if_splits option.splits intro: caller)

lemma stop_at_pool:
  "set_pool p' (stop_at r p m cs l fd closed j) = stop_at r p' m cs l fd closed j"
  "set_caller c pc (stop_at r p m cs l fd closed j) = stop_at r p m (cs[c := pc]) l fd closed j"
  "(stop_at r p m cs l fd closed j)\<lparr>st_mutex := m'\<rparr> = stop_at r p m' cs l fd closed j"
  "(stop_at r p m cs l fd closed j)\<lparr>st_loop := l'\<rparr> = stop_at r p m cs l' fd closed j"
  "(stop_at r p m cs l fd closed j)\<lparr>st_joins := j'\<rparr> = stop_at r p m cs l fd closed j'"
  "(stop_at r p m cs l fd closed j)\<lparr>st_open := st_open (stop_at r p m cs l fd closed j) - {x}, st_closed := x # closed\<rparr> =
     stop_at r p m cs l fd (x # closed) j"
  "(stop_at r p m cs l fd closed j)\<lparr>st_sv := (st_sv (stop_at r p m cs l fd closed j))\<lparr>sv_running := r'\<rparr>\<rparr> =
     stop_at r' p m cs l fd closed j"
  "(stop_at r p m cs l fd closed j)\<lparr>st_sv := (st_sv (stop_at r p m cs l fd closed j))\<lparr>sv_sockfd := fd'\<rparr>\<rparr> =
     stop_at r p m cs l fd' closed j"
  by (auto simp: stop_at_def set_pool_def set_caller_def)

lemma caller_at:
  "cs ! c = Stop_check \<Longrightarrow> caller_step c (stop_at r p m cs l fd closed j) =
     Some (stop_at r p m (cs[c := if r then Stop_store else Stop_ignored]) l fd closed j)"
  "cs ! c = Stop_store \<Longrightarrow> caller_step c (stop_at r p m cs l fd closed j) = Some (stop_at False p m (cs[c := Stop_lock]) l fd closed j)"
  "cs ! c = Stop_lock \<Longrightarrow> caller_step c (stop_at r p None cs l fd closed j) =
     Some (stop_at r p (Some (By_caller c)) (cs[c := Stop_pool]) l fd closed j)"
  "cs ! c = Stop_pool \<Longrightarrow> caller_step c (stop_at r None m cs l fd closed j) = Some (stop_at r None None (cs[c := Stop_close]) l fd closed j)"
  "cs ! c = Stop_reset \<Longrightarrow> caller_step c (stop_at r p m cs l fd closed j) = Some (stop_at r None None (cs[c := Stop_close]) l fd closed j)"
  "cs ! c = Stop_close \<Longrightarrow> caller_step c (stop_at r p m cs l fd closed j) =
     Some (stop_at r p m (cs[c := if 0 \<le> fd then Stop_closesocket else Stop_joinable]) l fd closed j)"
  "cs ! c = Stop_closesocket \<Longrightarrow> caller_step c (stop_at r p m cs l fd closed j) =
     Some (stop_at r p m (cs[c := Stop_forget]) l fd (fd # closed) j)"
  "cs ! c = Stop_forget \<Longrightarrow> caller_step c (stop_at r p m cs l fd closed j) = Some (stop_at r p m (cs[c := Stop_joinable]) l (-1) closed j)"
  "cs ! c = Stop_joinable \<Longrightarrow> caller_step c (stop_at r p m cs l fd closed j) = Some (stop_at r p m (cs[c := Stop_join]) l fd closed j)"
  "cs ! c = Stop_join \<Longrightarrow> Stop_wait \<notin> set cs \<Longrightarrow> caller_step c (stop_at r p m cs l fd closed j) =
     Some (stop_at r p m (cs[c := Stop_wait]) l fd closed (Suc j))"
  by (simp_all add: caller_step_simps stop_at_pool)

text \<open>Caller 0 has the mutex and shuts the pool down, while the worker exits.\<close>

lemma shutdown_run:
  "run (stop_step k) (stop_at False (Some (new_pool 1 1)) (Some (By_caller 0)) (Stop_pool # cs) l 3 [] 0)
     [Caller 0, Worker 0, Caller 0, Caller 0, Caller 0, Caller 0]
     (stop_at False None None (Stop_close # cs) l 3 [] 0)"
proof -
  let ?at = "\<lambda>p pc. stop_at False (Some p) (Some (By_caller 0)) (pc # cs) l 3 [] 0"
  have "pool_step (one_worker False Up At_loop) Shuts_down (one_worker True Flagged At_loop :: request pool)"
    using shuts_down [of "one_worker False Up At_loop :: request pool"] by (simp add: one_worker_def new_pool_def)
  from enters_shutdown [OF _ _ _ this, of 0 "?at (one_worker False Up At_loop) Stop_pool"]
  have "stop_step k (?at (new_pool 1 1) Stop_pool) (Caller 0) (?at (one_worker True Flagged At_loop) Stop_shutdown)"
    unfolding one_worker_new by (simp add: stop_at_pool)
  moreover have "pool_step (one_worker True Flagged At_loop) (Works 0) (one_worker True Flagged Exited :: request pool)"
    by (rule one_worker_works) (simp add: worker_step_def one_worker_def set_worker_def)
  from worker [OF _ this, of "?at (one_worker True Flagged At_loop) Stop_shutdown"]
  have "stop_step k (?at (one_worker True Flagged At_loop) Stop_shutdown) (Worker 0) (?at (one_worker True Flagged Exited) Stop_shutdown)"
    by (simp add: stop_at_pool)
  moreover have "pool_step (one_worker True Flagged Exited) Notifies_all (one_worker True Joining Exited :: request pool)"
    using notifies_all [of "one_worker True Flagged Exited :: request pool"] by (simp add: one_worker_def new_pool_def wake_def)
  from shuts_down_pool [OF _ _ _ this, of 0 "?at (one_worker True Flagged Exited) Stop_shutdown"]
  have "stop_step k (?at (one_worker True Flagged Exited) Stop_shutdown) (Caller 0) (?at (one_worker True Joining Exited) Stop_shutdown)"
    by (simp add: stop_at_pool)
  moreover have "pool_step (one_worker True Joining Exited) Joins (one_worker True Joined Exited :: request pool)"
    using joins [of "one_worker True Joining Exited :: request pool"] by (simp add: one_worker_def new_pool_def)
  from shuts_down_pool [OF _ _ _ this, of 0 "?at (one_worker True Joining Exited) Stop_shutdown"]
  have "stop_step k (?at (one_worker True Joining Exited) Stop_shutdown) (Caller 0) (?at (one_worker True Joined Exited) Stop_shutdown)"
    by (simp add: stop_at_pool)
  moreover have "pool_step (one_worker True Joined Exited) Clears (one_worker True Down Exited :: request pool)"
    using clears [of "one_worker True Joined Exited :: request pool"] by (simp add: one_worker_def new_pool_def lock_free_def)
  from leaves_shutdown [OF _ _ _ this, of 0 "?at (one_worker True Joined Exited) Stop_shutdown"]
  have "stop_step k (?at (one_worker True Joined Exited) Stop_shutdown) (Caller 0) (?at (one_worker True Down Exited) Stop_reset)"
    by (simp add: stop_at_pool)
  moreover have "stop_step k (?at (one_worker True Down Exited) Stop_reset) (Caller 0) (stop_at False None None (Stop_close # cs) l 3 [] 0)"
    by (rule caller) (simp_all add: caller_step_simps stop_at_pool)
  ultimately show ?thesis
    unfolding run_simps by blast
qed

text \<open>One call of \<^verbatim>\<open>Stop\<close> up to the join, while the server thread does not move.\<close>

lemma run_to_join:
  "run (stop_step k) (stop_at True (Some (new_pool 1 1)) None [Stop_check] l 3 [] 0)
     (map Caller [0, 0, 0] @ [Caller 0, Worker 0, Caller 0, Caller 0, Caller 0, Caller 0] @ map Caller [0, 0, 0, 0, 0])
     (stop_at False None None [Stop_wait] l (-1) [3] 1)"
  by (rule run_append [OF run_callers_run run_append [OF shutdown_run [where cs = "[]"] run_callers_run]])
    (simp_all add: caller_at)

lemma reach_one_caller:
  "reach (stop_init started_example 1) (stop_step k) (stop_at True (Some (new_pool 1 1)) None [Stop_check] Loop_test 3 [] 0)"
  by (rule reach_init) (use stop_at_start [of 1] in simp)

text \<open>
  C38. Where closing a socket does not interrupt a \<^verbatim>\<open>recvfrom\<close> on it, as on Linux, \<^verbatim>\<open>Stop\<close> can hang: it closes
  the socket while the server thread waits in \<^verbatim>\<open>recvfrom\<close>, and joins this thread. Nothing in the
  program ends the wait.
\<close>

theorem stop_waits_for_datagram:
  "\<exists>st. reach (stop_init started_example 1) (stop_step False) st \<and> st_callers st = [Stop_wait] \<and>
     st_loop st = Loop_recv 3 \<and> st_open st = {} \<and> \<not> can_go_on False st"
proof (intro exI [of _ "stop_at False None None [Stop_wait] (Loop_recv 3) (-1) [3] 1"] conjI)
  let ?at = "\<lambda>l. stop_at True (Some (new_pool 1 1)) None [Stop_check] l 3 [] 0"
  have "stop_step False (?at Loop_test) Loop (?at Loop_call)" "stop_step False (?at Loop_call) Loop (?at (Loop_recv 3))"
    by (rule loops; simp add: loop_step_def stop_at_def started_example_def)+
  then have "run (stop_step False) (?at Loop_test) [Loop, Loop] (?at (Loop_recv 3))"
    unfolding run_simps by blast
  from stop.reach_run [OF this reach_one_caller]
  have "reach (stop_init started_example 1) (stop_step False) (?at (Loop_recv 3))" .
  then show "reach (stop_init started_example 1) (stop_step False) (stop_at False None None [Stop_wait] (Loop_recv 3) (-1) [3] 1)"
    by (rule stop.reach_run [OF run_to_join])
  show "\<not> can_go_on False (stop_at False None None [Stop_wait] (Loop_recv 3) (-1) [3] 1)"
    by (auto simp: can_go_on_def caller_step_simps loop_step_def)
qed (simp_all add: stop_at_def)

text \<open>The instances of the properties for this server, stopped by one thread.\<close>

lemma reach_join: "reach (stop_init started_example 1) (stop_step k) (stop_at False None None [Stop_wait] Loop_test (-1) [3] 1)"
  by (rule stop.reach_run [OF run_to_join reach_one_caller])

theorem stop_pool_safe_witness: "st_refused (stop_at False None None [Stop_wait] Loop_test (-1) [3] 1) = 0"
  using stop_pool_safe [OF reach_join] by blast

theorem stop_returns_witness:
  "\<exists>st'. run (stop_step True) (stop_at False None None [Stop_wait] Loop_test (-1) [3] 1) [Loop] st' \<and>
     (can_go_on True st' \<or> list_all finished_stop (st_callers st'))"
proof -
  let ?st = "stop_at False None None [Stop_wait] Loop_test (-1) [3] 1"
    and ?st' = "stop_at False None None [Stop_wait] Loop_exit (-1) [3] 1"
  have "stop_step True ?st Loop ?st'"
    by (rule loops) (simp add: loop_step_def stop_at_def started_example_def)
  then have run: "run (stop_step True) ?st [Loop] ?st'"
    by simp
  then show ?thesis
    using stop_returns [OF reach_join _ run] by (auto simp: lost_wakeup_def)
qed

theorem stop_refines_witness:
  "\<exists>st. reach (stop_init started_example 1) (stop_step True) st \<and> st_callers st = [Stop_done] \<and> st_sv st = Stop started_example"
proof -
  let ?st = "stop_at False None None [Stop_wait] Loop_exit (-1) [3] 1"
  have "stop_step True (stop_at False None None [Stop_wait] Loop_test (-1) [3] 1) Loop ?st"
    by (rule loops) (simp add: loop_step_def stop_at_def started_example_def)
  from reach_step [where step = "stop_step True", OF reach_join this]
  have "reach (stop_init started_example 1) (stop_step True) ?st" .
  obtain st where st: "stop_step True ?st (Caller 0) st" "st_callers st = [Stop_done]"
    using caller [of 0 ?st _ True] by (force simp: caller_step_simps)
  from \<open>reach (stop_init started_example 1) (stop_step True) ?st\<close>
  have "reach (stop_init started_example 1) (stop_step True) st"
    by (rule reach_step [where step = "stop_step True", OF _ st(1)])
  then show ?thesis
    using stop_refines [of started_example 1 True st] st(2) by auto
qed

text \<open>Two calls that both find \<^verbatim>\<open>running_\<close> true, up to the moment when both are past the pool.\<close>

lemma two_stops_run:
  "run (stop_step k) (stop_at True (Some (new_pool 1 1)) None [Stop_check, Stop_check] l 3 [] 0)
     (map Caller [0, 1, 0, 1, 0] @ [Caller 0, Worker 0, Caller 0, Caller 0, Caller 0, Caller 0] @ map Caller [1, 1])
     (stop_at False None None [Stop_close, Stop_close] l 3 [] 0)"
  by (rule run_append [OF run_callers_run run_append [OF shutdown_run [where cs = "[Stop_lock]"] run_callers_run]])
    (simp_all add: caller_at)

text \<open>
  C26. \<^verbatim>\<open>Stop\<close> is not safe to be called by two threads at once. There are interleavings in which
  one call has returned, as it found \<^verbatim>\<open>running_\<close> false, while the socket is open and the server thread is
  running; in which both calls close the descriptor; and in which one call is left by the exception of
  \<^verbatim>\<open>join\<close>, as the other one has joined the server thread between the test and the call.
\<close>

theorem concurrent_stops_unsafe:
  "(\<exists>st. reach (stop_init started_example 2) (stop_step k) st \<and> st_callers st = [Stop_lock, Stop_ignored] \<and>
      st_open st = {3} \<and> st_loop st = Loop_test \<and> sv_server_thread (st_sv st)) \<and>
   (\<exists>st. reach (stop_init started_example 2) (stop_step k) st \<and> st_closed st = [3, 3]) \<and>
   (\<exists>st. reach (stop_init started_example 2) (stop_step k) st \<and> st_callers st = [Stop_done, Stop_thrown])"
proof (intro conjI)
  let ?reach = "reach (stop_init started_example 2) (stop_step k)" and ?at = "\<lambda>r p cs l fd closed j. stop_at r p None cs l fd closed j"
  let ?s0 = "?at True (Some (new_pool 1 1)) [Stop_check, Stop_check]"
  have start: "?reach (?s0 Loop_test 3 [] 0)"
    by (rule reach_init) (use stop_at_start [of 2] in \<open>simp add: numeral_2_eq_2\<close>)
  let ?early = "?at False (Some (new_pool 1 1)) [Stop_lock, Stop_ignored] Loop_test 3 [] 0"
  have "run (stop_step k) (?s0 Loop_test 3 [] 0) (map Caller [0, 0, 1]) ?early"
    by (rule run_callers_run) (simp add: caller_at)
  from stop.reach_run [OF this start]
  show "\<exists>st. ?reach st \<and> st_callers st = [Stop_lock, Stop_ignored] \<and> st_open st = {3} \<and> st_loop st = Loop_test \<and> sv_server_thread (st_sv st)"
    by (intro exI [of _ ?early]) (simp add: stop_at_def started_example_def Start_def new_server_impl_def Let_def)
  have both: "?reach (?at False None [Stop_close, Stop_close] Loop_test 3 [] 0)"
    by (rule stop.reach_run [OF two_stops_run start])
  let ?twice = "?at False None [Stop_forget, Stop_forget] Loop_test 3 [3, 3] 0"
  have "run (stop_step k) (?at False None [Stop_close, Stop_close] Loop_test 3 [] 0) (map Caller [0, 1, 0, 1]) ?twice"
    by (rule run_callers_run) (simp add: caller_at)
  from stop.reach_run [OF this both] show "\<exists>st. ?reach st \<and> st_closed st = [3, 3]"
    by (intro exI [of _ ?twice]) simp
  let ?joins = "?at False None [Stop_wait, Stop_join]"
  have "run (stop_step k) (?at False None [Stop_close, Stop_close] Loop_test 3 [] 0) (map Caller [0, 0, 0, 0, 1, 1, 0]) (?joins Loop_test (-1) [3] 1)"
    by (rule run_callers_run) (simp add: caller_at)
  from stop.reach_run [OF this both] have "?reach (?joins Loop_test (-1) [3] 1)" .
  moreover have "stop_step k (?joins Loop_test (-1) [3] 1) Loop (?joins Loop_exit (-1) [3] 1)"
    by (rule loops) (simp add: loop_step_def stop_at_def started_example_def)
  ultimately have joins: "?reach (?joins Loop_exit (-1) [3] 1)"
    by (rule reach_step)
  obtain st where "run_callers [0, 1] (?joins Loop_exit (-1) [3] 1) = Some st" "st_callers st = [Stop_done, Stop_thrown]"
    by (simp add: caller_step_simps)
  then show "\<exists>st. ?reach st \<and> st_callers st = [Stop_done, Stop_thrown]"
    using stop.reach_run [OF run_callers_run joins] by blast
qed

end
