(* ===== verification/Cpp_Regex.thy ===== *)
theory Cpp_Regex
  imports Cpp_Std
begin

section \<open>Regular expressions\<close>

text \<open>
  What the sources use of \<^verbatim>\<open>std::regex\<close>: \<^verbatim>\<open>regex_match\<close> of a whole string against an expression made
  of character classes, sequences, groups, optional parts and bounded and unbounded repetition. The
  matcher works by derivatives; \<open>regex_match_iff\<close> relates it to the language of the expression.
\<close>

datatype regex =
    Never
  | Eps
  | Cls "char list"
  | Alt regex regex
  | Cat regex regex
  | Star regex

fun nullable :: "regex \<Rightarrow> bool" where
  "nullable Never = False"
| "nullable Eps = True"
| "nullable (Cls cs) = False"
| "nullable (Alt r s) = (nullable r \<or> nullable s)"
| "nullable (Cat r s) = (nullable r \<and> nullable s)"
| "nullable (Star r) = True"

fun deriv :: "char \<Rightarrow> regex \<Rightarrow> regex" where
  "deriv c Never = Never"
| "deriv c Eps = Never"
| "deriv c (Cls cs) = (if c \<in> set cs then Eps else Never)"
| "deriv c (Alt r s) = Alt (deriv c r) (deriv c s)"
| "deriv c (Cat r s) =
     (if nullable r then Alt (Cat (deriv c r) s) (deriv c s) else Cat (deriv c r) s)"
| "deriv c (Star r) = Cat (deriv c r) (Star r)"

definition regex_match :: "string \<Rightarrow> regex \<Rightarrow> bool" where
  "regex_match s r = nullable (fold deriv s r)"

fun repeat :: "nat \<Rightarrow> regex \<Rightarrow> regex" where
  "repeat 0 r = Eps"
| "repeat (Suc n) r = Cat r (repeat n r)"

fun up_to :: "nat \<Rightarrow> regex \<Rightarrow> regex" where
  "up_to 0 r = Eps"
| "up_to (Suc n) r = Alt Eps (Cat r (up_to n r))"

definition optional :: "regex \<Rightarrow> regex" where
  "optional r = Alt Eps r"

definition char_range :: "char \<Rightarrow> char \<Rightarrow> char list" where
  "char_range a b = map (\<lambda>i. char_of i) [of_char a ..< Suc (of_char b)]"

text \<open>The language of an expression.\<close>

inductive in_lang :: "string \<Rightarrow> regex \<Rightarrow> bool" where
  eps: "in_lang [] Eps"
| cls: "c \<in> set cs \<Longrightarrow> in_lang [c] (Cls cs)"
| altL: "in_lang u r \<Longrightarrow> in_lang u (Alt r s)"
| altR: "in_lang u s \<Longrightarrow> in_lang u (Alt r s)"
| cat: "in_lang u r \<Longrightarrow> in_lang v s \<Longrightarrow> in_lang (u @ v) (Cat r s)"
| star0: "in_lang [] (Star r)"
| star1: "in_lang u r \<Longrightarrow> in_lang v (Star r) \<Longrightarrow> in_lang (u @ v) (Star r)"

inductive_simps in_lang_simps [simp]:
  "in_lang u Never" "in_lang u Eps" "in_lang u (Cls cs)" "in_lang u (Alt r s)" "in_lang u (Cat r s)"

inductive_cases in_lang_StarE: "in_lang u (Star r)"

lemma in_lang_star_Cons:
  "in_lang w (Star r) \<Longrightarrow> w = c # u \<Longrightarrow> \<exists>v1 v2. u = v1 @ v2 \<and> in_lang (c # v1) r \<and> in_lang v2 (Star r)"
  by (induction w "Star r" arbitrary: u rule: in_lang.induct) (auto simp: append_eq_Cons_conv)

lemma nullable_iff: "nullable r \<longleftrightarrow> in_lang [] r"
  by (induction r) (auto intro: in_lang.intros)

lemma deriv_iff: "in_lang u (deriv c r) \<longleftrightarrow> in_lang (c # u) r"
proof (induction r arbitrary: u)
  case (Cat r s)
  then show ?case
    by (auto simp: nullable_iff Cons_eq_append_conv)
next
  case (Star r)
  show ?case
  proof
    assume "in_lang u (deriv c (Star r))"
    then obtain v1 v2 where "u = v1 @ v2" "in_lang (c # v1) r" "in_lang v2 (Star r)"
      using Star.IH by auto
    then show "in_lang (c # u) (Star r)"
      using in_lang.star1 [of "c # v1" r v2] by simp
  next
    assume "in_lang (c # u) (Star r)"
    then show "in_lang u (deriv c (Star r))"
      using in_lang_star_Cons Star.IH by fastforce
  qed
qed auto

lemma regex_match_iff: "regex_match s r \<longleftrightarrow> in_lang s r"
  unfolding regex_match_def by (induction s arbitrary: r) (simp_all add: nullable_iff deriv_iff)

lemma in_lang_repeat: "in_lang u (repeat n r) \<longleftrightarrow> (\<exists>us. u = concat us \<and> length us = n \<and> (\<forall>v \<in> set us. in_lang v r))"
proof (induction n arbitrary: u)
  case (Suc n)
  show ?case
  proof
    assume "in_lang u (repeat (Suc n) r)"
    then obtain v us where "u = v @ concat us" "in_lang v r" "length us = n" "\<forall>v \<in> set us. in_lang v r"
      using Suc.IH by auto
    then show "\<exists>us. u = concat us \<and> length us = Suc n \<and> (\<forall>v \<in> set us. in_lang v r)"
      by (intro exI [of _ "v # us"]) auto
  next
    assume "\<exists>us. u = concat us \<and> length us = Suc n \<and> (\<forall>v \<in> set us. in_lang v r)"
    then obtain v us where "u = v @ concat us" "in_lang v r" "length us = n" "\<forall>v \<in> set us. in_lang v r"
      by (auto simp: length_Suc_conv)
    then show "in_lang u (repeat (Suc n) r)"
      using Suc.IH [of "concat us"] by auto
  qed
qed simp

lemma in_lang_Cat_Cls:
  "in_lang u (Cat (Cls cs) s) \<longleftrightarrow> (\<exists>c v. u = c # v \<and> c \<in> set cs \<and> in_lang v s)"
proof
  assume "\<exists>c v. u = c # v \<and> c \<in> set cs \<and> in_lang v s"
  then obtain c v where "u = [c] @ v" "c \<in> set cs" "in_lang v s"
    by auto
  then show "in_lang u (Cat (Cls cs) s)"
    by (blast intro: in_lang.intros)
qed auto

lemma in_lang_up_to_Cls:
  "in_lang u (up_to n (Cls cs)) \<longleftrightarrow> length u \<le> n \<and> set u \<subseteq> set cs"
proof (induction n arbitrary: u)
  case (Suc n)
  have "in_lang u (up_to (Suc n) (Cls cs)) \<longleftrightarrow>
      u = [] \<or> (\<exists>c v. u = c # v \<and> c \<in> set cs \<and> in_lang v (up_to n (Cls cs)))"
    unfolding up_to.simps in_lang_simps(4) in_lang_Cat_Cls by simp
  then show ?case
    using Suc.IH by (cases u) auto
qed auto

end
