(* ===== verification/Tftp_Validation.thy ===== *)
theory Tftp_Validation
  imports Tftp_Packet Cpp_Filesystem Cpp_Regex
begin

section \<open>Validation of parameters\<close>

text \<open>
  The functions and constants of \<^verbatim>\<open>src/tftp_validation.cpp\<close> and \<^verbatim>\<open>include/tftp/tftp_validation.h\<close>,
  and what a value that passes them guarantees to the code that uses it.
\<close>

definition kMinTimeout :: int where [guard_simps]: "kMinTimeout = 1"
definition kMaxTimeout :: int where [guard_simps]: "kMaxTimeout = 3600"
definition kMinPort :: uint16 where [guard_simps]: "kMinPort = 1"
definition kMaxPort :: uint16 where [guard_simps]: "kMaxPort = 65535"
definition kMinTransferSize :: uint64 where [guard_simps]: "kMinTransferSize = 512"
definition kMaxTransferSize :: uint64 where [guard_simps]: "kMaxTransferSize = 1024 * 1024 * 1024"
definition kMaxPathLength :: nat where [guard_simps]: "kMaxPathLength = 4096"
definition kMaxHostnameLength :: nat where [guard_simps]: "kMaxHostnameLength = 253"

definition ValidateRootDirectory :: "string \<Rightarrow> bool" where
  "ValidateRootDirectory root_dir =
     (if root_dir = [] then False
      else if length root_dir > kMaxPathLength then False
      else if NUL \<in> set root_dir then False
      else \<not> str_contains (lexically_normal root_dir) ''..'')"

definition ValidatePort :: "uint16 \<Rightarrow> bool" where
  "ValidatePort port = (port \<noteq> 0)"

definition ValidateTimeout :: "int \<Rightarrow> bool" where
  "ValidateTimeout timeout_seconds =
     (if timeout_seconds < kMinTimeout then False
      else if timeout_seconds > kMaxTimeout then False
      else True)"

definition ValidateTransferSize :: "uint64 \<Rightarrow> bool" where
  "ValidateTransferSize size' =
     (if size' < kMinTransferSize then False
      else if size' > kMaxTransferSize then False
      else True)"

text \<open>The two expressions of \<^verbatim>\<open>ValidateHost\<close>.\<close>

definition digits :: "char list" where
  "digits = char_range (CHR ''0'') (CHR ''9'')"

definition alnums :: "char list" where
  "alnums = char_range (CHR ''a'') (CHR ''z'') @ char_range (CHR ''A'') (CHR ''Z'') @ digits"

definition octet_pattern :: regex where
  "octet_pattern = Cat (Cls digits) (up_to 2 (Cls digits))"

definition ipv4_pattern :: regex where
  "ipv4_pattern = Cat (repeat 3 (Cat octet_pattern (Cls ''.''))) octet_pattern"

definition label_pattern :: regex where
  "label_pattern = Cat (Cls alnums)
     (optional (Cat (up_to 61 (Cls (alnums @ ''-''))) (Cls alnums)))"

definition hostname_pattern :: regex where
  "hostname_pattern = Cat label_pattern (Star (Cat (Cls ''.'') label_pattern))"

text \<open>The parts that repeated \<^verbatim>\<open>getline\<close> with a delimiter reads: a last empty part is not one.\<close>

fun split_at :: "char \<Rightarrow> string \<Rightarrow> string list" where
  "split_at d [] = [[]]"
| "split_at d (c # s) = (if c = d then [] # split_at d s
     else (case split_at d s of [] \<Rightarrow> [[c]] | x # xs \<Rightarrow> (c # x) # xs))"

definition getlines :: "char \<Rightarrow> string \<Rightarrow> string list" where
  "getlines d s = (let ps = split_at d s in if last ps = [] then butlast ps else ps)"

text \<open>The loop over the octets; an exception of \<^verbatim>\<open>stoi\<close> is caught by the caller.\<close>

fun check_octets :: "string list \<Rightarrow> bool result" where
  "check_octets [] = Inr True"
| "check_octets (octet # octets) = (case stoi octet of
       Inl x \<Rightarrow> Inl x
     | Inr val \<Rightarrow> if val < 0 \<or> val > 255 then Inr False else check_octets octets)"

definition ValidateHost :: "string \<Rightarrow> bool" where
  "ValidateHost host =
     (if host = [] then False
      else if length host > kMaxHostnameLength then False
      else if NUL \<in> set host then False
      else if regex_match host ipv4_pattern then
        (case check_octets (getlines (CHR ''.'') host) of Inl x \<Rightarrow> False | Inr ok \<Rightarrow> ok)
      else if regex_match host hostname_pattern then True
      else True)"

definition ValidateFilename :: "string \<Rightarrow> bool" where
  "ValidateFilename filename =
     (if filename = [] then False
      else if length filename > kMaxFilenameLength then False
      else if NUL \<in> set filename then False
      else if str_contains filename ''..'' then False
      else if filename ! 0 = CHR ''/'' \<or> filename ! 0 = CHR 92 then False
      else if length filename \<ge> 2 \<and> filename ! 1 = CHR '':'' then False
      else \<not> list_ex iscntrl filename)"

fun ValidateTransferMode :: "TransferMode \<Rightarrow> bool" where
  "ValidateTransferMode kNetAscii = True"
| "ValidateTransferMode kOctet = True"
| "ValidateTransferMode kMail = True"
| "ValidateTransferMode (TransferMode_unknown v) = False"

text \<open>A callback is an option: \<open>None\<close> is the empty \<^verbatim>\<open>std::function\<close>.\<close>

definition ValidateCallback :: "'f option \<Rightarrow> bool" where
  "ValidateCallback callback = (callback \<noteq> None)"

definition ValidateString :: "string \<Rightarrow> nat \<Rightarrow> bool" where
  "ValidateString str max_length =
     (if length str > max_length then False else if NUL \<in> set str then False else True)"

definition ValidateDataBuffer :: "byte list \<Rightarrow> nat \<Rightarrow> bool" where
  "ValidateDataBuffer data max_size = (if length data > max_size then False else True)"

subsection \<open>Hosts\<close>

definition octet :: "string \<Rightarrow> bool" where
  "octet s = (s \<noteq> [] \<and> length s \<le> 3 \<and> list_all isdigit s)"

lemma set_char_range: "c \<in> set (char_range a b) \<longleftrightarrow> of_char a \<le> (of_char c :: nat) \<and> of_char c \<le> (of_char b :: nat)"
proof
  assume "of_char a \<le> (of_char c :: nat) \<and> of_char c \<le> (of_char b :: nat)"
  then have "c \<in> char_of ` {of_char a..<Suc (of_char b)}"
    by (intro image_eqI [of _ _ "of_char c"]) auto
  then show "c \<in> set (char_range a b)"
    unfolding char_range_def set_map set_upt .
next
  assume "c \<in> set (char_range a b)"
  then obtain x where x: "c = char_of x" "of_char a \<le> x" "x \<le> (of_char b :: nat)"
    by (auto simp: char_range_def)
  moreover have "x < 256"
    using x(3) nat_of_char_less_256 [of b] by linarith
  ultimately show "of_char a \<le> (of_char c :: nat) \<and> of_char c \<le> (of_char b :: nat)"
    by simp
qed

lemma in_digits: "c \<in> set digits \<longleftrightarrow> isdigit c"
  by (simp add: digits_def set_char_range isdigit_def Let_def)

lemma octet_pattern_iff: "in_lang s octet_pattern \<longleftrightarrow> octet s"
  by (cases s) (auto simp: octet_pattern_def in_lang_Cat_Cls in_lang_up_to_Cls octet_def in_digits list_all_iff
      simp del: in_lang_simps(5))

lemma dotted_octet_iff: "in_lang s (Cat octet_pattern (Cls ''.'')) \<longleftrightarrow> (\<exists>a. s = a @ ''.'' \<and> octet a)"
  by (auto simp: octet_pattern_iff)

lemma ipv4_pattern_iff:
  "regex_match h ipv4_pattern \<longleftrightarrow>
   (\<exists>a b c d. h = a @ ''.'' @ b @ ''.'' @ c @ ''.'' @ d \<and> octet a \<and> octet b \<and> octet c \<and> octet d)"
proof -
  have "in_lang u (repeat 3 (Cat octet_pattern (Cls ''.''))) \<longleftrightarrow>
      (\<exists>a b c. u = a @ ''.'' @ b @ ''.'' @ c @ ''.'' \<and> octet a \<and> octet b \<and> octet c)" for u
  proof
    assume "in_lang u (repeat 3 (Cat octet_pattern (Cls ''.'')))"
    then obtain us where u: "u = concat us" "length us = 3" "\<forall>v \<in> set us. in_lang v (Cat octet_pattern (Cls ''.''))"
      unfolding in_lang_repeat by blast
    moreover obtain x y z where "us = [x, y, z]"
      using u(2) by (auto simp: length_Suc_conv numeral_3_eq_3)
    ultimately show "\<exists>a b c. u = a @ ''.'' @ b @ ''.'' @ c @ ''.'' \<and> octet a \<and> octet b \<and> octet c"
      unfolding dotted_octet_iff by fastforce
  next
    assume "\<exists>a b c. u = a @ ''.'' @ b @ ''.'' @ c @ ''.'' \<and> octet a \<and> octet b \<and> octet c"
    then obtain a b c where "u = concat [a @ ''.'', b @ ''.'', c @ ''.'']" "octet a" "octet b" "octet c"
      by auto
    then show "in_lang u (repeat 3 (Cat octet_pattern (Cls ''.'')))"
      unfolding in_lang_repeat by (intro exI [of _ "[a @ ''.'', b @ ''.'', c @ ''.'']"]) (auto simp: octet_pattern_iff)
  qed
  then have "regex_match h ipv4_pattern \<longleftrightarrow> (\<exists>u d. h = u @ d \<and>
      (\<exists>a b c. u = a @ ''.'' @ b @ ''.'' @ c @ ''.'' \<and> octet a \<and> octet b \<and> octet c) \<and> octet d)"
    unfolding regex_match_iff ipv4_pattern_def in_lang_simps(5) octet_pattern_iff by simp
  also have "\<dots> \<longleftrightarrow> (\<exists>a b c d. h = (a @ ''.'' @ b @ ''.'' @ c @ ''.'') @ d \<and> octet a \<and> octet b \<and> octet c \<and> octet d)"
    by blast
  finally show ?thesis
    by simp
qed

lemma split_at_append: "d \<notin> set a \<Longrightarrow> split_at d (a @ d # s) = a # split_at d s"
  by (induction a) auto

lemma split_at_name: "d \<notin> set a \<Longrightarrow> split_at d a = [a]"
  by (induction a) auto

lemma octet_no_dot: "octet a \<Longrightarrow> CHR ''.'' \<notin> set a"
  by (auto simp: octet_def list_all_iff isdigit_def)

lemma getlines_quad:
  assumes "octet a" "octet b" "octet c" "octet d"
  shows "getlines (CHR ''.'') (a @ ''.'' @ b @ ''.'' @ c @ ''.'' @ d) = [a, b, c, d]"
  using assms assms [THEN octet_no_dot]
  by (auto simp: getlines_def split_at_append split_at_name octet_def)

lemma stoi_octet:
  assumes "octet a"
  shows "stoi a = Inr (int (dec_value a))"
proof -
  have "dec_value a < 10 ^ length a"
    using assms dec_value_bound [of a] by (simp add: octet_def)
  moreover have "(10 :: nat) ^ length a \<le> 10 ^ 3"
    using assms by (intro power_increasing) (auto simp: octet_def)
  ultimately show ?thesis
    using assms by (simp add: stoi_def strto_digits octet_def INT_MIN_def INT_MAX_def)
qed

definition quads_small :: "string \<Rightarrow> bool" where
  "quads_small host = (\<forall>a b c d. octet a \<and> octet b \<and> octet c \<and> octet d \<and>
     host = a @ ''.'' @ b @ ''.'' @ c @ ''.'' @ d \<longrightarrow>
     dec_value a \<le> 255 \<and> dec_value b \<le> 255 \<and> dec_value c \<le> 255 \<and> dec_value d \<le> 255)"

lemma check_octets_quad:
  assumes "regex_match host ipv4_pattern"
  shows "(case check_octets (getlines (CHR ''.'') host) of Inl x \<Rightarrow> False | Inr ok \<Rightarrow> ok) \<longleftrightarrow> quads_small host"
proof -
  obtain a b c d where h: "host = a @ ''.'' @ b @ ''.'' @ c @ ''.'' @ d"
    and o: "octet a" "octet b" "octet c" "octet d"
    using assms by (auto simp: ipv4_pattern_iff)
  have unique: "a' = a \<and> b' = b \<and> c' = c \<and> d' = d"
    if "octet a'" "octet b'" "octet c'" "octet d'" "host = a' @ ''.'' @ b' @ ''.'' @ c' @ ''.'' @ d'" for a' b' c' d'
  proof -
    have "getlines (CHR ''.'') host = [a', b', c', d']"
      using getlines_quad [OF that(1-4)] that(5) by metis
    moreover have "getlines (CHR ''.'') host = [a, b, c, d]"
      using getlines_quad [OF o] h by metis
    ultimately show ?thesis
      by simp
  qed
  have "(case check_octets (getlines (CHR ''.'') host) of Inl x \<Rightarrow> False | Inr ok \<Rightarrow> ok) \<longleftrightarrow>
      dec_value a \<le> 255 \<and> dec_value b \<le> 255 \<and> dec_value c \<le> 255 \<and> dec_value d \<le> 255"
    unfolding h getlines_quad [OF o] by (auto simp: stoi_octet o)
  moreover have "quads_small host \<longleftrightarrow> dec_value a \<le> 255 \<and> dec_value b \<le> 255 \<and> dec_value c \<le> 255 \<and> dec_value d \<le> 255"
    (is "_ \<longleftrightarrow> ?small")
  proof
    assume quads: "quads_small host"
    have "octet a \<and> octet b \<and> octet c \<and> octet d \<and> host = a @ ''.'' @ b @ ''.'' @ c @ ''.'' @ d"
      by (intro conjI o h)
    then show ?small
      by (rule quads [unfolded quads_small_def, THEN spec, THEN spec, THEN spec, THEN spec, THEN mp])
  next
    assume small: ?small
    show "quads_small host"
      unfolding quads_small_def
    proof (intro allI impI, elim conjE)
      fix a' b' c' d'
      assume "octet a'" "octet b'" "octet c'" "octet d'" "host = a' @ ''.'' @ b' @ ''.'' @ c' @ ''.'' @ d'"
      from unique [OF this] show "dec_value a' \<le> 255 \<and> dec_value b' \<le> 255 \<and> dec_value c' \<le> 255 \<and> dec_value d' \<le> 255"
        using small by simp
    qed
  qed
  ultimately show ?thesis
    by simp
qed

text \<open>
  C32. A host is accepted exactly if it is not empty, at most 253 characters long, free of NUL, and,
  in case it has the shape of a dotted quad, its four numbers are at most 255. Whether it looks like
  a host name makes no difference.
\<close>

theorem validate_host_exact:
  "ValidateHost host \<longleftrightarrow>
   host \<noteq> [] \<and> length host \<le> kMaxHostnameLength \<and> NUL \<notin> set host \<and> quads_small host"
proof -
  have "ValidateHost host \<longleftrightarrow> host \<noteq> [] \<and> length host \<le> kMaxHostnameLength \<and> NUL \<notin> set host \<and>
      (regex_match host ipv4_pattern \<longrightarrow>
        (case check_octets (getlines (CHR ''.'') host) of Inl x \<Rightarrow> False | Inr ok \<Rightarrow> ok))"
    by (simp add: ValidateHost_def not_less)
  moreover have "\<not> regex_match host ipv4_pattern \<Longrightarrow> quads_small host"
    unfolding ipv4_pattern_iff quads_small_def by blast
  ultimately show ?thesis
    using check_octets_quad by blast
qed

subsection \<open>File names and modes\<close>

lemma ValidateFilename_text: "ValidateFilename f \<Longrightarrow> option_text_ok kMaxFilenameLength f"
  by (auto simp: ValidateFilename_def option_text_ok_def split: if_splits)

lemma ValidateTransferMode_known: "ValidateTransferMode mode \<longleftrightarrow> transfermode_known mode"
  by (cases mode) simp_all

lemma Serialize_new_request:
  assumes "mode_to_string mode = Inr ms" and "op = kReadRequest \<or> op = kWriteRequest"
  shows "Serialize (new_packet\<lparr>pk_op_code := op, pk_filename := f, pk_mode := mode\<rparr>) =
    Inr (put16 (opcode_value op) @ put_string f @ put_string ms)"
  using assms by (auto simp: Serialize_def new_packet_def)

lemma request_reaches_server:
  assumes "ValidateFilename f" and "ValidateTransferMode mode"
    and "p = CreateReadRequest f mode \<or> p = CreateWriteRequest f mode"
  shows "\<exists>bs. Serialize p = Inr bs \<and> Deserialize bs q = (True, p)"
proof -
  obtain ms where ms: "mode_to_string mode = Inr ms"
    using assms(2) mode_to_string_known by (auto simp: ValidateTransferMode_known)
  then have "length ms \<le> 8"
    using mode_string_ok by blast
  moreover have "1 \<le> length f" "length f \<le> 255"
    using ValidateFilename_text [OF assms(1)]
    by (cases f; simp add: option_text_ok_def kMaxFilenameLength_def)+
  moreover obtain op where op: "op = kReadRequest \<or> op = kWriteRequest"
    and p: "p = new_packet\<lparr>pk_op_code := op, pk_filename := f, pk_mode := mode\<rparr>"
    using assms(3) by (auto simp: CreateReadRequest_def CreateWriteRequest_def)
  moreover have "packet_ok p"
    using assms factories_ok(1,2) ValidateFilename_text by (auto simp: ValidateTransferMode_known)
  ultimately show ?thesis
    using Deserialize_Serialize [of p _ q] Serialize_new_request [OF ms op, of f]
    by (auto simp: guard_simps)
qed

text \<open>
  Requests made from validated parameters reach the server: for a file name and a mode that
  pass the validation, both requests can be serialized and are parsed as the same request.
\<close>

lemma validated_request_parses:
  assumes "ValidateFilename f" and "ValidateTransferMode mode"
  shows "(\<exists>bs. Serialize (CreateReadRequest f mode) = Inr bs \<and>
       Deserialize bs q = (True, CreateReadRequest f mode)) \<and>
    (\<exists>bs. Serialize (CreateWriteRequest f mode) = Inr bs \<and>
       Deserialize bs q = (True, CreateWriteRequest f mode))"
  using request_reaches_server [OF assms] by blast

end
