(* ===== verification/Tftp_Server.thy ===== *)
theory Tftp_Server
  imports Tftp_Server_Impl Tftp_Validation
begin

section \<open>The interface of the server\<close>

text \<open>
  \<^verbatim>\<open>TftpServer\<close> of \<^verbatim>\<open>include/tftp/tftp_server.h\<close> and \<^verbatim>\<open>src/tftp_server.cpp\<close>: the constructor and the
  setters validate their arguments and throw, everything else is passed on. \<^verbatim>\<open>impl_\<close> is an option,
  as the functions test it; the lemmas show that it is always set.
\<close>

type_synonym 'a tftp_server = "'a world server_impl option"

definition TftpServer_new :: "nat \<Rightarrow> string \<Rightarrow> uint16 \<Rightarrow> 'a tftp_server result" where
  "TftpServer_new hardware_concurrency root_dir port =
     (if \<not> ValidateRootDirectory root_dir then
        Inl (TftpException (''Invalid root directory: '' @ root_dir))
      else if \<not> ValidatePort port then
        Inl (TftpException (''Invalid port number: '' @ show_nat (unat port)))
      else Inr (Some (new_server_impl hardware_concurrency root_dir port)))"

definition TftpServer_Start :: "start_env \<Rightarrow> 'a tftp_server \<Rightarrow> bool \<times> 'a tftp_server" where
  "TftpServer_Start env server = (case server of
       None \<Rightarrow> (False, server)
     | Some impl \<Rightarrow> (let (r, impl') = Start env impl in (r, Some impl')))"

definition TftpServer_Stop :: "'a tftp_server \<Rightarrow> 'a tftp_server" where
  "TftpServer_Stop server = (case server of None \<Rightarrow> server | Some impl \<Rightarrow> Some (Stop impl))"

definition TftpServer_IsRunning :: "'a tftp_server \<Rightarrow> bool" where
  "TftpServer_IsRunning server = (case server of None \<Rightarrow> False | Some impl \<Rightarrow> IsRunning impl)"

definition TftpServer_SetReadCallback ::
  "('a world \<Rightarrow> string \<Rightarrow> (bool \<times> byte list) result \<times> 'a world) option \<Rightarrow> 'a tftp_server \<Rightarrow>
   unit result \<times> 'a tftp_server" where
  "TftpServer_SetReadCallback callback server = (case server of
       None \<Rightarrow> (Inr (), server)
     | Some impl \<Rightarrow>
         if \<not> ValidateCallback callback then
           (Inl (TftpException ''Read callback cannot be null''), server)
         else (Inr (), Some (SetReadCallback callback impl)))"

definition TftpServer_SetWriteCallback ::
  "('a world \<Rightarrow> string \<Rightarrow> byte list \<Rightarrow> bool result \<times> 'a world) option \<Rightarrow> 'a tftp_server \<Rightarrow>
   unit result \<times> 'a tftp_server" where
  "TftpServer_SetWriteCallback callback server = (case server of
       None \<Rightarrow> (Inr (), server)
     | Some impl \<Rightarrow>
         if \<not> ValidateCallback callback then
           (Inl (TftpException ''Write callback cannot be null''), server)
         else (Inr (), Some (SetWriteCallback callback impl)))"

definition TftpServer_SetSecureMode :: "bool \<Rightarrow> 'a tftp_server \<Rightarrow> unit result \<times> 'a tftp_server" where
  "TftpServer_SetSecureMode secure server = (case server of
       None \<Rightarrow> (Inr (), server)
     | Some impl \<Rightarrow> (Inr (), Some (SetSecureMode secure impl)))"

definition TftpServer_SetMaxTransferSize :: "uint64 \<Rightarrow> 'a tftp_server \<Rightarrow> unit result \<times> 'a tftp_server" where
  "TftpServer_SetMaxTransferSize size' server = (case server of
       None \<Rightarrow> (Inr (), server)
     | Some impl \<Rightarrow>
         if \<not> ValidateTransferSize size' then
           (Inl (TftpException (''Invalid transfer size: '' @ show_nat (unat size'))), server)
         else (Inr (), Some (SetMaxTransferSize size' impl)))"

definition TftpServer_SetTimeout :: "int \<Rightarrow> 'a tftp_server \<Rightarrow> unit result \<times> 'a tftp_server" where
  "TftpServer_SetTimeout seconds server = (case server of
       None \<Rightarrow> (Inr (), server)
     | Some impl \<Rightarrow>
         if \<not> ValidateTimeout seconds then
           (Inl (TftpException (''Invalid timeout: '' @ show_int seconds)), server)
         else (Inr (), Some (SetTimeout seconds impl)))"

subsection \<open>Calls of the interface\<close>

text \<open>The calls an application makes on a server, and the effect of each.\<close>

datatype 'a api_call =
    Call_Start start_env
  | Call_Stop
  | Call_SetReadCallback "('a world \<Rightarrow> string \<Rightarrow> (bool \<times> byte list) result \<times> 'a world) option"
  | Call_SetWriteCallback "('a world \<Rightarrow> string \<Rightarrow> byte list \<Rightarrow> bool result \<times> 'a world) option"
  | Call_SetSecureMode bool
  | Call_SetMaxTransferSize uint64
  | Call_SetTimeout int

fun perform :: "'a api_call \<Rightarrow> 'a tftp_server \<Rightarrow> unit result \<times> 'a tftp_server" where
  "perform (Call_Start env) server = (Inr (), snd (TftpServer_Start env server))"
| "perform Call_Stop server = (Inr (), TftpServer_Stop server)"
| "perform (Call_SetReadCallback rc) server = TftpServer_SetReadCallback rc server"
| "perform (Call_SetWriteCallback wc) server = TftpServer_SetWriteCallback wc server"
| "perform (Call_SetSecureMode b) server = TftpServer_SetSecureMode b server"
| "perform (Call_SetMaxTransferSize k) server = TftpServer_SetMaxTransferSize k server"
| "perform (Call_SetTimeout t) server = TftpServer_SetTimeout t server"

definition api_init :: "'a tftp_server \<Rightarrow> bool" where
  "api_init server = (\<exists>hw root_dir port. TftpServer_new hw root_dir port = Inr server)"

definition api_step :: "'a tftp_server \<Rightarrow> 'a api_call \<Rightarrow> 'a tftp_server \<Rightarrow> bool" where
  "api_step server call server' = (snd (perform call server) = server')"

lemmas api_defs = TftpServer_Start_def TftpServer_Stop_def TftpServer_SetReadCallback_def
  TftpServer_SetWriteCallback_def TftpServer_SetSecureMode_def TftpServer_SetMaxTransferSize_def
  TftpServer_SetTimeout_def

lemmas impl_defs = Start_def Stop_def SetReadCallback_def SetWriteCallback_def SetSecureMode_def
  SetMaxTransferSize_def SetTimeout_def

text \<open>What the validation keeps: a configuration with which the transfers are well defined.\<close>

definition config_ok :: "'s transfer_config \<Rightarrow> bool" where
  "config_ok cfg = (ValidateTimeout (timeout_seconds cfg) \<and>
     ValidateTransferSize (max_transfer_size cfg) \<and>
     read_callback cfg \<noteq> None \<and> write_callback cfg \<noteq> None)"

definition root_ok :: "string \<Rightarrow> bool" where
  "root_ok root = (root \<noteq> [] \<and> NUL \<notin> set root \<and> (last root = CHR ''/'' \<or> last root = CHR 92))"

definition api_inv :: "'a tftp_server \<Rightarrow> bool" where
  "api_inv server = (case server of
       None \<Rightarrow> False
     | Some impl \<Rightarrow> config_ok (sv_config impl) \<and> root_ok (sv_root_dir impl) \<and> sv_port impl \<noteq> 0)"

lemma default_config_ok: "config_ok default_config"
  by (simp add: config_ok_def default_config_def ValidateTimeout_def ValidateTransferSize_def guard_simps)

lemma with_slash_ok: "ValidateRootDirectory root_dir \<Longrightarrow> root_ok (with_slash root_dir)"
  by (auto simp: ValidateRootDirectory_def with_slash_def root_ok_def NUL_def split: if_splits)

interpretation api: invariant_system api_init api_step api_inv
proof
  show "api_inv server" if "api_init server" for server :: "'a tftp_server"
    using that with_slash_ok default_config_ok
    by (auto simp: api_init_def TftpServer_new_def api_inv_def new_server_impl_def ValidatePort_def
        split: if_splits)
  show "api_inv server'" if "api_inv server" "api_step server call server'"
    for server server' :: "'a tftp_server" and call
    using that
    by (cases call)
      (auto simp: api_step_def api_inv_def api_defs impl_defs config_ok_def ValidateCallback_def Let_def
        split: option.splits if_splits prod.splits)
qed

text \<open>
  C27. Parameters stay valid: after any sequence of calls, accepted or refused, on a server that was
  constructed, the implementation is present, its port is not 0, its root directory is not empty, free
  of NUL and ends with a separator, both callbacks are set, the transfer limit is between 512 bytes
  and 1 GiB, and the timeout in milliseconds that the transfers compute is between 1000 and 3600000,
  so that it is neither negative nor overflows.
\<close>

theorem api_parameters_valid:
  assumes "reach api_init api_step server"
  shows "\<exists>impl. server = Some impl \<and> sv_port impl \<noteq> 0 \<and> root_ok (sv_root_dir impl) \<and>
    read_callback (sv_config impl) \<noteq> None \<and> write_callback (sv_config impl) \<noteq> None \<and>
    512 \<le> unat (max_transfer_size (sv_config impl)) \<and> unat (max_transfer_size (sv_config impl)) \<le> 2 ^ 30 \<and>
    1000 \<le> timeout_seconds (sv_config impl) * 1000 \<and> timeout_seconds (sv_config impl) * 1000 \<le> 3600000"
proof -
  have "api_inv server"
    by (rule api.reach_inv [OF assms])
  then obtain impl where "server = Some impl" "config_ok (sv_config impl)" "root_ok (sv_root_dir impl)"
    "sv_port impl \<noteq> 0"
    by (auto simp: api_inv_def split: option.splits)
  moreover from this(2) have "512 \<le> unat (max_transfer_size (sv_config impl))"
    "unat (max_transfer_size (sv_config impl)) \<le> 2 ^ 30"
    by (simp_all add: config_ok_def ValidateTransferSize_def guard_simps not_less word_le_nat_alt split: if_splits)
  ultimately show ?thesis
    by (auto simp: config_ok_def ValidateTimeout_def guard_simps split: if_splits)
qed

theorem api_parameters_valid_witness:
  "\<exists>impl. (case TftpServer_new 4 ''/srv/tftp'' 69 of Inl x \<Rightarrow> None | Inr server \<Rightarrow> server) =
     Some (impl :: unit world server_impl) \<and> sv_port impl \<noteq> 0"
proof -
  let ?server = "(case TftpServer_new 4 ''/srv/tftp'' 69 of Inl x \<Rightarrow> None | Inr server \<Rightarrow> server) :: unit tftp_server"
  have "ValidateRootDirectory ''/srv/tftp''" "ValidatePort 69"
    by code_simp+
  then have "TftpServer_new 4 ''/srv/tftp'' 69 = Inr ?server"
    by (simp add: TftpServer_new_def)
  then have "reach api_init api_step ?server"
    by (intro reach_init) (auto simp: api_init_def)
  from api_parameters_valid [OF this] show ?thesis
    by blast
qed

text \<open>
  A refused call changes nothing and says why: whenever a call throws, the exception is a
  \<^verbatim>\<open>TftpException\<close> and the server is as before; and the setters throw exactly on invalid arguments.
\<close>

lemma refused_call_no_effect:
  assumes "perform call (Some impl) = (Inl x, server')"
  shows "server' = Some impl \<and> (\<exists>msg. x = TftpException msg) \<and>
    (case call of
       Call_SetReadCallback rc \<Rightarrow> rc = None
     | Call_SetWriteCallback wc \<Rightarrow> wc = None
     | Call_SetMaxTransferSize k \<Rightarrow> \<not> (512 \<le> k \<and> k \<le> 1073741824)
     | Call_SetTimeout t \<Rightarrow> \<not> (1 \<le> t \<and> t \<le> 3600)
     | _ \<Rightarrow> False)"
  using assms
  by (cases call)
    (auto simp: api_defs ValidateCallback_def ValidateTransferSize_def ValidateTimeout_def guard_simps
      split: if_splits)

end
