(* ===== verification/Tftp_Server_Windows.thy ===== *)
theory Tftp_Server_Windows
  imports Tftp_Server
begin

section \<open>The server on Windows\<close>

text \<open>
  The branches of \<^verbatim>\<open>Start\<close>, \<^verbatim>\<open>Stop\<close>, \<^verbatim>\<open>IsRunning\<close> and \<^verbatim>\<open>ServerLoop\<close> for Windows (\<^verbatim>\<open>src/internal/tftp_server_impl.cpp\<close>). A
  \<^verbatim>\<open>SOCKET\<close> is an integer, with \<open>-1\<close> for \<^verbatim>\<open>INVALID_SOCKET\<close>. Winsock counts the successful calls of
  \<^verbatim>\<open>WSAStartup\<close> that no \<^verbatim>\<open>WSACleanup\<close> has undone; next to this counter the state has the number of
  calls of \<^verbatim>\<open>Start\<close> that failed after the library was started.
\<close>

definition INVALID_SOCKET :: int where
  "INVALID_SOCKET = -1"

record 's win_server =
  wn_sv :: "'s server_impl"
  wn_startups :: nat
  wn_failed :: nat

definition win_Start :: "int \<Rightarrow> start_env \<Rightarrow> 's win_server \<Rightarrow> bool \<times> 's win_server" where
  "win_Start wsa_startup env w = (let sv = wn_sv w in
     if sv_running sv then (True, w)
     else if wsa_startup \<noteq> 0 then (False, w)
     else
       (let w1 = w\<lparr>wn_startups := Suc (wn_startups w)\<rparr>; sv1 = sv\<lparr>sv_sockfd := se_socket env\<rparr>;
            failed = w1\<lparr>wn_sv := sv1, wn_failed := Suc (wn_failed w)\<rparr> in
        if sv_sockfd sv1 = INVALID_SOCKET then (False, failed)
        else if se_setsockopt env < 0 then (False, failed)
        else if se_bind env < 0 then (False, failed)
        else (True, w1\<lparr>wn_sv := sv1\<lparr>
          sv_thread_pool := Some (new_pool (se_hardware_concurrency env) (sv_thread_pool_size sv1)),
          sv_running := True, sv_server_thread := True\<rparr>\<rparr>)))"

text \<open>\<^verbatim>\<open>WSACleanup\<close> without a matching start-up fails and changes nothing.\<close>

definition win_Stop :: "'s win_server \<Rightarrow> 's win_server" where
  "win_Stop w = (let sv = wn_sv w in
     if \<not> sv_running sv then w
     else w\<lparr>wn_sv := sv\<lparr>sv_running := False, sv_thread_pool := None,
         sv_sockfd := (if sv_sockfd sv \<noteq> INVALID_SOCKET then INVALID_SOCKET else sv_sockfd sv),
         sv_server_thread := False\<rparr>,
       wn_startups := wn_startups w - 1\<rparr>)"

definition win_IsRunning :: "'s win_server \<Rightarrow> bool" where
  "win_IsRunning w = (let sv = wn_sv w in
     if \<not> sv_running sv then False
     else if sv_sockfd sv = INVALID_SOCKET then False
     else if \<not> sv_server_thread sv then False
     else True)"

lemmas win_life_defs = win_Start_def win_Stop_def win_IsRunning_def INVALID_SOCKET_def

text \<open>
  An iteration of \<^verbatim>\<open>ServerLoop\<close>: a \<^verbatim>\<open>recvfrom\<close> of Winsock fails for a datagram that is longer than the
  buffer (\<^verbatim>\<open>WSAEMSGSIZE\<close>), so that such a datagram is ignored, where on other systems it is cut.
\<close>

definition win_recvfrom :: "nat \<Rightarrow> recv_outcome \<Rightarrow> recv_outcome" where
  "win_recvfrom buffer_size r = (case r of
       Datagram client_addr bytes \<Rightarrow> if length bytes > buffer_size then Recv_error else r
     | _ \<Rightarrow> r)"

definition win_loop_iteration :: "recv_outcome \<Rightarrow> 's server_impl \<Rightarrow> 's server_impl" where
  "win_loop_iteration r sv = (case win_recvfrom kMaxPacketSize r of
       Datagram client_addr packet_data \<Rightarrow>
         (if packet_data = [] then sv
          else (case sv_thread_pool sv of
              None \<Rightarrow> sv
            | Some p \<Rightarrow> if IsShuttingDown p then sv
                else sv\<lparr>sv_thread_pool := Some (snd (Submit (packet_data, client_addr) p))\<rparr>))
     | _ \<Rightarrow> sv)"

text \<open>Calls and events of a server on Windows; the setters and the pool are as on other systems.\<close>

inductive win_step :: "'s win_server \<Rightarrow> server_action option \<Rightarrow> 's win_server \<Rightarrow> bool" where
  win_starts: "-1 \<le> se_socket env \<Longrightarrow> win_step w (Some (Starts env)) (snd (win_Start wsa_startup env w))"
| win_stops: "win_step w (Some Stops) (win_Stop w)"
| win_receives: "sv_running (wn_sv w) \<Longrightarrow>
    list_all lock_free (case sv_thread_pool (wn_sv w) of None \<Rightarrow> [] | Some p \<Rightarrow> [p]) \<Longrightarrow>
    win_step w (Some (Receives r)) (w\<lparr>wn_sv := win_loop_iteration r (wn_sv w)\<rparr>)"
| win_other: "server_step (wn_sv w) a sv' \<Longrightarrow> a = Configures \<or> (\<exists>b. a = Pool_runs b) \<Longrightarrow>
    win_step w None (w\<lparr>wn_sv := sv'\<rparr>)"

inductive_cases win_stepE [elim]: "win_step w a w'"

definition win_init :: "'a world win_server \<Rightarrow> bool" where
  "win_init w = (server_init (wn_sv w) \<and> wn_startups w = 0 \<and> wn_failed w = 0)"

definition win_inv :: "'s win_server \<Rightarrow> bool" where
  "win_inv w = (server_inv (wn_sv w) \<and> wn_startups w = wn_failed w + (if sv_running (wn_sv w) then 1 else 0))"

text \<open>The branches for Windows do to the members of the server what the others do.\<close>

lemma win_Start_agrees:
  assumes "-1 \<le> se_socket env"
  shows "wn_sv (snd (win_Start 0 env w)) = snd (Start env (wn_sv w)) \<and> fst (win_Start 0 env w) = fst (Start env (wn_sv w))"
  using assms by (auto simp: win_life_defs Start_def Let_def)

lemma win_Start_refused: "wsa_startup \<noteq> 0 \<Longrightarrow> snd (win_Start wsa_startup env w) = w"
  by (simp add: win_life_defs Let_def)

lemma win_Stop_agrees:
  assumes "server_inv (wn_sv w)"
  shows "wn_sv (win_Stop w) = Stop (wn_sv w)"
  using assms by (auto simp: win_life_defs Stop_def Let_def server_inv_def)

text \<open>The loop does what it does elsewhere with the outcome of \<^verbatim>\<open>recvfrom\<close> on Windows.\<close>

lemma win_loop_iteration_eq: "win_loop_iteration r sv = loop_iteration (win_recvfrom kMaxPacketSize r) sv"
  by (auto simp: win_loop_iteration_def loop_iteration_def win_recvfrom_def Let_def not_less split: recv_outcome.splits option.splits if_splits)

text \<open>A long datagram that is not handled on Windows is handled elsewhere, cut to the buffer.\<close>

lemma long_datagram_ignored:
  assumes "kMaxPacketSize < length bytes" and "sv_thread_pool sv = Some p" and "\<not> tp_stopping p"
  shows "win_loop_iteration (Datagram addr bytes) sv = sv" and
    "\<exists>p'. sv_thread_pool (loop_iteration (Datagram addr bytes) sv) = Some p' \<and>
      tp_tasks p' = tp_tasks p @ [(take kMaxPacketSize bytes, addr)]"
  using assms by (auto simp: win_loop_iteration_def win_recvfrom_def loop_iteration_def Let_def Submit_def
      IsShuttingDown_def kMaxPacketSize_def)

interpretation winserver: invariant_system win_init win_step win_inv
proof
  show "win_inv w" if "win_init w" for w :: "'a world win_server"
    using that server.inv_init [of "wn_sv w"] by (auto simp: win_init_def win_inv_def server_init_def new_server_impl_def)
  show "win_inv w'" if inv: "win_inv w" and step: "win_step w a w'" for w w' :: "'a world win_server" and a
    using step
  proof cases
    case (win_starts env wsa_startup)
    have "server_inv (wn_sv w')"
      using win_starts inv win_Start_agrees [of env w] win_Start_refused [of wsa_startup env w]
        server.inv_step [OF _ starts [of "wn_sv w" env]] by (cases "wsa_startup = 0") (auto simp: win_inv_def)
    then show ?thesis
      using win_starts inv by (auto simp: win_inv_def win_life_defs Let_def)
  next
    case win_stops
    then have "server_inv (wn_sv w')"
      using inv server.inv_step [OF _ stops [of "wn_sv w"]] by (auto simp: win_inv_def win_Stop_agrees)
    then show ?thesis
      using win_stops inv by (auto simp: win_inv_def win_life_defs Let_def)
  next
    case (win_receives r)
    have "server_step (wn_sv w) (Receives (win_recvfrom kMaxPacketSize r)) (wn_sv w')"
      using receives [OF win_receives(3,4)] win_receives(2) by (simp add: win_loop_iteration_eq)
    then show ?thesis
      using inv server.inv_step step_running win_receives(2) by (fastforce simp: win_inv_def)
  next
    case (win_other b sv')
    then show ?thesis
      using inv server.inv_step [OF _ win_other(3)] step_running [OF win_other(3)] by (auto simp: win_inv_def)
  qed
qed

interpretation win_lifecycle: refinement win_init win_step win_inv server_init server_step wn_sv
proof
  show "server_init (wn_sv w)" if "win_init w" for w :: "'a world win_server"
    using that by (simp add: win_init_def)
  show "wn_sv w' = wn_sv w \<or> (\<exists>b. server_step (wn_sv w) b (wn_sv w'))" if "win_inv w" "win_step w a w'"
    for w w' :: "'a world win_server" and a
    using that(2)
  proof cases
    case (win_starts env wsa_startup)
    then show ?thesis
      using win_Start_agrees [of env w] win_Start_refused [of wsa_startup env w] starts [of "wn_sv w" env]
      by (cases "wsa_startup = 0") auto
  next
    case win_stops
    then show ?thesis
      using that(1) stops [of "wn_sv w"] by (auto simp: win_inv_def win_Stop_agrees)
  next
    case (win_receives r)
    then show ?thesis
      using receives [OF win_receives(3,4)] by (auto simp: win_loop_iteration_eq)
  qed auto
qed

text \<open>
  The server on Windows refines the life cycle of the server on other systems. The library is
  started once for a running server, and once more for every call of \<^verbatim>\<open>Start\<close> that failed after it:
  these start-ups are never undone.
\<close>

lemma windows_startups:
  assumes "reach win_init win_step w"
  shows "reach server_init server_step (wn_sv w) \<and> win_IsRunning w = IsRunning (wn_sv w) \<and>
    wn_startups w = wn_failed w + (if win_IsRunning w then 1 else 0) \<and> wn_startups (win_Stop w) = wn_failed w"
proof -
  have inv: "win_inv w"
    by (rule winserver.reach_inv [OF assms])
  then show ?thesis
    using win_lifecycle.reach_view [OF assms] by (auto simp: win_inv_def server_inv_def win_life_defs IsRunning_def Let_def)
qed

end
