(* ===== verification/Tftp_Task_Queue.thy ===== *)
theory Tftp_Task_Queue
  imports Tftp_Thread_Pool
begin

section \<open>The thread pool as a task queue\<close>

text \<open>
  What the pool promises to its users, without workers, locks and notifications: a queue that is
  open until it is closed, tasks that begin in the order in which they were queued, at most so many
  at a time as there are workers, and that end in any order; what waits when the queue is closed is
  dropped at the end, when nothing runs any more. The steps of the pool refine this specification.
\<close>

record 'task task_queue =
  tq_capacity :: nat
  tq_open :: bool
  tq_waiting :: "'task list"
  tq_running :: "'task multiset"
  tq_finished :: "'task multiset"
  tq_dropped :: "'task list"

datatype 'task queue_event = Enqueues 'task | Begins 'task | Ends 'task | Closes | Drops

inductive queue_step :: "'task task_queue \<Rightarrow> 'task queue_event \<Rightarrow> 'task task_queue \<Rightarrow> bool" where
  enqueues: "tq_open q \<Longrightarrow> queue_step q (Enqueues t) (q\<lparr>tq_waiting := tq_waiting q @ [t]\<rparr>)"
| begins: "tq_waiting q = t # ts \<Longrightarrow> size (tq_running q) < tq_capacity q \<Longrightarrow>
    queue_step q (Begins t) (q\<lparr>tq_waiting := ts, tq_running := tq_running q + {#t#}\<rparr>)"
| ends: "t \<in># tq_running q \<Longrightarrow>
    queue_step q (Ends t) (q\<lparr>tq_running := tq_running q - {#t#}, tq_finished := tq_finished q + {#t#}\<rparr>)"
| closes: "tq_open q \<Longrightarrow> queue_step q Closes (q\<lparr>tq_open := False\<rparr>)"
| drops: "\<not> tq_open q \<Longrightarrow> tq_running q = {#} \<Longrightarrow>
    queue_step q Drops (q\<lparr>tq_waiting := [], tq_dropped := tq_dropped q @ tq_waiting q\<rparr>)"

inductive_cases queue_stepE [elim]: "queue_step q e q'"

definition queue_init :: "'task task_queue \<Rightarrow> bool" where
  "queue_init q = (1 \<le> tq_capacity q \<and> tq_capacity q \<le> 64 \<and> tq_open q \<and> tq_waiting q = [] \<and> tq_running q = {#} \<and>
     tq_finished q = {#} \<and> tq_dropped q = [])"

definition queue_inv :: "'task task_queue \<Rightarrow> bool" where
  "queue_inv q = (1 \<le> tq_capacity q \<and> size (tq_running q) \<le> tq_capacity q \<and> tq_capacity q \<le> 64 \<and>
     (tq_open q \<longrightarrow> tq_dropped q = []))"

interpretation queue: invariant_system queue_init queue_step queue_inv
proof
  show "queue_inv q" if "queue_init q" for q :: "'a task_queue"
    using that by (simp add: queue_init_def queue_inv_def)
  show "queue_inv q'" if "queue_inv q" "queue_step q e q'" for q q' :: "'a task_queue" and e
    using that(2,1) by cases (auto simp: queue_inv_def size_Diff_singleton)
qed

definition queue_view :: "'task pool \<Rightarrow> 'task task_queue" where
  "queue_view p = \<lparr>tq_capacity = length (tp_workers p), tq_open = (\<not> tp_stopping p), tq_waiting = tp_tasks p,
     tq_running = mset (concat (map in_flight (tp_workers p))), tq_finished = tp_finished p, tq_dropped = tp_dropped p\<rparr>"

lemma in_flight_capacity: "length (concat (map in_flight ws)) \<le> length ws"
proof (induction ws)
  case (Cons w ws)
  then show ?case
    by (cases w) auto
qed simp

lemma worker_step_view:
  assumes "i < length (tp_workers p)" and "worker_step i p = Some p'"
  shows "queue_view p' = queue_view p \<or> (\<exists>e. queue_step (queue_view p) e (queue_view p'))"
proof -
  obtain a w b where ws: "tp_workers p = a @ w # b" and nth: "tp_workers p ! i = w"
    and upd: "\<forall>v. (tp_workers p)[i := v] = a @ v # b"
    by (metis update_split [OF assms(1)])
  have sw: "set_worker i v q = q\<lparr>tp_workers := a @ v # b\<rparr>" if "tp_workers q = tp_workers p" for v q
    using that upd by (simp add: set_worker_def)
  note step = assms(2) [unfolded worker_step_def nth]
  show ?thesis
  proof (cases w)
    case Taking
    show ?thesis
    proof (cases "tp_tasks p")
      case (Cons t ts)
      have room: "size (tq_running (queue_view p)) < tq_capacity (queue_view p)"
        using in_flight_capacity [of a] in_flight_capacity [of b] by (simp add: queue_view_def ws Taking)
      have "queue_view p' = (queue_view p)\<lparr>tq_waiting := ts, tq_running := tq_running (queue_view p) + {#t#}\<rparr>"
        using step Taking Cons by (auto simp: sw queue_view_def ws)
      then show ?thesis
        using begins [of "queue_view p" t ts] room Cons by (auto simp: queue_view_def)
    qed (use step Taking in \<open>auto simp: sw queue_view_def ws\<close>)
  next
    case (Running t)
    have "t \<in># tq_running (queue_view p)"
      by (simp add: queue_view_def ws Running)
    moreover have "queue_view p' = (queue_view p)\<lparr>tq_running := tq_running (queue_view p) - {#t#},
        tq_finished := tq_finished (queue_view p) + {#t#}\<rparr>"
      using step Running by (auto simp: sw queue_view_def ws)
    ultimately show ?thesis
      using ends by metis
  qed (use step in \<open>auto simp: sw queue_view_def ws split: if_splits\<close>)
qed

lemma woken_view:
  assumes "i < length (tp_workers p)" and "tp_workers p ! i = Blocked"
  shows "queue_view (set_worker i Woken (p\<lparr>tp_notifies := k\<rparr>)) = queue_view p"
proof -
  obtain a b where "tp_workers p = a @ Blocked # b" and "\<forall>w. (tp_workers p)[i := w] = a @ w # b"
    using update_split [OF assms(1)] assms(2) by metis
  then show ?thesis
    by (simp add: queue_view_def set_worker_def)
qed

lemma pool_step_view:
  assumes inv: "pool_inv p" and step: "pool_step p a p'"
  shows "queue_view p' = queue_view p \<or> (\<exists>e. queue_step (queue_view p) e (queue_view p'))"
  using step
proof cases
  case (submits t r)
  then show ?thesis
    using enqueues [of "queue_view p" t] by (auto simp: Submit_def queue_view_def split: if_splits)
next
  case (notifies_one k i)
  then show ?thesis
    using woken_view by blast
next
  case shuts_down
  then show ?thesis
    using closes [of "queue_view p"] by (auto simp: queue_view_def)
next
  case clears
  then have "tq_running (queue_view p) = {#}" "tp_dropped p = []" "tp_stopping p"
    using inv by (auto simp: pool_inv_def inv_phase_def inv_tasks_def queue_view_def list_all_iff)
  then show ?thesis
    using drops [of "queue_view p"] clears by (auto simp: queue_view_def)
next
  case (works i)
  then show ?thesis
    using worker_step_view by blast
next
  case (spurious i)
  then show ?thesis
    using woken_view [of i p "tp_notifies p"] by simp
qed (auto simp: queue_view_def)

interpretation pool_queue: refinement pool_init pool_step pool_inv queue_init queue_step queue_view
proof
  show "queue_init (queue_view p)" if "pool_init p" for p :: "'a pool"
    using that by (auto simp: pool_init_def new_pool_def queue_init_def queue_view_def worker_count_def Let_def map_replicate_const)
qed (rule pool_step_view)

text \<open>
  C19. The pool refines the task queue: whatever the workers, the callers of \<^verbatim>\<open>Submit\<close> and the
  shutdown do, tasks begin in the order in which they were accepted, at most as many run at a time
  as there are workers, of which there are at most 64, and tasks are dropped only after the pool
  was closed and nothing runs any more.
\<close>

theorem pool_refines_queue:
  assumes "reach pool_init pool_step p"
  shows "reach queue_init queue_step (queue_view p) \<and> size (tq_running (queue_view p)) \<le> tq_capacity (queue_view p) \<and>
    tq_capacity (queue_view p) \<le> 64 \<and> (\<not> IsShuttingDown p \<longrightarrow> tp_dropped p = [])"
  using pool_queue.reach_view [OF assms] pool_queue.inv_view [OF queue.invariant_system_axioms assms]
  by (auto simp: queue_inv_def queue_view_def IsShuttingDown_def)

theorem pool_refines_queue_witness:
  "reach queue_init queue_step (queue_view (new_pool 2 0 :: nat pool)) \<and> tq_capacity (queue_view (new_pool 2 0 :: nat pool)) = 2"
proof -
  have "reach pool_init pool_step (new_pool 2 0 :: nat pool)"
    by (rule reach_init) (auto simp: pool_init_def)
  from pool_refines_queue [OF this] show ?thesis
    by (simp add: queue_view_def new_pool_def worker_count_def)
qed

end
