(* ===== verification/Tftp_Config.thy ===== *)
theory Tftp_Config
  imports Tftp_Server
begin

section \<open>Changing the configuration while requests are handled\<close>

text \<open>
  The setters of \<^verbatim>\<open>TftpServerImpl\<close> hold \<^verbatim>\<open>config_mutex_\<close> exclusively, the handlers of requests hold it shared
  while they read members and while they are in a callback
  (\<^verbatim>\<open>src/internal/tftp_server_impl.h\<close>, \<^verbatim>\<open>src/internal/tftp_server_impl.cpp\<close>). This theory interleaves any
  number of threads of both kinds, each access to a member being a step. The mutex is held
  by the threads that are in a section it protects. A handler reads the secure mode in one section; a
  download then calls the callback and reads the limits in one section; an upload reads the limits in
  one section and calls the callback in another one, when all data have come.
\<close>

datatype 's setting =
    Read_callback "('s \<Rightarrow> string \<Rightarrow> (bool \<times> byte list) result \<times> 's) option"
  | Write_callback "('s \<Rightarrow> string \<Rightarrow> byte list \<Rightarrow> bool result \<times> 's) option"
  | Secure_mode bool
  | Max_transfer_size uint64
  | Timeout int
  | Thread_pool_size nat

fun apply_setting :: "'s setting \<Rightarrow> 's server_impl \<Rightarrow> 's server_impl" where
  "apply_setting (Read_callback rc) sv = SetReadCallback rc sv"
| "apply_setting (Write_callback wc) sv = SetWriteCallback wc sv"
| "apply_setting (Secure_mode b) sv = SetSecureMode b sv"
| "apply_setting (Max_transfer_size k) sv = SetMaxTransferSize k sv"
| "apply_setting (Timeout t) sv = SetTimeout t sv"
| "apply_setting (Thread_pool_size k) sv = SetThreadPoolSize k sv"

subsection \<open>The threads\<close>

datatype 's conf_pc =
    Set_lock "'s setting"    \<comment> \<open>a setter before \<^verbatim>\<open>unique_lock\<close>\<close>
  | Set_store "'s setting"   \<comment> \<open>lock held\<close>
  | Set_done
  | Secure_lock              \<comment> \<open>\<^verbatim>\<open>HandleClient\<close> before \<^verbatim>\<open>shared_lock\<close>\<close>
  | Secure_load
  | Secure_unlock
  | Path_check
  | Read_lock                \<comment> \<open>\<^verbatim>\<open>HandleReadRequest\<close> before \<^verbatim>\<open>shared_lock\<close>\<close>
  | Read_call                \<comment> \<open>in \<^verbatim>\<open>read_callback_\<close>\<close>
  | Read_size
  | Read_timeout
  | Read_unlock
  | Read_done
  | Limits_lock              \<comment> \<open>\<^verbatim>\<open>HandleWriteRequest\<close> before the first \<^verbatim>\<open>shared_lock\<close>\<close>
  | Limits_size
  | Limits_timeout
  | Limits_unlock
  | Receiving
  | Write_lock               \<comment> \<open>before the second \<^verbatim>\<open>shared_lock\<close>\<close>
  | Write_call               \<comment> \<open>in \<^verbatim>\<open>write_callback_\<close>\<close>
  | Write_unlock
  | Write_done
  | Refused
  | Thrown                   \<comment> \<open>a callback has thrown; the lock is released on the way to the \<^verbatim>\<open>catch\<close>\<close>
  | Reenters "'s setting" "'s conf_pc"    \<comment> \<open>in a callback that calls a setter, before its \<^verbatim>\<open>unique_lock\<close>\<close>

text \<open>A thread, with the values it has read so far.\<close>

record 's conf_thread =
  ct_pc :: "'s conf_pc"
  ct_secure :: bool
  ct_config :: "'s transfer_config"

text \<open>The server, the threads, and the servers as they were after each step.\<close>

record 's conf_state =
  cf_sv :: "'s server_impl"
  cf_threads :: "'s conf_thread list"
  cf_past :: "'s server_impl set"

fun holds_unique :: "'s conf_pc \<Rightarrow> bool" where
  "holds_unique (Set_store c) = True"
| "holds_unique _ = False"

fun holds_shared :: "'s conf_pc \<Rightarrow> bool" where
  "holds_shared Secure_load = True"
| "holds_shared Secure_unlock = True"
| "holds_shared Read_call = True"
| "holds_shared Read_size = True"
| "holds_shared Read_timeout = True"
| "holds_shared Read_unlock = True"
| "holds_shared Limits_size = True"
| "holds_shared Limits_timeout = True"
| "holds_shared Limits_unlock = True"
| "holds_shared Write_call = True"
| "holds_shared Write_unlock = True"
| "holds_shared (Reenters c back) = True"
| "holds_shared _ = False"

fun ended :: "'s conf_pc \<Rightarrow> bool" where
  "ended Set_done = True"
| "ended Read_done = True"
| "ended Write_done = True"
| "ended Refused = True"
| "ended Thrown = True"
| "ended _ = False"

definition shareable :: "'s conf_thread list \<Rightarrow> bool" where
  "shareable ts = (\<not> list_ex (\<lambda>t. holds_unique (ct_pc t)) ts)"

definition lockable :: "'s conf_thread list \<Rightarrow> bool" where
  "lockable ts = (\<not> list_ex (\<lambda>t. holds_unique (ct_pc t) \<or> holds_shared (ct_pc t)) ts)"

text \<open>What a thread does where the program does not determine it: the kind of the request, and whether a callback throws or calls a setter.\<close>

datatype 's conf_choice = Goes | Refuses | Reads_file | Writes_file | Throws | Calls_setter "'s setting"

definition at_pc :: "'s conf_pc \<Rightarrow> 's conf_thread \<Rightarrow> 's conf_thread" where
  "at_pc pc t = t\<lparr>ct_pc := pc\<rparr>"

definition loads :: "('s transfer_config \<Rightarrow> 's transfer_config) \<Rightarrow> 's conf_thread \<Rightarrow> 's conf_thread" where
  "loads f t = t\<lparr>ct_config := f (ct_config t)\<rparr>"

definition goes :: "'s conf_choice \<Rightarrow> 'b option \<Rightarrow> 'b option" where
  "goes ch x = (case ch of Goes \<Rightarrow> x | _ \<Rightarrow> None)"

definition in_callback :: "'s conf_choice \<Rightarrow> 's conf_pc \<Rightarrow> 's conf_thread \<times> 's server_impl \<Rightarrow> 's conf_thread \<Rightarrow> 's server_impl \<Rightarrow>
    ('s conf_thread \<times> 's server_impl) option" where
  "in_callback ch back x t sv = (case ch of
       Goes \<Rightarrow> Some x
     | Throws \<Rightarrow> Some (at_pc Thrown t, sv)
     | Calls_setter c \<Rightarrow> Some (at_pc (Reenters c back) t, sv)
     | _ \<Rightarrow> None)"

definition conf_next :: "'s conf_choice \<Rightarrow> 's server_impl \<Rightarrow> 's conf_thread list \<Rightarrow> 's conf_thread \<Rightarrow>
    ('s conf_thread \<times> 's server_impl) option" where
  "conf_next ch sv ts t = (let cfg = sv_config sv in case ct_pc t of
       Set_lock c \<Rightarrow> goes ch (if lockable ts then Some (at_pc (Set_store c) t, sv) else None)
     | Set_store c \<Rightarrow> goes ch (Some (at_pc Set_done t, apply_setting c sv))
     | Set_done \<Rightarrow> None
     | Secure_lock \<Rightarrow> goes ch (if shareable ts then Some (at_pc Secure_load t, sv) else None)
     | Secure_load \<Rightarrow> goes ch (Some (at_pc Secure_unlock (t\<lparr>ct_secure := sv_secure_mode sv\<rparr>), sv))
     | Secure_unlock \<Rightarrow> goes ch (Some (at_pc Path_check t, sv))
     | Path_check \<Rightarrow> (case ch of
           Refuses \<Rightarrow> Some (at_pc Refused t, sv)
         | Reads_file \<Rightarrow> Some (at_pc Read_lock t, sv)
         | Writes_file \<Rightarrow> Some (at_pc Limits_lock t, sv)
         | _ \<Rightarrow> None)
     | Read_lock \<Rightarrow> goes ch (if shareable ts then Some (at_pc Read_call t, sv) else None)
     | Read_call \<Rightarrow> in_callback ch Read_call (at_pc Read_size (loads (read_callback_update (\<lambda>_. read_callback cfg)) t), sv) t sv
     | Read_size \<Rightarrow> goes ch (Some (at_pc Read_timeout (loads (max_transfer_size_update (\<lambda>_. max_transfer_size cfg)) t), sv))
     | Read_timeout \<Rightarrow> goes ch (Some (at_pc Read_unlock (loads (timeout_seconds_update (\<lambda>_. timeout_seconds cfg)) t), sv))
     | Read_unlock \<Rightarrow> goes ch (Some (at_pc Read_done t, sv))
     | Read_done \<Rightarrow> None
     | Limits_lock \<Rightarrow> goes ch (if shareable ts then Some (at_pc Limits_size t, sv) else None)
     | Limits_size \<Rightarrow> goes ch (Some (at_pc Limits_timeout (loads (max_transfer_size_update (\<lambda>_. max_transfer_size cfg)) t), sv))
     | Limits_timeout \<Rightarrow> goes ch (Some (at_pc Limits_unlock (loads (timeout_seconds_update (\<lambda>_. timeout_seconds cfg)) t), sv))
     | Limits_unlock \<Rightarrow> goes ch (Some (at_pc Receiving t, sv))
     | Receiving \<Rightarrow> (case ch of
           Goes \<Rightarrow> Some (at_pc Write_lock t, sv)
         | Refuses \<Rightarrow> Some (at_pc Refused t, sv)
         | _ \<Rightarrow> None)
     | Write_lock \<Rightarrow> goes ch (if shareable ts then Some (at_pc Write_call t, sv) else None)
     | Write_call \<Rightarrow> in_callback ch Write_call (at_pc Write_unlock (loads (write_callback_update (\<lambda>_. write_callback cfg)) t), sv) t sv
     | Write_unlock \<Rightarrow> goes ch (Some (at_pc Write_done t, sv))
     | Write_done \<Rightarrow> None
     | Refused \<Rightarrow> None
     | Thrown \<Rightarrow> None
     | Reenters c back \<Rightarrow> goes ch (if lockable ts then Some (at_pc back t, apply_setting c sv) else None))"

inductive conf_step :: "'s conf_state \<Rightarrow> nat \<times> 's conf_choice \<Rightarrow> 's conf_state \<Rightarrow> bool" where
  "i < length (cf_threads st) \<Longrightarrow> conf_next ch (cf_sv st) (cf_threads st) (cf_threads st ! i) = Some (t', sv') \<Longrightarrow>
   conf_step st (i, ch) (st\<lparr>cf_sv := sv', cf_threads := (cf_threads st)[i := t'], cf_past := insert sv' (cf_past st)\<rparr>)"

inductive_cases conf_stepE [elim]: "conf_step st a st'"

text \<open>At the start every thread is a setter or is about to handle a request, and has read nothing.\<close>

fun starting :: "'s conf_pc \<Rightarrow> bool" where
  "starting (Set_lock c) = True"
| "starting Secure_lock = True"
| "starting _ = False"

definition conf_init :: "'s conf_state \<Rightarrow> bool" where
  "conf_init st = (cf_past st = {cf_sv st} \<and> list_all (\<lambda>t. starting (ct_pc t) \<and>
     ct_secure t = sv_secure_mode (cf_sv st) \<and> ct_config t = sv_config (cf_sv st)) (cf_threads st))"

subsection \<open>The invariant\<close>

text \<open>Within a section the values read are those of the server as it is.\<close>

definition section_ok :: "'s server_impl \<Rightarrow> 's conf_thread \<Rightarrow> bool" where
  "section_ok sv t = (let cfg = sv_config sv; own = ct_config t in
     (ct_pc t \<in> {Read_size, Read_timeout, Read_unlock} \<longrightarrow> read_callback own = read_callback cfg) \<and>
     (ct_pc t \<in> {Read_timeout, Read_unlock, Limits_timeout, Limits_unlock} \<longrightarrow> max_transfer_size own = max_transfer_size cfg) \<and>
     (ct_pc t \<in> {Read_unlock, Limits_unlock} \<longrightarrow> timeout_seconds own = timeout_seconds cfg))"

text \<open>Values read earlier were in force; those of one section were so at the same time.\<close>

fun download_read :: "'s conf_pc \<Rightarrow> bool" where
  "download_read Read_unlock = True"
| "download_read Read_done = True"
| "download_read _ = False"

fun upload_limits_read :: "'s conf_pc \<Rightarrow> bool" where
  "upload_limits_read Limits_unlock = True"
| "upload_limits_read Receiving = True"
| "upload_limits_read Write_lock = True"
| "upload_limits_read Write_call = True"
| "upload_limits_read Write_unlock = True"
| "upload_limits_read Write_done = True"
| "upload_limits_read _ = False"

definition same_limits :: "'s transfer_config \<Rightarrow> 's transfer_config \<Rightarrow> bool" where
  "same_limits own cfg = (max_transfer_size own = max_transfer_size cfg \<and> timeout_seconds own = timeout_seconds cfg)"

definition in_force :: "'s server_impl set \<Rightarrow> 's conf_thread \<Rightarrow> bool" where
  "in_force past t = (ct_secure t \<in> sv_secure_mode ` past \<and>
     read_callback (ct_config t) \<in> (read_callback \<circ> sv_config) ` past \<and>
     write_callback (ct_config t) \<in> (write_callback \<circ> sv_config) ` past \<and>
     max_transfer_size (ct_config t) \<in> (max_transfer_size \<circ> sv_config) ` past \<and>
     timeout_seconds (ct_config t) \<in> (timeout_seconds \<circ> sv_config) ` past)"

definition sections_past :: "'s server_impl set \<Rightarrow> 's conf_thread \<Rightarrow> bool" where
  "sections_past past t = (
     (download_read (ct_pc t) \<longrightarrow> (\<exists>sv \<in> past. read_callback (ct_config t) = read_callback (sv_config sv) \<and>
        same_limits (ct_config t) (sv_config sv))) \<and>
     (upload_limits_read (ct_pc t) \<longrightarrow> (\<exists>sv \<in> past. same_limits (ct_config t) (sv_config sv))))"

definition exclusive :: "'s conf_thread list \<Rightarrow> bool" where
  "exclusive ts = (\<forall>i j. i < length ts \<and> j < length ts \<and> holds_unique (ct_pc (ts ! i)) \<and>
     (holds_unique (ct_pc (ts ! j)) \<or> holds_shared (ct_pc (ts ! j))) \<longrightarrow> i = j)"

definition thread_ok :: "'s server_impl \<Rightarrow> 's server_impl set \<Rightarrow> 's conf_thread \<Rightarrow> bool" where
  "thread_ok sv past t = (section_ok sv t \<and> in_force past t \<and> sections_past past t)"

definition conf_inv :: "'s conf_state \<Rightarrow> bool" where
  "conf_inv st = (exclusive (cf_threads st) \<and> cf_sv st \<in> cf_past st \<and>
     list_all (thread_ok (cf_sv st) (cf_past st)) (cf_threads st))"

lemmas conf_defs = conf_next_def goes_def in_callback_def at_pc_def loads_def Let_def

lemma not_lockable: "t \<in> set ts \<Longrightarrow> holds_shared (ct_pc t) \<Longrightarrow> \<not> lockable ts"
  by (auto simp: lockable_def list_ex_iff)

text \<open>What the step of one thread needs and gives.\<close>

lemma conf_next_server:
  assumes "conf_next ch sv ts t = Some (t', sv')" and "t \<in> set ts" and "sv' \<noteq> sv"
  shows "holds_unique (ct_pc t)"
  using assms not_lockable [OF assms(2)]
  by (auto simp: conf_defs split: conf_pc.splits conf_choice.splits if_splits)

lemma conf_next_locks:
  assumes "conf_next ch sv ts t = Some (t', sv')" and "t \<in> set ts"
  shows "holds_unique (ct_pc t') \<Longrightarrow> lockable ts"
    and "holds_shared (ct_pc t') \<Longrightarrow> holds_shared (ct_pc t) \<or> shareable ts"
  using assms not_lockable [OF assms(2)]
  by (auto simp: conf_defs split: conf_pc.splits conf_choice.splits if_splits)

lemma conf_next_section:
  assumes "conf_next ch sv ts t = Some (t', sv')" and "t \<in> set ts" and "section_ok sv t"
  shows "section_ok sv' t'"
  using assms not_lockable [OF assms(2)]
  by (auto simp: section_ok_def conf_defs split: conf_pc.splits conf_choice.splits if_splits)

lemma conf_next_in_force:
  assumes "conf_next ch sv ts t = Some (t', sv')" and "t \<in> set ts" and "in_force past t" and "sv \<in> past"
  shows "in_force (insert sv' past) t'"
  using assms not_lockable [OF assms(2)]
  by (auto simp: in_force_def conf_defs split: conf_pc.splits conf_choice.splits if_splits)

lemma conf_next_sections:
  assumes "conf_next ch sv ts t = Some (t', sv')" and "t \<in> set ts" and "section_ok sv t"
    and "sections_past past t" and "sv \<in> past"
  shows "sections_past (insert sv' past) t'"
  using assms not_lockable [OF assms(2)]
  by (auto simp: sections_past_def section_ok_def same_limits_def conf_defs
      split: conf_pc.splits conf_choice.splits if_splits)

lemma section_ok_unheld: "\<not> holds_shared (ct_pc t) \<Longrightarrow> section_ok sv t"
  by (auto simp: section_ok_def Let_def)

lemma in_force_insert: "in_force past t \<Longrightarrow> in_force (insert sv past) t"
  by (auto simp: in_force_def)

lemma sections_past_insert: "sections_past past t \<Longrightarrow> sections_past (insert sv past) t"
  by (auto simp: sections_past_def)

lemma thread_ok_other:
  assumes "thread_ok sv past t" and "sv' \<noteq> sv \<Longrightarrow> \<not> holds_shared (ct_pc t)"
  shows "thread_ok sv' (insert sv' past) t"
proof -
  have "section_ok sv' t"
    using assms section_ok_unheld unfolding thread_ok_def by blast
  then show ?thesis
    using assms(1) by (simp add: thread_ok_def in_force_insert sections_past_insert)
qed

lemma exclusive_step:
  assumes "exclusive ts" and "i < length ts" and "conf_next ch sv ts (ts ! i) = Some (t', sv')"
  shows "exclusive (ts[i := t'])"
proof -
  note locks = conf_next_locks [OF assms(3) nth_mem [OF assms(2)]]
  have "\<not> holds_unique (ct_pc (ts ! j))" if "holds_shared (ct_pc t')" "j \<noteq> i" "j < length ts" for j
    using locks(2) [OF that(1)] assms(1,2) that by (auto simp: exclusive_def shareable_def list_ex_length)
  moreover have "\<not> holds_unique (ct_pc (ts ! j)) \<and> \<not> holds_shared (ct_pc (ts ! j))" if "holds_unique (ct_pc t')" "j < length ts" for j
    using locks(1) [OF that(1)] that(2) by (auto simp: lockable_def list_ex_length)
  ultimately show ?thesis
    using assms(1,2) unfolding exclusive_def by (auto simp: nth_list_update split: if_splits)
qed

lemma conf_step_inv:
  assumes "conf_inv st" and "conf_step st a st'"
  shows "conf_inv st'"
  using assms(2)
proof cases
  case (1 i ch t' sv')
  let ?ts = "cf_threads st" and ?past = "insert sv' (cf_past st)"
  have mem: "?ts ! i \<in> set ?ts"
    using 1(3) by simp
  have ok: "thread_ok (cf_sv st) (cf_past st) t" if "t \<in> set ?ts" for t
    using assms(1) that by (simp add: conf_inv_def list_all_iff)
  have "thread_ok sv' ?past t'"
    using ok [OF mem] assms(1) conf_next_section [OF 1(4) mem] conf_next_in_force [OF 1(4) mem]
      conf_next_sections [OF 1(4) mem] by (auto simp: thread_ok_def conf_inv_def)
  moreover have "thread_ok sv' ?past (?ts ! j)" if "j < length ?ts" "j \<noteq> i" for j
  proof (rule thread_ok_other [OF ok])
    show "\<not> holds_shared (ct_pc (?ts ! j))" if "sv' \<noteq> cf_sv st"
      using assms(1) conf_next_server [OF 1(4) mem that] \<open>j < length ?ts\<close> \<open>j \<noteq> i\<close> 1(3)
      unfolding conf_inv_def exclusive_def by blast
  qed (use that in simp)
  ultimately have "list_all (thread_ok sv' ?past) (?ts[i := t'])"
    using 1(3) by (auto simp: list_all_length nth_list_update)
  then show ?thesis
    using 1 exclusive_step [OF _ 1(3,4)] assms(1) by (simp add: conf_inv_def)
qed

interpretation conf: invariant_system conf_init conf_step conf_inv
proof
  show "conf_inv st" if "conf_init st" for st :: "'s conf_state"
  proof -
    have "thread_ok (cf_sv st) {cf_sv st} t \<and> \<not> holds_unique (ct_pc t)" if "starting (ct_pc t)" "ct_secure t = sv_secure_mode (cf_sv st)"
      "ct_config t = sv_config (cf_sv st)" for t
      using that by (cases "ct_pc t") (auto simp: thread_ok_def section_ok_def in_force_def sections_past_def)
    then show ?thesis
      using that by (auto simp: conf_init_def conf_inv_def exclusive_def list_all_length)
  qed
qed (rule conf_step_inv)

subsection \<open>Progress\<close>

text \<open>Some thread can make a step, or all have ended, or one waits for itself in a callback.\<close>

definition self_blocked :: "'s conf_thread \<Rightarrow> bool" where
  "self_blocked t = (\<exists>c back. ct_pc t = Reenters c back)"

lemma holder_goes_on:
  assumes "holds_unique (ct_pc t) \<or> holds_shared (ct_pc t)" and "\<not> self_blocked t"
  shows "conf_next Goes sv ts t \<noteq> None"
  using assms by (cases "ct_pc t") (auto simp: conf_defs self_blocked_def)

lemma free_goes_on:
  assumes "lockable ts" and "\<not> ended (ct_pc t)"
  shows "\<exists>ch. conf_next ch sv ts t \<noteq> None"
proof (cases "ct_pc t = Path_check")
  case True
  then have "conf_next Refuses sv ts t \<noteq> None"
    by (simp add: conf_defs)
  then show ?thesis ..
next
  case False
  moreover have "shareable ts"
    using assms(1) by (auto simp: lockable_def shareable_def list_ex_iff)
  ultimately have "conf_next Goes sv ts t \<noteq> None"
    using assms by (cases "ct_pc t") (auto simp: conf_defs)
  then show ?thesis ..
qed

lemma conf_progress:
  "(\<exists>a st'. conf_step st a st') \<or> list_all (\<lambda>t. ended (ct_pc t)) (cf_threads st) \<or> list_ex self_blocked (cf_threads st)"
proof -
  have step: "\<exists>a st'. conf_step st a st'" if "i < length (cf_threads st)" "conf_next ch (cf_sv st) (cf_threads st) (cf_threads st ! i) \<noteq> None" for i ch
    using that conf_step.intros [OF that(1)] by fast
  show ?thesis
  proof (cases "lockable (cf_threads st)")
    case True
    then show ?thesis
      using free_goes_on [OF True] step by (metis list_all_length)
  next
    case False
    then obtain i where "i < length (cf_threads st)"
      "holds_unique (ct_pc (cf_threads st ! i)) \<or> holds_shared (ct_pc (cf_threads st ! i))"
      by (auto simp: lockable_def list_ex_length)
    then show ?thesis
      using holder_goes_on step by (metis list_ex_length)
  qed
qed

text \<open>Every thread makes a bounded number of steps.\<close>

fun pc_rank :: "'s conf_pc \<Rightarrow> nat" where
  "pc_rank (Set_lock c) = 2"
| "pc_rank (Set_store c) = 1"
| "pc_rank Secure_lock = 13"
| "pc_rank Secure_load = 12"
| "pc_rank Secure_unlock = 11"
| "pc_rank Path_check = 10"
| "pc_rank Read_lock = 5"
| "pc_rank Read_call = 4"
| "pc_rank Read_size = 3"
| "pc_rank Read_timeout = 2"
| "pc_rank Read_unlock = 1"
| "pc_rank Limits_lock = 8"
| "pc_rank Limits_size = 7"
| "pc_rank Limits_timeout = 6"
| "pc_rank Limits_unlock = 5"
| "pc_rank Receiving = 4"
| "pc_rank Write_lock = 3"
| "pc_rank Write_call = 2"
| "pc_rank Write_unlock = 1"
| "pc_rank _ = 0"

definition conf_effort :: "'s conf_thread list \<Rightarrow> nat" where
  "conf_effort ts = sum_list (map (pc_rank \<circ> ct_pc) ts)"

lemma conf_next_rank:
  assumes "conf_next ch sv ts t = Some (t', sv')" and "t \<in> set ts"
  shows "pc_rank (ct_pc t') < pc_rank (ct_pc t)"
  using assms not_lockable [OF assms(2)]
  by (auto simp: conf_defs split: conf_pc.splits conf_choice.splits if_splits)

lemma conf_step_effort:
  assumes "conf_step st a st'"
  shows "conf_effort (cf_threads st') < conf_effort (cf_threads st)"
  using assms
proof cases
  case (1 i ch t' sv')
  have "pc_rank (ct_pc t') < pc_rank (ct_pc (cf_threads st ! i))"
    using conf_next_rank [OF 1(4)] 1(3) by simp
  then show ?thesis
    using 1(2,3) elem_le_sum_list [of i "map (pc_rank \<circ> ct_pc) (cf_threads st)"]
    by (simp add: conf_effort_def map_update sum_list_update)
qed

lemma run_conf_effort: "run conf_step st as st' \<Longrightarrow> length as + conf_effort (cf_threads st') \<le> conf_effort (cf_threads st)"
proof (induction rule: run.induct)
  case (run_cons st a st' as st'')
  then show ?case
    using conf_step_effort [of st a st'] by simp
qed simp

subsection \<open>Properties\<close>

text \<open>
  C11. Requests and reconfiguration, however the threads are scheduled: a setter never stores while
  another thread reads the configuration or is in a callback. Every value that a request has read
  was in force at some time; the callback and the limits of a download were in force together, and so
  were the limits of an upload. If every configuration in force was valid, so is the one that a
  request puts together from its sections, although it may never have been in force as a whole.
\<close>

theorem config_snapshots:
  assumes "reach conf_init conf_step st" and "t \<in> set (cf_threads st)"
  shows "exclusive (cf_threads st) \<and> in_force (cf_past st) t \<and>
    (download_read (ct_pc t) \<longrightarrow> (\<exists>sv \<in> cf_past st. read_callback (ct_config t) = read_callback (sv_config sv) \<and>
       same_limits (ct_config t) (sv_config sv))) \<and>
    (upload_limits_read (ct_pc t) \<longrightarrow> (\<exists>sv \<in> cf_past st. same_limits (ct_config t) (sv_config sv))) \<and>
    ((\<forall>sv \<in> cf_past st. config_ok (sv_config sv)) \<longrightarrow> config_ok (ct_config t))"
proof -
  have inv: "conf_inv st"
    by (rule conf.reach_inv [OF assms(1)])
  then have ok: "thread_ok (cf_sv st) (cf_past st) t"
    using assms(2) by (simp add: conf_inv_def list_all_iff)
  then have "config_ok (ct_config t)" if "\<forall>sv \<in> cf_past st. config_ok (sv_config sv)"
    using that by (auto simp: thread_ok_def in_force_def config_ok_def)
  then show ?thesis
    using inv ok by (auto simp: conf_inv_def thread_ok_def sections_past_def)
qed

text \<open>
  C21. Setters and requests do not keep each other from ending: all threads together make a bounded number
  of steps, and as long as not all have ended one of them can go on, unless a callback has called a
  setter of the server that runs it.
\<close>

theorem reconfiguration_ends:
  assumes "run conf_step st as st'"
  shows "length as \<le> conf_effort (cf_threads st) \<and>
    (list_all (\<lambda>t. ended (ct_pc t)) (cf_threads st') \<or> (\<exists>a st''. conf_step st' a st'') \<or> list_ex self_blocked (cf_threads st'))"
  using run_conf_effort [OF assms] conf_progress [of st'] by auto

text \<open>
  The exception is real: a callback that calls a setter waits for the lock that its own thread holds,
  and every setter waits with it, for ever.
\<close>

lemma self_blocked_stays:
  assumes "conf_step st a st'" and "i < length (cf_threads st)" and "self_blocked (cf_threads st ! i)"
  shows "i < length (cf_threads st') \<and> cf_threads st' ! i = cf_threads st ! i"
  using assms(1)
proof cases
  case (1 k ch t' sv')
  obtain c b where pc: "ct_pc (cf_threads st ! i) = Reenters c b"
    using assms(3) by (auto simp: self_blocked_def)
  then have "\<not> lockable (cf_threads st)"
    using not_lockable [OF nth_mem [OF assms(2)]] by simp
  then have "k \<noteq> i"
    using 1(4) pc by (auto simp: conf_defs split: conf_choice.splits)
  then show ?thesis
    using 1(2) assms(2) by simp
qed

lemma reentrant_callback_never_ends:
  assumes "run conf_step st as st'" and "i < length (cf_threads st)" and "self_blocked (cf_threads st ! i)"
  shows "cf_threads st' ! i = cf_threads st ! i \<and> \<not> lockable (cf_threads st')"
proof -
  have same: "i < length (cf_threads st') \<and> cf_threads st' ! i = cf_threads st ! i"
    using assms
  proof (induction rule: run.induct)
    case (run_cons st a st' as st'')
    then show ?case
      using self_blocked_stays [OF run_cons.hyps(1)] by simp
  qed simp
  then have "cf_threads st ! i \<in> set (cf_threads st')"
    by (metis nth_mem)
  then show ?thesis
    using same assms(3) not_lockable by (fastforce simp: self_blocked_def)
qed

subsection \<open>Schedules\<close>

fun run_conf :: "(nat \<times> 's conf_choice) list \<Rightarrow> 's conf_state \<Rightarrow> 's conf_state option" where
  "run_conf [] st = Some st"
| "run_conf ((i, ch) # as) st =
     (if i < length (cf_threads st) then
        (case conf_next ch (cf_sv st) (cf_threads st) (cf_threads st ! i) of
           None \<Rightarrow> None
         | Some (t', sv') \<Rightarrow> run_conf as (st\<lparr>cf_sv := sv', cf_threads := (cf_threads st)[i := t'],
             cf_past := insert sv' (cf_past st)\<rparr>))
      else None)"

lemma run_conf_run: "run_conf as st = Some st' \<Longrightarrow> run conf_step st as st'"
  by (induction as st rule: run_conf.induct) (auto split: if_splits option.splits intro: conf_step.intros)

definition conf_example :: "'s server_impl \<Rightarrow> 's conf_pc list \<Rightarrow> 's conf_state" where
  "conf_example sv pcs = \<lparr>cf_sv = sv,
     cf_threads = map (\<lambda>pc. \<lparr>ct_pc = pc, ct_secure = sv_secure_mode sv, ct_config = sv_config sv\<rparr>) pcs, cf_past = {sv}\<rparr>"

lemma conf_example_init: "list_all starting pcs \<Longrightarrow> conf_init (conf_example sv pcs)"
  by (simp add: conf_example_def conf_init_def list_all_iff)

text \<open>A timeout that is set while an upload is on its way to its limits.\<close>

definition upload_schedule :: "(nat \<times> 's conf_choice) list" where
  "upload_schedule = [(1, Goes), (1, Goes), (1, Goes), (1, Writes_file), (0, Goes), (0, Goes), (1, Goes), (1, Goes), (1, Goes)]"

lemma upload_schedule_run:
  "\<exists>st. run_conf upload_schedule (conf_example sv [Set_lock (Timeout 9), Secure_lock]) = Some st \<and>
     ct_pc (cf_threads st ! 1) = Limits_unlock \<and> timeout_seconds (ct_config (cf_threads st ! 1)) = 9 \<and> length (cf_threads st) = 2"
  by (simp add: upload_schedule_def conf_example_def conf_defs shareable_def lockable_def SetTimeout_def)

theorem config_snapshots_witness:
  "\<exists>st t. run_conf upload_schedule (conf_example server_example [Set_lock (Timeout 9), Secure_lock]) = Some st \<and>
     t \<in> set (cf_threads st) \<and> timeout_seconds (ct_config t) = 9 \<and> in_force (cf_past st) t"
proof -
  let ?st0 = "conf_example server_example [Set_lock (Timeout 9), Secure_lock]"
  obtain st where st: "run_conf upload_schedule ?st0 = Some st" "timeout_seconds (ct_config (cf_threads st ! 1)) = 9"
    "length (cf_threads st) = 2"
    using upload_schedule_run by blast
  have "conf_init ?st0"
    by (rule conf_example_init) simp
  then have "reach conf_init conf_step st"
    by (rule conf.reach_run [OF run_conf_run [OF st(1)] reach_init])
  moreover have "cf_threads st ! 1 \<in> set (cf_threads st)"
    using st(3) by simp
  ultimately show ?thesis
    using config_snapshots [of st "cf_threads st ! 1"] st by blast
qed

theorem reconfiguration_ends_witness:
  "length (upload_schedule :: (nat \<times> unit world conf_choice) list) \<le>
     conf_effort (cf_threads (conf_example server_example [Set_lock (Timeout 9), Secure_lock]))"
proof -
  let ?st0 = "conf_example server_example [Set_lock (Timeout 9), Secure_lock]"
  obtain st where "run_conf upload_schedule ?st0 = Some st"
    using upload_schedule_run by blast
  from reconfiguration_ends [OF run_conf_run [OF this]] show ?thesis
    by blast
qed

text \<open>A callback that sets the timeout blocks the server.\<close>

lemma reentrant_callback_deadlock:
  "\<exists>st. run_conf [(0, Goes), (0, Goes), (0, Goes), (0, Reads_file), (0, Goes), (0, Calls_setter (Timeout 9))]
     (conf_example sv [Secure_lock, Set_lock (Timeout 5)]) = Some st \<and> (\<nexists>a st'. conf_step st a st')"
  by (auto simp: conf_example_def conf_defs shareable_def lockable_def less_Suc_eq nth_Cons' elim!: conf_stepE split: conf_choice.splits)

end
