(* ===== verification/Tftp_Client.thy ===== *)
theory Tftp_Client
  imports Tftp_Validation Transition_System
begin

section \<open>The client\<close>

text \<open>
  \<^verbatim>\<open>TftpClient\<close> of \<^verbatim>\<open>include/tftp/tftp_server.h\<close> and \<^verbatim>\<open>src/tftp_client.cpp\<close>: the parameters are validated
  in order and the first invalid one is reported through \<^verbatim>\<open>GetLastError\<close>; the transfers themselves are
  not implemented in the code. The buffer that a download writes to is passed and returned. \<^verbatim>\<open>impl_\<close> is
  an option, as the functions test it.
\<close>

record client_impl =
  cl_timeout_seconds :: int
  cl_transfer_mode :: TransferMode
  cl_last_error :: string

definition new_client_impl :: client_impl where
  "new_client_impl = \<lparr>cl_timeout_seconds = kDefaultTimeout, cl_transfer_mode = kOctet,
     cl_last_error = ''No error''\<rparr>"

definition Impl_DownloadFile ::
  "string \<Rightarrow> string \<Rightarrow> byte list \<Rightarrow> uint16 \<Rightarrow> client_impl \<Rightarrow> bool \<times> byte list \<times> client_impl" where
  "Impl_DownloadFile host filename output_buffer port cl =
     (if \<not> ValidateHost host then
        (False, output_buffer, cl\<lparr>cl_last_error := ''Invalid host: '' @ host\<rparr>)
      else if \<not> ValidateFilename filename then
        (False, output_buffer, cl\<lparr>cl_last_error := ''Invalid filename: '' @ filename\<rparr>)
      else if \<not> ValidatePort port then
        (False, output_buffer, cl\<lparr>cl_last_error := ''Invalid port: '' @ show_nat (unat port)\<rparr>)
      else (False, [], cl\<lparr>cl_last_error := ''DownloadFile not yet implemented''\<rparr>))"

definition Impl_UploadFile ::
  "string \<Rightarrow> string \<Rightarrow> byte list \<Rightarrow> uint16 \<Rightarrow> client_impl \<Rightarrow> bool \<times> client_impl" where
  "Impl_UploadFile host filename data port cl =
     (if \<not> ValidateHost host then
        (False, cl\<lparr>cl_last_error := ''Invalid host: '' @ host\<rparr>)
      else if \<not> ValidateFilename filename then
        (False, cl\<lparr>cl_last_error := ''Invalid filename: '' @ filename\<rparr>)
      else if \<not> ValidatePort port then
        (False, cl\<lparr>cl_last_error := ''Invalid port: '' @ show_nat (unat port)\<rparr>)
      else if \<not> ValidateDataBuffer data (unat kMaxTransferSize) then
        (False, cl\<lparr>cl_last_error := ''Invalid data buffer (too large): '' @ show_nat (length data)\<rparr>)
      else (False, cl\<lparr>cl_last_error := ''UploadFile not yet implemented''\<rparr>))"

definition Impl_SetTimeout :: "int \<Rightarrow> client_impl \<Rightarrow> unit result \<times> client_impl" where
  "Impl_SetTimeout seconds cl =
     (if \<not> ValidateTimeout seconds then (Inl (TftpException (''Invalid timeout: '' @ show_int seconds)), cl)
      else (Inr (), cl\<lparr>cl_timeout_seconds := seconds\<rparr>))"

definition Impl_SetTransferMode :: "TransferMode \<Rightarrow> client_impl \<Rightarrow> unit result \<times> client_impl" where
  "Impl_SetTransferMode mode cl =
     (if \<not> ValidateTransferMode mode then
        (Inl (TftpException (''Invalid transfer mode: '' @ show_int (transfermode_value mode))), cl)
      else (Inr (), cl\<lparr>cl_transfer_mode := mode\<rparr>))"

definition Impl_GetLastError :: "client_impl \<Rightarrow> string" where
  "Impl_GetLastError cl = cl_last_error cl"

type_synonym tftp_client = "client_impl option"

definition TftpClient_new :: tftp_client where
  "TftpClient_new = Some new_client_impl"

definition TftpClient_DownloadFile ::
  "string \<Rightarrow> string \<Rightarrow> byte list \<Rightarrow> uint16 \<Rightarrow> tftp_client \<Rightarrow> bool \<times> byte list \<times> tftp_client" where
  "TftpClient_DownloadFile host filename output_buffer port client = (case client of
       None \<Rightarrow> (False, output_buffer, client)
     | Some cl \<Rightarrow> (let (r, buf, cl') = Impl_DownloadFile host filename output_buffer port cl
                  in (r, buf, Some cl')))"

definition TftpClient_UploadFile ::
  "string \<Rightarrow> string \<Rightarrow> byte list \<Rightarrow> uint16 \<Rightarrow> tftp_client \<Rightarrow> bool \<times> tftp_client" where
  "TftpClient_UploadFile host filename data port client = (case client of
       None \<Rightarrow> (False, client)
     | Some cl \<Rightarrow> (let (r, cl') = Impl_UploadFile host filename data port cl in (r, Some cl')))"

definition TftpClient_SetTimeout :: "int \<Rightarrow> tftp_client \<Rightarrow> unit result \<times> tftp_client" where
  "TftpClient_SetTimeout seconds client = (case client of
       None \<Rightarrow> (Inr (), client)
     | Some cl \<Rightarrow> (let (r, cl') = Impl_SetTimeout seconds cl in (r, Some cl')))"

definition TftpClient_SetTransferMode :: "TransferMode \<Rightarrow> tftp_client \<Rightarrow> unit result \<times> tftp_client" where
  "TftpClient_SetTransferMode mode client = (case client of
       None \<Rightarrow> (Inr (), client)
     | Some cl \<Rightarrow> (let (r, cl') = Impl_SetTransferMode mode cl in (r, Some cl')))"

definition TftpClient_GetLastError :: "tftp_client \<Rightarrow> string" where
  "TftpClient_GetLastError client = (case client of
       None \<Rightarrow> ''Client not initialized'' | Some cl \<Rightarrow> Impl_GetLastError cl)"

subsection \<open>Calls of the interface\<close>

datatype client_call =
    Download string string "byte list" uint16
  | Upload string string "byte list" uint16
  | Set_timeout int
  | Set_mode TransferMode

fun client_perform :: "client_call \<Rightarrow> tftp_client \<Rightarrow> tftp_client" where
  "client_perform (Download host filename buf port) client =
     snd (snd (TftpClient_DownloadFile host filename buf port client))"
| "client_perform (Upload host filename data port) client =
     snd (TftpClient_UploadFile host filename data port client)"
| "client_perform (Set_timeout t) client = snd (TftpClient_SetTimeout t client)"
| "client_perform (Set_mode mode) client = snd (TftpClient_SetTransferMode mode client)"

definition client_step :: "tftp_client \<Rightarrow> client_call \<Rightarrow> tftp_client \<Rightarrow> bool" where
  "client_step client call client' = (client_perform call client = client')"

definition client_inv :: "tftp_client \<Rightarrow> bool" where
  "client_inv client = (case client of
       None \<Rightarrow> False
     | Some cl \<Rightarrow> ValidateTimeout (cl_timeout_seconds cl) \<and> ValidateTransferMode (cl_transfer_mode cl))"

lemmas client_defs = TftpClient_DownloadFile_def Impl_DownloadFile_def TftpClient_UploadFile_def
  Impl_UploadFile_def TftpClient_SetTimeout_def Impl_SetTimeout_def TftpClient_SetTransferMode_def
  Impl_SetTransferMode_def TftpClient_GetLastError_def Impl_GetLastError_def

interpretation client: invariant_system "\<lambda>client. client = TftpClient_new" client_step client_inv
proof
  show "client_inv client" if "client = TftpClient_new" for client
    using that
    by (simp add: TftpClient_new_def new_client_impl_def client_inv_def ValidateTimeout_def guard_simps)
  show "client_inv client'" if "client_inv client" "client_step client call client'" for client call client'
    using that
    by (cases call; cases client) (auto simp: client_step_def client_inv_def client_defs split: if_splits)
qed

text \<open>The message of the first check that fails.\<close>

definition first_error :: "(bool \<times> string) list \<Rightarrow> string \<Rightarrow> string" where
  "first_error checks otherwise =
     (case find (\<lambda>(ok, msg). \<not> ok) checks of None \<Rightarrow> otherwise | Some (ok, msg) \<Rightarrow> msg)"

lemma first_error_simps [simp]:
  "first_error [] otherwise = otherwise"
  "first_error ((ok, msg) # checks) otherwise = (if ok then first_error checks otherwise else msg)"
  by (simp_all add: first_error_def)

text \<open>
  C35. The client reports the first invalid parameter: in every state that calls of the interface lead
  to, a download or upload returns false and leaves timeout and mode as they are; \<^verbatim>\<open>GetLastError\<close> then
  gives the message of the first check that fails, in the order host, file name, port, size of the
  data, or that the transfer is not implemented; and a request built from a file name that passes
  and the mode of the client would be parsed by the server.
\<close>

theorem client_reports_first_error:
  assumes "reach (\<lambda>client. client = TftpClient_new) client_step client"
    and "TftpClient_DownloadFile host filename buf port client = (ok, buf', client')"
    and "TftpClient_UploadFile host filename data port client = (ok2, client2)"
  shows "\<not> ok \<and> \<not> ok2 \<and>
    TftpClient_GetLastError client' = first_error
      [(ValidateHost host, ''Invalid host: '' @ host),
       (ValidateFilename filename, ''Invalid filename: '' @ filename),
       (port \<noteq> 0, ''Invalid port: '' @ show_nat (unat port))]
      ''DownloadFile not yet implemented'' \<and>
    buf' = (if ValidateHost host \<and> ValidateFilename filename \<and> port \<noteq> 0 then [] else buf) \<and>
    TftpClient_GetLastError client2 = first_error
      [(ValidateHost host, ''Invalid host: '' @ host),
       (ValidateFilename filename, ''Invalid filename: '' @ filename),
       (port \<noteq> 0, ''Invalid port: '' @ show_nat (unat port)),
       (length data \<le> 2 ^ 30, ''Invalid data buffer (too large): '' @ show_nat (length data))]
      ''UploadFile not yet implemented'' \<and>
    (\<exists>cl. client = Some cl \<and> client' = Some (cl\<lparr>cl_last_error := TftpClient_GetLastError client'\<rparr>) \<and>
      client2 = Some (cl\<lparr>cl_last_error := TftpClient_GetLastError client2\<rparr>) \<and>
      (ValidateFilename filename \<longrightarrow> (\<exists>bs. Serialize (CreateReadRequest filename (cl_transfer_mode cl)) = Inr bs \<and>
         Deserialize bs new_packet = (True, CreateReadRequest filename (cl_transfer_mode cl)))))"
proof -
  have "client_inv client"
    by (rule client.reach_inv [OF assms(1)])
  then obtain cl where cl: "client = Some cl" "ValidateTransferMode (cl_transfer_mode cl)"
    by (auto simp: client_inv_def split: option.splits)
  then have "\<exists>bs. Serialize (CreateReadRequest filename (cl_transfer_mode cl)) = Inr bs \<and>
      Deserialize bs new_packet = (True, CreateReadRequest filename (cl_transfer_mode cl))"
    if "ValidateFilename filename"
    using request_reaches_server [OF that] by blast
  then show ?thesis
    using assms(2,3) cl(1)
    by (auto simp: client_defs ValidatePort_def ValidateDataBuffer_def kMaxTransferSize_def split: if_splits)
qed

theorem client_reports_first_error_witness:
  "TftpClient_GetLastError (snd (snd (TftpClient_DownloadFile ''10.0.0.300'' ''boot.img'' [1] 69 TftpClient_new))) =
   ''Invalid host: 10.0.0.300''"
proof -
  have start: "reach (\<lambda>client. client = TftpClient_new) client_step TftpClient_new"
    by (rule reach_init) simp
  obtain ok buf' client' where down:
    "TftpClient_DownloadFile ''10.0.0.300'' ''boot.img'' [1] 69 TftpClient_new = (ok, buf', client')"
    by (rule prod_cases3)
  obtain ok2 client2 where up:
    "TftpClient_UploadFile ''10.0.0.300'' ''boot.img'' [] 69 TftpClient_new = (ok2, client2)"
    by fastforce
  have "\<not> ValidateHost ''10.0.0.300''"
    by code_simp
  then show ?thesis
    using client_reports_first_error [OF start down up] down by simp
qed

end
