(* ===== verification/Tftp_Sessions.thy ===== *)
theory Tftp_Sessions
  imports Tftp_Server Tftp_Client
begin

section \<open>Sessions of several clients\<close>

text \<open>
  What the parts give together: files and requests of several clients. The worker threads handle
  requests at the same time, and what they share is the file system: a session checks its name at
  its start and stores its file at its end, so that other sessions may have stored files in
  between. The relation below interleaves these steps in any order; a whole \<^verbatim>\<open>HandleClient\<close> is a
  sequence of them.
\<close>

subsection \<open>What a write keeps\<close>

text \<open>Directories and links stay, files may get a new content, and new names may appear.\<close>

definition keeps_names :: "filesystem \<Rightarrow> filesystem \<Rightarrow> bool" where
  "keeps_names fs fs' = (fs_cwd fs' = fs_cwd fs \<and>
     (\<forall>l nd. fs_lookup fs l = Some nd \<longrightarrow>
        fs_lookup fs' l = Some nd \<or> (\<exists>a b. nd = File a \<and> fs_lookup fs' l = Some (File b))))"

lemma keeps_names_refl [simp]: "keeps_names fs fs"
  by (simp add: keeps_names_def)

lemma keeps_names_extends: "fs_extends fs fs' \<Longrightarrow> keeps_names fs fs'"
  unfolding fs_extends_def keeps_names_def by (metis option.distinct(1))

lemma keeps_names_trans: "keeps_names fs fs' \<Longrightarrow> keeps_names fs' fs'' \<Longrightarrow> keeps_names fs fs''"
  unfolding keeps_names_def by metis

lemma keeps_names_put:
  assumes "fs_lookup fs loc = None \<or> (\<exists>b. fs_lookup fs loc = Some (File b))"
  shows "keeps_names fs (fs_put loc (File data) fs)"
  using assms by (auto simp: keeps_names_def)

lemma walk_keeps:
  "walk fs n cur cs = Inr x \<Longrightarrow> keeps_names fs fs' \<Longrightarrow> walk fs' n cur cs = Inr x"
proof (induction fs n cur cs rule: walk.induct)
  case (2 fs n cur c cs)
  have same: "fs_lookup fs' l = Some nd" if "fs_lookup fs l = Some nd" "nd = Dir \<or> nd = Symlink t" for l nd t
    using "2.prems"(2) that by (auto simp: keeps_names_def)
  have content: "\<exists>b. fs_lookup fs' l = Some (File b)" if "fs_lookup fs l = Some (File a)" for l a
    using "2.prems"(2) that by (auto simp: keeps_names_def)
  have dir: "fs_lookup fs cur = Some Dir"
    using "2.prems"(1) by (simp split: if_splits)
  show ?case
  proof (cases "c = [] \<or> c = ''.'' \<or> c = ''..''")
    case True
    then show ?thesis
      using 2 dir same [OF dir] by (auto split: if_splits)
  next
    case False
    then obtain nd where nd: "fs_lookup fs (cur @ [c]) = Some nd"
      using "2.prems"(1) dir by (auto split: option.splits)
    then show ?thesis
      using 2 False dir same [OF dir] same [OF nd] content [of "cur @ [c]"]
      by (cases nd) (auto split: if_splits)
  qed
qed simp

lemma root_at_keeps:
  assumes "root_at fs root r" and "keeps_names fs fs'" and "fs_ok fs'"
  shows "root_at fs' root r"
proof -
  have "start_of fs' root = start_of fs root"
    using assms(2) by (simp add: start_of_def keeps_names_def)
  then show ?thesis
    using assms walk_keeps [OF _ assms(2)]
    by (auto simp: root_at_def resolve_def map_sum_def split: sum.splits)
qed

lemma DefaultWriteHandler_keeps:
  assumes "DefaultWriteHandler fs path data = (res, fs')"
  shows "keeps_names fs fs'" and "no_links_below fs r \<Longrightarrow> no_links_below fs' r"
proof -
  have "keeps_names fs fs' \<and> (no_links_below fs r \<longrightarrow> no_links_below fs' r)"
    using assms
  proof (cases rule: DefaultWriteHandler_cases)
    case failed
    then show ?thesis
      using keeps_names_extends no_links_below_extends by blast
  next
    case (written fs1 loc)
    then have "keeps_names fs1 fs'"
      using keeps_names_put [OF creat_location_ok(4) [OF written(4)]] by simp
    moreover have "no_links_below fs1 r \<Longrightarrow> no_links_below fs' r"
      by (auto simp: no_links_below_def written(5))
    ultimately show ?thesis
      using written(2) keeps_names_trans keeps_names_extends no_links_below_extends by blast
  qed
  then show "keeps_names fs fs'" and "no_links_below fs r \<Longrightarrow> no_links_below fs' r"
    by blast+
qed

subsection \<open>Interleaved sessions\<close>

record file_state =
  ft_files :: filesystem
  ft_accepted :: "string list"   \<comment> \<open>the paths of the sessions in progress\<close>

datatype file_action = Accepts string | Stores string "byte list"

inductive file_step :: "'s server_impl \<Rightarrow> file_state \<Rightarrow> file_action \<Rightarrow> file_state \<Rightarrow> bool" for sv where
  accepts: "\<not> sv_secure_mode sv \<or> IsPathSecure (ft_files st) filename (sv_root_dir sv) \<Longrightarrow>
    filepath = NormalizePath (ft_files st) (sv_root_dir sv @ filename) \<Longrightarrow>
    file_step sv st (Accepts filename) (st\<lparr>ft_accepted := filepath # ft_accepted st\<rparr>)"
| stores: "filepath \<in> set (ft_accepted st) \<Longrightarrow> DefaultWriteHandler (ft_files st) filepath data = (res, fs') \<Longrightarrow>
    file_step sv st (Stores filepath data) (st\<lparr>ft_files := fs'\<rparr>)"

inductive_cases file_stepE [elim]: "file_step sv st a st'"

definition file_init :: "'s server_impl \<Rightarrow> location \<Rightarrow> filesystem \<Rightarrow> file_state \<Rightarrow> bool" where
  "file_init sv r fs0 st = (sv_secure_mode sv \<and> NUL \<notin> set (sv_root_dir sv) \<and> root_at fs0 (sv_root_dir sv) r \<and>
     no_links_below fs0 r \<and> st = \<lparr>ft_files = fs0, ft_accepted = []\<rparr>)"

text \<open>The shape of an accepted path: below the root, without leaving it again.\<close>

definition path_below :: "location \<Rightarrow> string \<Rightarrow> bool" where
  "path_below r p = (\<exists>xs. segs p = [] # r @ xs \<and> xs \<noteq> [] \<and> ''..'' \<notin> set xs)"

definition file_inv :: "'s server_impl \<Rightarrow> location \<Rightarrow> filesystem \<Rightarrow> file_state \<Rightarrow> bool" where
  "file_inv sv r fs0 st = (sv_secure_mode sv \<and> NUL \<notin> set (sv_root_dir sv) \<and>
     root_at (ft_files st) (sv_root_dir sv) r \<and> no_links_below (ft_files st) r \<and>
     changes_below r fs0 (ft_files st) \<and> list_all (path_below r) (ft_accepted st))"

lemma stores_keeps:
  assumes "root_at fs root r" and "no_links_below fs r" and "path_below r p"
    and "DefaultWriteHandler fs p data = (res, fs')"
  shows "root_at fs' root r" and "no_links_below fs' r" and "changes_below r fs fs'"
proof -
  have fs: "fs_ok fs"
    using assms(1) by (simp add: root_at_def)
  show "root_at fs' root r"
    using root_at_keeps [OF assms(1) DefaultWriteHandler_keeps(1) [OF assms(4)]]
      default_store.invar_write [OF fs assms(4)] by blast
  show "no_links_below fs' r"
    by (rule DefaultWriteHandler_keeps(2) [OF assms(4,2)])
  obtain xs where xs: "segs p = [] # r @ xs" "xs \<noteq> []" "''..'' \<notin> set xs"
    using assms(3) by (auto simp: path_below_def)
  then have "is_absolute p"
    by (cases "r @ xs") (auto intro: is_absolute_segs)
  then show "changes_below r fs fs'"
    by (rule DefaultWriteHandler_below [OF fs root_at_Dir [OF assms(1)] assms(2) _ xs assms(4)])
qed

interpretation files: invariant_system "file_init sv r fs0" "file_step sv" "file_inv sv r fs0" for sv r fs0
proof
  show "file_inv sv r fs0 st" if "file_init sv r fs0 st" for st
    using that by (simp add: file_init_def file_inv_def)
  show "file_inv sv r fs0 st'" if inv: "file_inv sv r fs0 st" and step: "file_step sv st a st'" for st a st'
    using step
  proof cases
    case (accepts filename filepath)
    then have "path_below r filepath"
      using inv secure_path_shape [of "ft_files st" "sv_root_dir sv" r filename]
      by (auto simp: file_inv_def path_below_def)
    then show ?thesis
      using inv accepts(2) by (simp add: file_inv_def)
  next
    case (stores filepath data res fs')
    then have "path_below r filepath"
      using inv by (auto simp: file_inv_def list_all_iff)
    from stores_keeps [OF _ _ this stores(4)] show ?thesis
      using inv stores(2) changes_below_trans by (auto simp: file_inv_def)
  qed
qed


lemma HandleClient_run:
  assumes "read_callback (sv_config sv) = Some default_read" and "write_callback (sv_config sv) = Some default_write"
    and "HandleClient env sv bytes addr (w, n, fds) = (w', n', fds')" and "ft_files st = w_fs w"
  shows "\<exists>as st'. run (file_step sv) st as st' \<and> ft_files st' = w_fs w'"
  using assms(1-3)
proof (cases rule: HandleClient_files)
  case unchanged
  then show ?thesis
    using assms(4) run_nil by metis
next
  case (stored filename data res)
  let ?path = "NormalizePath (ft_files st) (sv_root_dir sv @ filename)"
  let ?st1 = "st\<lparr>ft_accepted := ?path # ft_accepted st\<rparr>"
  have "file_step sv st (Accepts filename) ?st1"
    using stored(1) assms(4) by (intro accepts) simp_all
  moreover have "file_step sv ?st1 (Stores ?path data) (?st1\<lparr>ft_files := w_fs w'\<rparr>)"
    using stored(2) assms(4) by (intro stores) simp_all
  ultimately have "run (file_step sv) st [Accepts filename, Stores ?path data] (?st1\<lparr>ft_files := w_fs w'\<rparr>)"
    by auto
  then show ?thesis
    by (metis file_state.select_convs(1) file_state.surjective file_state.update_convs(1))
qed

text \<open>
  C5. Confinement with many clients: let the root directory exist and hold no symbolic links when a
  secure server with the default callbacks starts. Then after any interleaving of name checks and
  of files being stored, nothing outside the root directory has changed and the root is still
  there, without links. Handling one more datagram of any client, on any network, leads to such
  a state again.
\<close>

theorem concurrent_sessions_confined:
  assumes "reach (file_init sv r fs0) (file_step sv) st"
    and "read_callback (sv_config sv) = Some default_read" and "write_callback (sv_config sv) = Some default_write"
    and "HandleClient env sv bytes addr (w, n, fds) = (w', n', fds')" and "w_fs w = ft_files st"
  shows "(\<forall>loc. fs_lookup (ft_files st) loc \<noteq> fs_lookup fs0 loc \<longrightarrow> prefix r loc) \<and>
    resolve (ft_files st) (sv_root_dir sv) = Inr r \<and> no_links_below (ft_files st) r \<and>
    (\<exists>st'. reach (file_init sv r fs0) (file_step sv) st' \<and> ft_files st' = w_fs w')"
proof -
  have "file_inv sv r fs0 st"
    by (rule files.reach_inv [OF assms(1)])
  moreover obtain as st' where "run (file_step sv) st as st'" "ft_files st' = w_fs w'"
    using HandleClient_run [OF assms(2-4)] assms(5) by metis
  ultimately show ?thesis
    using files.reach_run [OF _ assms(1)] by (auto simp: file_inv_def changes_below_def root_at_def)
qed

theorem concurrent_sessions_confined_witness:
  "\<exists>w' n' fds'. HandleClient env_ok server_example (wrq_bytes ''log'') client
      (\<lparr>w_fs = fs_plain, w_app = ()\<rparr>, net_with [Datagram client (data_bytes 1 [5])], {}) = (w', n', fds') \<and>
    (\<exists>st'. reach (file_init server_example [''srv'', ''tftp''] fs_plain) (file_step server_example) st' \<and>
       ft_files st' = w_fs w')"
proof -
  let ?w = "\<lparr>w_fs = fs_plain, w_app = ()\<rparr>" and ?st = "\<lparr>ft_files = fs_plain, ft_accepted = []\<rparr>"
  have "root_at fs_plain (sv_root_dir server_example) [''srv'', ''tftp'']"
    "NUL \<notin> set (sv_root_dir server_example)" "sv_secure_mode server_example"
    by code_simp+
  moreover have "fs_lookup fs_plain l \<noteq> Some (Symlink t)" for l t
    by (auto simp: fs_lookup_def fs_plain_def)
  ultimately have start: "reach (file_init server_example [''srv'', ''tftp''] fs_plain) (file_step server_example) ?st"
    by (intro reach_init) (simp add: file_init_def no_links_below_def)
  have cfg: "read_callback (sv_config server_example) = Some default_read"
    "write_callback (sv_config server_example) = Some default_write"
    by (simp_all add: server_example_def new_server_impl_def default_config_def)
  obtain w' n' fds' where run: "HandleClient env_ok server_example (wrq_bytes ''log'') client
      (?w, net_with [Datagram client (data_bytes 1 [5])], {}) = (w', n', fds')"
    by (rule prod_cases3)
  then show ?thesis
    using concurrent_sessions_confined [OF start cfg run] by auto
qed

subsection \<open>Storing and fetching a file\<close>

lemma DefaultWriteHandler_child:
  assumes "root_at fs root r" and "valid_name c"
    and "fs_lookup fs (r @ [c]) = None \<or> (\<exists>b. fs_lookup fs (r @ [c]) = Some (File b))"
  shows "DefaultWriteHandler fs (show_location (r @ [c])) data = (Inr True, fs_put (r @ [c]) (File data) fs)"
proof -
  let ?path = "show_location (r @ [c])"
  have fs: "fs_ok fs" and r: "fs_lookup fs r = Some Dir"
    using assms(1) root_at_Dir [OF assms(1)] by (simp_all add: root_at_def)
  have names: "list_all valid_name (r @ [c])"
    using fs_ok_names [OF fs r] assms(2) by simp
  then have segs: "segs ?path = [] # r @ [c]"
    by (simp add: segs_show_location)
  have c: "c \<noteq> []" "c \<noteq> ''.''" "c \<noteq> ''..''"
    using assms(2) by (simp_all add: valid_name_def)
  have "open_creat fs MAXSYMLINKS r [c] = Some (r @ [c])"
    using assms(3) r c by auto
  then have "creat_location fs ?path = Some (r @ [c])"
    using open_creat_dirs [OF fs, of "[]" r MAXSYMLINKS "[c]"] r
    by (simp add: creat_location_def start_of_def segs)
  then have stored: "write_file fs ?path data = (Inr True, fs_put (r @ [c]) (File data) fs)"
    by (simp add: write_file_eq)
  have "filter (\<lambda>c. c \<noteq> []) r = r"
    using names by (auto simp: list_all_iff valid_name_def intro!: filter_True)
  moreover have path: "is_absolute ?path" "path_names ?path \<noteq> []"
    using c by (simp_all add: path_names_def segs)
  ultimately have parent: "path_rel_elems (parent_path ?path) = r" "is_absolute (parent_path ?path)"
    using path_rel_elems_parent [OF path] by (simp_all add: segs butlast_append)
  then have "parent_path ?path \<noteq> []"
    by (auto simp: is_absolute_def)
  moreover from this have "fs_exists fs (parent_path ?path) = Inr True"
    using walk_segs [of "parent_path ?path" fs "[]" MAXSYMLINKS] parent walk_location [OF fs present_Dir [OF r]]
    by (simp add: fs_exists_def resolve_def start_of_def)
  ultimately show ?thesis
    by (simp add: DefaultWriteHandler_def Let_def stored)
qed

lemma serve_plain_name:
  assumes "root_at (w_fs w) (sv_root_dir sv) r" and "NUL \<notin> set (sv_root_dir sv)" and "plain_name c"
    and "\<forall>t. fs_lookup (w_fs w) (r @ [c]) \<noteq> Some (Symlink t)" and "pk_filename packet = c"
  shows "pk_op_code packet = kWriteRequest \<Longrightarrow>
      HandleWriteRequest (sv_config sv) addr (show_location (r @ [c])) packet (w, n) = (q, w', n') \<Longrightarrow>
      serve_request sv packet addr (w, n) = (map_sum id (\<lambda>_. ()) q, w', n')"
    and "pk_op_code packet = kReadRequest \<Longrightarrow>
      HandleReadRequest (sv_config sv) addr (show_location (r @ [c])) (w, n) = (q, w', n') \<Longrightarrow>
      serve_request sv packet addr (w, n) = (map_sum id (\<lambda>_. ()) q, w', n')"
proof -
  have dir: "fs_lookup (w_fs w) r = Some Dir"
    by (rule root_at_Dir [OF assms(1)])
  have "IsPathSecure (w_fs w) c (sv_root_dir sv)"
    by (rule IsPathSecure_child [OF assms(1) dir assms(3,4)])
  moreover have "NormalizePath (w_fs w) (sv_root_dir sv @ c) = show_location (r @ [c])"
    using weakly_canonical_child [OF assms(1) dir _ assms(4)] assms(1-3)
    by (auto simp: NormalizePath_def plain_name_def root_at_def)
  ultimately show "pk_op_code packet = kWriteRequest \<Longrightarrow>
      HandleWriteRequest (sv_config sv) addr (show_location (r @ [c])) packet (w, n) = (q, w', n') \<Longrightarrow>
      serve_request sv packet addr (w, n) = (map_sum id (\<lambda>_. ()) q, w', n')"
    and "pk_op_code packet = kReadRequest \<Longrightarrow>
      HandleReadRequest (sv_config sv) addr (show_location (r @ [c])) (w, n) = (q, w', n') \<Longrightarrow>
      serve_request sv packet addr (w, n) = (map_sum id (\<lambda>_. ()) q, w', n')"
    by (simp_all add: serve_request_def assms(5))
qed


lemma default_write_child:
  assumes "root_at (w_fs w) root r" and "valid_name c"
    and "fs_lookup (w_fs w) (r @ [c]) = None \<or> (\<exists>b. fs_lookup (w_fs w) (r @ [c]) = Some (File b))"
  shows "call_write (write_callback default_config) w (show_location (r @ [c])) data =
    (Inr True, w\<lparr>w_fs := fs_put (r @ [c]) (File data) (w_fs w)\<rparr>)"
  using DefaultWriteHandler_child [OF assms] by (simp add: default_config_def default_write_def)

lemma upload_session:
  assumes "root_at (w_fs w) (sv_root_dir sv) r" and "NUL \<notin> set (sv_root_dir sv)" and "sv_config sv = default_config"
    and "plain_name c" and "ValidateFilename c" and "ValidateTransferMode mode"
    and "fs_lookup (w_fs w) (r @ [c]) = None \<or> (\<exists>b. fs_lookup (w_fs w) (r @ [c]) = Some (File b))"
    and "length data \<le> 2 ^ 30" and "0 \<le> ce_socket env" and "0 \<le> ce_bind env (fst addr, 0)"
    and "reliable n" and "nt_inbox n = map (Datagram addr) (numbered 1 (blocks data)) @ rest"
    and "Serialize (CreateWriteRequest c mode) = Inr wrq"
  shows "\<exists>n' es. HandleClient env sv wrq addr (w, n, fds) =
      (w\<lparr>w_fs := fs_put (r @ [c]) (File data) (w_fs w)\<rparr>, n', fds - {ce_socket env}) \<and>
    nt_trace n' = nt_trace n @ es \<and> delivered es = (addr, ack_bytes 0) # acks 1 (map (Pair addr) (blocks data))"
proof -
  let ?p = "CreateWriteRequest c mode" and ?w' = "w\<lparr>w_fs := fs_put (r @ [c]) (File data) (w_fs w)\<rparr>"
  have p: "pk_filename ?p = c" "pk_op_code ?p = kWriteRequest" "pk_options ?p = []"
    by (simp_all add: CreateWriteRequest_def new_packet_def)
  have "valid_name c"
    using assms(4) by (simp add: plain_name_def)
  from default_write_child [OF assms(1) this assms(7)]
  obtain n' es where up: "HandleWriteRequest (sv_config sv) addr (show_location (r @ [c])) ?p (w, n) = (Inr True, ?w', n')"
    "nt_trace n' = nt_trace n @ es" "delivered es = (addr, ack_bytes 0) # acks 1 (map (Pair addr) (blocks data))"
    using upload_complete [OF _ _ p(3) assms(11,12), of default_config w "show_location (r @ [c])" ?w'] assms(3,8)
    by (auto simp: default_config_def)
  have "Deserialize wrq new_packet = (True, ?p)"
    using request_reaches_server [OF assms(5,6), of ?p new_packet] assms(13) by auto
  moreover have "\<forall>t. fs_lookup (w_fs w) (r @ [c]) \<noteq> Some (Symlink t)"
    using assms(7) by auto
  ultimately show ?thesis
    using HandleClient_served [OF _ assms(9,10) serve_plain_name(1) [OF assms(1,2,4) _ p(1,2) up(1)]] up(2,3)
    by auto
qed

lemma download_session:
  assumes "root_at (w_fs w) (sv_root_dir sv) r" and "NUL \<notin> set (sv_root_dir sv)" and "sv_config sv = default_config"
    and "plain_name c" and "ValidateFilename c" and "ValidateTransferMode mode"
    and "fs_lookup (w_fs w) (r @ [c]) = Some (File data)"
    and "length data \<le> 2 ^ 30" and "0 \<le> ce_socket env" and "0 \<le> ce_bind env (fst addr, 0)"
    and "reliable n" and "nt_inbox n = map (\<lambda>i. Datagram addr (ack_bytes (word_of_nat (Suc i)))) [0..<length (blocks data)] @ rest"
    and "Serialize (CreateReadRequest c mode) = Inr rrq"
  shows "\<exists>n' es. HandleClient env sv rrq addr (w, n, fds) = (w, n', fds - {ce_socket env}) \<and>
    nt_trace n' = nt_trace n @ es \<and>
    delivered es = map (\<lambda>i. (addr, data_bytes (word_of_nat (Suc i)) (blocks data ! i))) [0..<length (blocks data)] \<and>
    concat (blocks data) = data"
proof -
  let ?p = "CreateReadRequest c mode"
  have p: "pk_filename ?p = c" "pk_op_code ?p = kReadRequest"
    by (simp_all add: CreateReadRequest_def new_packet_def)
  have "resolve (w_fs w) (show_location (r @ [c])) = Inr (r @ [c])"
    using assms(1,7) by (intro resolve_show_location) (auto simp: root_at_def present_def)
  then have "call_read (read_callback default_config) w (show_location (r @ [c])) = (Inr (True, data), w)"
    using assms(7) by (simp add: default_config_def default_read_def DefaultReadHandler_def)
  from download_complete [OF this _ _ assms(11,12)]
  obtain n' es where down: "HandleReadRequest (sv_config sv) addr (show_location (r @ [c])) (w, n) = (Inr True, w, n')"
    "nt_trace n' = nt_trace n @ es"
    "delivered es = map (\<lambda>i. (addr, data_bytes (word_of_nat (Suc i)) (blocks data ! i))) [0..<length (blocks data)]"
    "concat (blocks data) = data"
    using assms(3,8) by (auto simp: default_config_def)
  have "Deserialize rrq new_packet = (True, ?p)"
    using request_reaches_server [OF assms(5,6), of ?p new_packet] assms(13) by auto
  then show ?thesis
    using HandleClient_served [OF _ assms(9,10) serve_plain_name(2) [OF assms(1,2,4) _ p(1,2) down(1)]] down(2-4) assms(7)
    by auto
qed

text \<open>
  C7. The server stores and serves files: a client that writes a file of at most 1 GiB under an
  ordinary name, and sends its blocks, has it stored below the root directory, with nothing else
  changed and every block acknowledged; another client that then asks for the name, and
  acknowledges what it gets, receives exactly the blocks of the file. Both sockets are closed again.
\<close>

theorem stored_file_is_served:
  assumes "root_at (w_fs w) (sv_root_dir sv) r" and "NUL \<notin> set (sv_root_dir sv)" and "sv_config sv = default_config"
    and "plain_name c" and "ValidateFilename c" and "ValidateTransferMode mode"
    and "fs_lookup (w_fs w) (r @ [c]) = None \<or> (\<exists>b. fs_lookup (w_fs w) (r @ [c]) = Some (File b))"
    and "length data \<le> 2 ^ 30" and "0 \<le> ce_socket env" and "\<forall>a. 0 \<le> ce_bind env a"
    and "reliable n" and "nt_inbox n = map (Datagram addr) (numbered 1 (blocks data)) @ rest"
    and "reliable m" and "nt_inbox m = map (\<lambda>i. Datagram addr' (ack_bytes (word_of_nat (Suc i)))) [0..<length (blocks data)] @ rest'"
    and "Serialize (CreateWriteRequest c mode) = Inr wrq" and "Serialize (CreateReadRequest c mode) = Inr rrq"
  shows "\<exists>w' n' es m' ds. HandleClient env sv wrq addr (w, n, fds) = (w', n', fds - {ce_socket env}) \<and>
    w' = w\<lparr>w_fs := fs_put (r @ [c]) (File data) (w_fs w)\<rparr> \<and>
    nt_trace n' = nt_trace n @ es \<and> delivered es = (addr, ack_bytes 0) # acks 1 (map (Pair addr) (blocks data)) \<and>
    HandleClient env sv rrq addr' (w', m, fds) = (w', m', fds - {ce_socket env}) \<and>
    nt_trace m' = nt_trace m @ ds \<and>
    delivered ds = map (\<lambda>i. (addr', data_bytes (word_of_nat (Suc i)) (blocks data ! i))) [0..<length (blocks data)] \<and>
    concat (blocks data) = data"
proof -
  let ?w' = "w\<lparr>w_fs := fs_put (r @ [c]) (File data) (w_fs w)\<rparr>"
  have "fs_ok (w_fs w)"
    using assms(1) by (simp add: root_at_def)
  then have "root_at (w_fs ?w') (sv_root_dir sv) r"
    using root_at_keeps [OF assms(1) keeps_names_put [OF assms(7)]] fs_ok_put [of "w_fs w" "r @ [c]" "File data"]
      root_at_Dir [OF assms(1)] assms(4,7)
    by (auto simp: plain_name_def)
  from upload_session [OF assms(1-9) _ assms(11,12,15)] download_session [OF this assms(2-6) _ assms(8,9) _ assms(13,14,16)]
  show ?thesis
    using assms(10) by auto
qed


theorem stored_file_is_served_witness:
  "\<exists>w' n' m'. HandleClient env_ok server_example (wrq_bytes ''log'') client
      (world_example, net_with [Datagram client (data_bytes 1 [5, 6])], {}) = (w', n', {}) \<and>
    HandleClient env_ok server_example (rrq_bytes ''log'') client (w', net_with [Datagram client (ack_bytes 1)], {}) =
      (w', m', {}) \<and> delivered (nt_trace m') = [(client, data_bytes 1 [5, 6])]"
proof -
  have root: "root_at (w_fs world_example) (sv_root_dir server_example) [''srv'', ''tftp'']"
      "NUL \<notin> set (sv_root_dir server_example)" "sv_config server_example = default_config"
    and name: "plain_name ''log''" "ValidateFilename ''log''" "ValidateTransferMode kOctet"
    and free: "fs_lookup (w_fs world_example) ([''srv'', ''tftp''] @ [''log'']) = None"
    and reqs: "Serialize (CreateWriteRequest ''log'' kOctet) = Inr (wrq_bytes ''log'')"
      "Serialize (CreateReadRequest ''log'' kOctet) = Inr (rrq_bytes ''log'')"
    by (simp_all only: server_example_def new_server_impl_def server_impl.simps refl) code_simp+
  have blocks: "blocks [5, 6] = [[5, 6]]"
    by (simp add: blocks_short kMaxDataSize_def)
  have nets: "reliable (net_with xs)" "nt_trace (net_with xs) = []" "nt_inbox (net_with xs) = xs" for xs
    by (simp_all add: reliable_def net_with_def)
  let ?n = "net_with [Datagram client (data_bytes 1 [5, 6])]" and ?m = "net_with [Datagram client (ack_bytes 1)]"
  have "\<exists>w' n' es m' ds. HandleClient env_ok server_example (wrq_bytes ''log'') client (world_example, ?n, {}) =
      (w', n', {} - {ce_socket env_ok}) \<and>
    HandleClient env_ok server_example (rrq_bytes ''log'') client (w', ?m, {}) = (w', m', {} - {ce_socket env_ok}) \<and>
    nt_trace m' = nt_trace ?m @ ds \<and> delivered ds = [(client, data_bytes 1 [5, 6])]"
    using stored_file_is_served [OF root name _ _ _ _ nets(1) _ nets(1) _ reqs, of "[5, 6]" env_ok
        "[Datagram client (data_bytes 1 [5, 6])]" client "[]" "[Datagram client (ack_bytes 1)]" client "[]" "{}"] free
    by (auto simp: env_ok_def blocks nets)
  then show ?thesis
    by (auto simp: nets)
qed

end
