(* ===== verification/Tftp_Interleaving.thy ===== *)
theory Tftp_Interleaving
  imports Tftp_Sessions
begin

section \<open>Interleaved calls of the file system\<close>

text \<open>
  \<^verbatim>\<open>Tftp_Sessions\<close> takes the check of a name with its normalisation, and the storing of a file, as one
  step each. Here the worker threads are interleaved in finer steps on the way through \<^verbatim>\<open>HandleClient\<close>,
  \<^verbatim>\<open>DefaultReadHandler\<close> and \<^verbatim>\<open>DefaultWriteHandler\<close>: the check of a name, its normalisation, the test for the
  parent directory, its creation, the opening of the file, the writing of its text, the test that it exists, and for
  reading the opening, the size and the text. \<^verbatim>\<open>IsPathSecure\<close>, \<^verbatim>\<open>NormalizePath\<close> and \<^verbatim>\<open>create_directories\<close> are one
  step each, though they look at the file system several times, and so are \<^verbatim>\<open>write\<close>, \<^verbatim>\<open>flush\<close> and \<^verbatim>\<open>close\<close> together.
  Opening an \<^verbatim>\<open>ofstream\<close> truncates the file, and each stream writes from its own offset 0.
\<close>

subsection \<open>The path of a name that was accepted earlier\<close>

text \<open>
  The check looks at the file system as it is, but what it lets through keeps its meaning: without
  links below the root the path of an accepted name depends on the name only.
\<close>

definition proper :: "string \<Rightarrow> bool" where
  "proper c = (c \<noteq> [] \<and> c \<noteq> ''.'')"

definition name_ok :: "location \<Rightarrow> string \<Rightarrow> bool" where
  "name_ok r p = (p \<noteq> [] \<and> \<not> is_absolute p \<and> ''..'' \<notin> set (path_rel_elems p) \<and> NUL \<notin> set p \<and>
     (r = [] \<or> list_ex proper (path_rel_elems p)))"

lemma walk_plain:
  assumes "no_links_below fs r"
  shows "prefix r cur \<Longrightarrow> ''..'' \<notin> set cs \<Longrightarrow>
    walk fs n cur cs \<noteq> Inl ELOOP \<and> (\<forall>m l. walk fs n cur cs = Inr (m, l) \<longrightarrow> l = cur @ filter proper cs)"
proof (induction cs arbitrary: cur)
  case (Cons c cs)
  have "fs_lookup fs (cur @ [c]) \<noteq> Some (Symlink t)" for t
    using assms Cons.prems(1) by (auto simp: no_links_below_def)
  then show ?case
    using Cons.IH [of cur] Cons.IH [of "cur @ [c]"] Cons.prems
    by (auto simp: proper_def split: option.splits node.splits)
qed simp

lemma existing_prefix_plain:
  assumes "no_links_below fs r"
  shows "walk fs MAXSYMLINKS start found = Inr (m, cur) \<Longrightarrow> prefix r cur \<Longrightarrow> ''..'' \<notin> set es \<Longrightarrow>
    \<exists>taken rest m'. existing_prefix fs start found es = Inr (found @ taken, rest) \<and> es = taken @ rest \<and>
      walk fs MAXSYMLINKS start (found @ taken) = Inr (m', cur @ filter proper taken)"
proof (induction es arbitrary: found m cur)
  case (Cons e es)
  show ?case
  proof (cases "walk fs MAXSYMLINKS start (found @ [e])")
    case (Inl x)
    moreover have "x \<noteq> ELOOP"
      using Inl Cons.prems walk_plain [OF assms Cons.prems(2), of "[e]" m] by (auto simp: walk_append simp del: walk.simps)
    ultimately show ?thesis
      using Cons.prems(1) by (cases x) auto
  next
    case (Inr y)
    obtain m' l where y: "y = (m', l)"
      by (cases y)
    have l: "l = cur @ filter proper [e]"
      using Inr y Cons.prems walk_plain [OF assms Cons.prems(2), of "[e]" m] by (auto simp: walk_append simp del: walk.simps)
    obtain taken rest m'' where "existing_prefix fs start (found @ [e]) es = Inr ((found @ [e]) @ taken, rest)"
      "es = taken @ rest" "walk fs MAXSYMLINKS start ((found @ [e]) @ taken) = Inr (m'', l @ filter proper taken)"
      using Cons.IH [of "found @ [e]" m' l] Inr y Cons.prems(2,3) l by auto
    then show ?thesis
      using Inr l by (intro exI [of _ "e # taken"] exI [of _ rest]) auto
  qed
qed simp

lemma root_walk:
  assumes "root_at fs root r"
  obtains m where "walk fs MAXSYMLINKS (start_of fs root) (path_names root) = Inr (m, r)"
proof -
  have fs: "fs_ok fs" and root: "root \<noteq> []" and "resolve fs root = Inr r"
    using assms by (auto simp: root_at_def)
  then obtain m where "walk fs MAXSYMLINKS (start_of fs root) (path_rel_elems root) = Inr (m, r)"
    using walk_segs [OF root start_of_Dir [OF fs], of MAXSYMLINKS root] by (auto simp: resolve_Inr_iff)
  then show thesis
    using that by (auto simp: path_rel_elems_def walk_append split: if_splits sum.splits)
qed

lemma resolve_append:
  assumes "root_at fs root r" and "p \<noteq> []" and "\<not> is_absolute p"
  obtains m where "walk fs MAXSYMLINKS (start_of fs (root @ p)) (path_names root) = Inr (m, r)"
    and "resolve fs (root @ p) = map_sum id snd (walk fs m r (path_rel_elems p))"
    and "path_rel_elems (root @ p) = path_names root @ path_rel_elems p"
    and "is_absolute (root @ p) \<or> path_names root \<noteq> []"
proof -
  have fs: "fs_ok fs" and root: "root \<noteq> []" "last root = CHR ''/''"
    using assms(1) by (auto simp: root_at_def)
  have elems: "path_rel_elems (root @ p) = path_names root @ path_rel_elems p"
    by (rule path_rel_elems_append [OF root assms(2,3)])
  have abs: "is_absolute (root @ p) = is_absolute root" and start: "start_of fs (root @ p) = start_of fs root"
    using root by (simp_all add: is_absolute_def start_of_def)
  obtain m where m: "walk fs MAXSYMLINKS (start_of fs root) (path_names root) = Inr (m, r)"
    by (rule root_walk [OF assms(1)])
  have "walk fs MAXSYMLINKS (start_of fs root) (segs (root @ p)) = walk fs m r (path_rel_elems p)"
    using walk_segs [of "root @ p" fs "start_of fs root" MAXSYMLINKS] start_of_Dir [OF fs, of root] root m
    by (simp add: elems walk_append del: walk.simps)
  then have "resolve fs (root @ p) = map_sum id snd (walk fs m r (path_rel_elems p))"
    using root by (simp add: resolve_def start)
  then show thesis
    using that m elems abs start root_at_walk(1) [OF assms(1)] by simp
qed

text \<open>The names along the path: those of the root and the proper ones of the name.\<close>

lemma weakly_canonical_absent:
  assumes "root_at fs root r" and "no_links_below fs r" and "p \<noteq> []" and "\<not> is_absolute p"
    and "''..'' \<notin> set (path_rel_elems p)" and "resolve fs (root @ p) = Inl e"
  shows "\<exists>tr. weakly_canonical fs (root @ p) = Inr (show_normal True (r @ filter proper (path_rel_elems p), tr))"
proof -
  let ?ps = "path_rel_elems p" and ?q = "root @ p"
  obtain m where m: "walk fs MAXSYMLINKS (start_of fs ?q) (path_names root) = Inr (m, r)"
    and resolve: "resolve fs ?q = map_sum id snd (walk fs m r ?ps)"
    and elems: "path_rel_elems ?q = path_names root @ ?ps" and abs: "is_absolute ?q \<or> path_names root \<noteq> []"
    by (rule resolve_append [OF assms(1,3,4)])
  have "e \<noteq> ELOOP"
    using walk_plain [OF assms(2) prefix_order.refl assms(5), of m] resolve assms(6) by (cases "walk fs m r ?ps") auto
  moreover obtain taken rest m' where ps: "?ps = taken @ rest"
    and ep: "existing_prefix fs (start_of fs ?q) (path_names root) ?ps = Inr (path_names root @ taken, rest)"
    and walk: "walk fs MAXSYMLINKS (start_of fs ?q) (path_names root @ taken) = Inr (m', r @ filter proper taken)"
    using existing_prefix_plain [OF assms(2) m prefix_order.refl assms(5)] by blast
  ultimately have wc: "weakly_canonical fs ?q =
      Inr (show_normal True (norm_names True [] False ((r @ filter proper taken) @ rest)))"
    using assms(6) abs m existing_prefix_append [of fs "start_of fs ?q" "[]" "path_names root" "(m, r)" ?ps]
    by (auto simp: weakly_canonical_def fs_exists_def elems split: fs_error.splits)
  have names: "list_all valid_name r"
    by (rule root_at_names [OF assms(1)])
  have "filter proper r = r"
    using names by (auto simp: list_all_iff valid_name_def proper_def intro!: filter_True)
  moreover have "''..'' \<notin> set ((r @ filter proper taken) @ rest)"
    using assms(5) ps names by (auto simp: list_all_iff valid_name_def)
  ultimately have "fst (norm_names True [] False ((r @ filter proper taken) @ rest)) = r @ filter proper ?ps"
    by (simp add: norm_names_plain ps proper_def [abs_def])
  then show ?thesis
    using wc by (metis prod.collapse)
qed

lemma weakly_canonical_plain:
  assumes "root_at fs root r" and "no_links_below fs r" and "p \<noteq> []" and "\<not> is_absolute p"
    and "''..'' \<notin> set (path_rel_elems p)"
  obtains t tl where "weakly_canonical fs (root @ p) = Inr t"
    and "segs t = [] # r @ filter proper (path_rel_elems p) @ tl"
    and "tl = [[]] \<or> tl = [] \<and> r @ filter proper (path_rel_elems p) \<noteq> []"
proof -
  let ?ks = "r @ filter proper (path_rel_elems p)" and ?q = "root @ p"
  have fs: "fs_ok fs"
    using assms(1) by (simp add: root_at_def)
  obtain m where resolve: "resolve fs ?q = map_sum id snd (walk fs m r (path_rel_elems p))"
    by (rule resolve_append [OF assms(1,3,4)])
  show thesis
  proof (cases "resolve fs ?q")
    case (Inr l)
    then have l: "l = ?ks"
      using walk_plain [OF assms(2) prefix_order.refl assms(5), of m] resolve
      by (cases "walk fs m r (path_rel_elems p)") auto
    have "list_all valid_name ?ks"
      using present_lookup [OF resolve_present [OF fs Inr]] fs_ok_names [OF fs] l by blast
    then show thesis
      using that [of "show_location ?ks" "if ?ks = [] then [[]] else []"] Inr l
      by (auto simp: weakly_canonical_def fs_exists_def canonical_def segs_show_location show_location_def [of "[]"])
  next
    case (Inl e)
    obtain tr where wc: "weakly_canonical fs ?q = Inr (show_normal True (?ks, tr))"
      using weakly_canonical_absent [OF assms Inl] by blast
    have "list_all (\<lambda>c. CHR ''/'' \<notin> set c) (path_rel_elems p)"
      by (auto simp: list_all_iff path_rel_elems_def path_names_def dest: segs_no_slash)
    then have noslash: "list_all (\<lambda>c. CHR ''/'' \<notin> set c) ?ks" and "''..'' \<notin> set ?ks"
      using assms(5) root_at_names [OF assms(1)] by (auto simp: list_all_iff valid_name_def)
    then have "?ks \<noteq> [] \<Longrightarrow> last ?ks \<noteq> ''..''"
      by (metis last_in_set)
    then have "segs (show_normal True (?ks, tr)) = [] # ?ks @ (if ?ks = [] \<or> tr then [[]] else [])"
      using segs_show_normal [OF noslash, of tr] by (cases "?ks = []") (auto simp: show_normal_def)
    then show thesis
      using that [OF wc, of "if ?ks = [] \<or> tr then [[]] else []"] by auto
  qed
qed

lemma name_ok_path:
  assumes "root_at fs root r" and "NUL \<notin> set root" and "no_links_below fs r" and "name_ok r p"
  shows "path_below r (NormalizePath fs (root @ p))"
proof -
  have p: "p \<noteq> []" "\<not> is_absolute p" "''..'' \<notin> set (path_rel_elems p)" "NUL \<notin> set p"
    and some: "r = [] \<or> list_ex proper (path_rel_elems p)"
    using assms(4) by (simp_all add: name_ok_def)
  obtain t tl where t: "weakly_canonical fs (root @ p) = Inr t"
    "segs t = [] # r @ filter proper (path_rel_elems p) @ tl" and tl: "tl = [[]] \<or> tl = [] \<and> r @ filter proper (path_rel_elems p) \<noteq> []"
    by (rule weakly_canonical_plain [OF assms(1,3) p(1-3)])
  have "NormalizePath fs (root @ p) = t"
    using t(1) assms(1,2) p(4) by (simp add: NormalizePath_def root_at_def)
  moreover have "filter proper (path_rel_elems p) @ tl \<noteq> []"
    using some tl by (auto simp: list_ex_iff filter_empty_conv)
  moreover have "''..'' \<notin> set (filter proper (path_rel_elems p) @ tl)"
    using p(3) tl by auto
  ultimately show ?thesis
    unfolding path_below_def using t(2) by blast
qed

lemma walk_dots:
  "fs_lookup fs cur = Some Dir \<Longrightarrow> \<not> list_ex proper cs \<Longrightarrow> walk fs n cur cs = Inr (n, cur)"
  by (induction cs) (auto simp: proper_def)

lemma secure_name_ok:
  assumes "root_at fs root r" and "IsPathSecure fs p root"
  shows "name_ok r p"
proof -
  note name = IsPathSecure_name [OF assms(2)]
  have "list_ex proper (path_rel_elems p)" if "r \<noteq> []"
  proof (rule ccontr)
    assume "\<not> list_ex proper (path_rel_elems p)"
    moreover obtain m where "resolve fs (root @ p) = map_sum id snd (walk fs m r (path_rel_elems p))"
      by (rule resolve_append [OF assms(1) name(1,3)])
    ultimately have "weakly_canonical fs (root @ p) = Inr (show_location r)"
      using walk_dots [OF root_at_Dir [OF assms(1)]] by (simp add: weakly_canonical_def fs_exists_def canonical_def)
    then show False
      using IsPathSecure_target [OF assms(1,2)] that
      by (auto simp: with_separator_show_location [OF root_at_names [OF assms(1)]] prefix_def)
  qed
  then show ?thesis
    using name by (auto simp: name_ok_def)
qed

subsection \<open>The worker threads\<close>

datatype access = Reads | Writes "byte list"

datatype session =
    Received string access             \<comment> \<open>before \<^verbatim>\<open>IsPathSecure\<close>\<close>
  | Checked string access              \<comment> \<open>before \<^verbatim>\<open>NormalizePath\<close>\<close>
  | W_exists string "byte list"        \<comment> \<open>before \<^verbatim>\<open>exists(parent_path)\<close>\<close>
  | W_mkdir string "byte list"         \<comment> \<open>before \<^verbatim>\<open>create_directories\<close>\<close>
  | W_open string "byte list"          \<comment> \<open>before \<^verbatim>\<open>std::ofstream file(path)\<close>\<close>
  | W_write string location "byte list" \<comment> \<open>the stream is open on the file, before \<^verbatim>\<open>write\<close>\<close>
  | W_verify string                    \<comment> \<open>before \<^verbatim>\<open>exists(path)\<close>\<close>
  | R_open string                      \<comment> \<open>before \<^verbatim>\<open>std::ifstream file(path)\<close>\<close>
  | R_size location                    \<comment> \<open>the stream is open on the file, before \<^verbatim>\<open>tellg\<close>\<close>
  | R_data location nat                \<comment> \<open>before \<^verbatim>\<open>read\<close> of so many bytes\<close>
  | Denied
  | Written "bool result"
  | Read "(bool \<times> byte list) result"

definition file_bytes :: "filesystem \<Rightarrow> location \<Rightarrow> byte list" where
  "file_bytes fs loc = (case fs_lookup fs loc of Some (File b) \<Rightarrow> b | _ \<Rightarrow> [])"

text \<open>A stream opened for writing writes over what is there, from offset 0.\<close>

definition overwrite :: "byte list \<Rightarrow> byte list \<Rightarrow> byte list" where
  "overwrite data old = data @ drop (length data) old"

definition session_step :: "'s server_impl \<Rightarrow> filesystem \<Rightarrow> session \<Rightarrow> (session \<times> filesystem) option" where
  "session_step sv fs s = (case s of
       Received filename acc \<Rightarrow>
         if sv_secure_mode sv \<and> \<not> IsPathSecure fs filename (sv_root_dir sv) then Some (Denied, fs)
         else Some (Checked filename acc, fs)
     | Checked filename acc \<Rightarrow> (let filepath = NormalizePath fs (sv_root_dir sv @ filename) in
         case acc of Reads \<Rightarrow> Some (R_open filepath, fs) | Writes data \<Rightarrow> Some (W_exists filepath data, fs))
     | W_exists path data \<Rightarrow>
         if parent_path path = [] then Some (W_open path data, fs)
         else (case fs_exists fs (parent_path path) of
             Inl x \<Rightarrow> Some (Written (Inl x), fs)
           | Inr True \<Rightarrow> Some (W_open path data, fs)
           | Inr False \<Rightarrow> Some (W_mkdir path data, fs))
     | W_mkdir path data \<Rightarrow> (case create_directories fs (parent_path path) of
           (False, fs') \<Rightarrow> Some (Written (Inr False), fs')
         | (True, fs') \<Rightarrow> Some (W_open path data, fs'))
     | W_open path data \<Rightarrow> (case creat_location fs path of
           None \<Rightarrow> Some (Written (Inr False), fs)
         | Some loc \<Rightarrow> Some (W_write path loc data, fs_put loc (File []) fs))
     | W_write path loc data \<Rightarrow>
         Some (W_verify path, fs_put loc (File (overwrite data (file_bytes fs loc))) fs)
     | W_verify path \<Rightarrow> Some (Written (fs_exists fs path), fs)
     | R_open path \<Rightarrow> (case resolve fs path of
           Inl e \<Rightarrow> Some (Read (Inr (False, [])), fs)
         | Inr loc \<Rightarrow> (case fs_lookup fs loc of
             Some (File data) \<Rightarrow> Some (R_size loc, fs)
           | Some Dir \<Rightarrow> Some (Read (case fs_dir_read fs of None \<Rightarrow> Inr (False, []) | Some x \<Rightarrow> Inl x), fs)
           | _ \<Rightarrow> Some (Read (Inr (False, [])), fs)))
     | R_size loc \<Rightarrow> Some (R_data loc (length (file_bytes fs loc)), fs)
     | R_data loc file_size \<Rightarrow> (let data = take file_size (file_bytes fs loc) in
         Some (Read (if length data < file_size then Inr (False, []) else Inr (True, data)), fs))
     | Denied \<Rightarrow> None
     | Written r \<Rightarrow> None
     | Read r \<Rightarrow> None)"

record sessions =
  ss_files :: filesystem
  ss_threads :: "session list"

inductive sessions_step :: "'s server_impl \<Rightarrow> sessions \<Rightarrow> nat \<Rightarrow> sessions \<Rightarrow> bool" for sv where
  "i < length (ss_threads st) \<Longrightarrow> session_step sv (ss_files st) (ss_threads st ! i) = Some (s', fs') \<Longrightarrow>
   sessions_step sv st i (st\<lparr>ss_files := fs', ss_threads := (ss_threads st)[i := s']\<rparr>)"

inductive_cases sessions_stepE [elim]: "sessions_step sv st i st'"

text \<open>Any number of requests has just been received.\<close>

fun is_received :: "session \<Rightarrow> bool" where
  "is_received (Received filename acc) = True"
| "is_received _ = False"

definition sessions_init :: "'s server_impl \<Rightarrow> location \<Rightarrow> filesystem \<Rightarrow> sessions \<Rightarrow> bool" where
  "sessions_init sv r fs0 st = (sv_secure_mode sv \<and> NUL \<notin> set (sv_root_dir sv) \<and> root_at fs0 (sv_root_dir sv) r \<and>
     no_links_below fs0 r \<and> ss_files st = fs0 \<and> list_all is_received (ss_threads st))"

subsection \<open>One session alone\<close>

text \<open>Without other threads the steps of a session compute the handlers.\<close>

inductive alone :: "'s server_impl \<Rightarrow> filesystem \<Rightarrow> session \<Rightarrow> session \<Rightarrow> filesystem \<Rightarrow> bool" for sv where
  alone_end: "session_step sv fs s = None \<Longrightarrow> alone sv fs s s fs"
| alone_step: "session_step sv fs s = Some (s', fs') \<Longrightarrow> alone sv fs' s' s'' fs'' \<Longrightarrow> alone sv fs s s'' fs''"

inductive_simps alone_Written [simp]: "alone sv fs (Written r) s' fs'"
inductive_simps alone_Read [simp]: "alone sv fs (Read r) s' fs'"

lemma alone_iff:
  "session_step sv fs s = Some (s', fs') \<Longrightarrow> alone sv fs s s'' fs'' \<longleftrightarrow> alone sv fs' s' s'' fs''"
  by (subst alone.simps) auto

lemma write_file_alone:
  "alone sv fs (W_open path data) s' fs' \<longleftrightarrow> (\<exists>r. write_file fs path data = (r, fs') \<and> s' = Written r)"
proof (cases "creat_location fs path")
  case None
  then have "session_step sv fs (W_open path data) = Some (Written (Inr False), fs)"
    by (simp add: session_step_def)
  then show ?thesis
    using None by (auto simp: alone_iff session_step_def [of _ _ "Written _"] write_file_eq)
next
  case (Some loc)
  let ?fs1 = "fs_put loc (File []) fs" and ?fs2 = "fs_put loc (File data) fs"
  have loc: "loc \<noteq> []"
    using creat_location_ok(1) [OF Some] .
  have "session_step sv fs (W_open path data) = Some (W_write path loc data, ?fs1)"
    using Some by (simp add: session_step_def)
  moreover have "fs_put loc (File data) ?fs1 = ?fs2"
    by (simp add: fs_put_def)
  then have "session_step sv ?fs1 (W_write path loc data) = Some (W_verify path, ?fs2)"
    using loc by (simp add: session_step_def overwrite_def file_bytes_def)
  moreover have "session_step sv ?fs2 (W_verify path) = Some (Written (Inr True), ?fs2)"
    using resolve_created [of fs path loc data] Some by (simp add: session_step_def fs_exists_def)
  ultimately show ?thesis
    using Some by (auto simp: alone_iff session_step_def [of _ _ "Written _"] write_file_eq)
qed

lemma write_alone:
  "alone sv fs (W_exists path data) s' fs' \<longleftrightarrow> (\<exists>r. DefaultWriteHandler fs path data = (r, fs') \<and> s' = Written r)"
proof (cases "parent_path path = [] \<or> fs_exists fs (parent_path path) = Inr True")
  case True
  then have "session_step sv fs (W_exists path data) = Some (W_open path data, fs)"
    by (auto simp: session_step_def)
  then show ?thesis
    using True by (auto simp: alone_iff write_file_alone DefaultWriteHandler_def Let_def)
next
  case parent: False
  show ?thesis
  proof (cases "fs_exists fs (parent_path path)")
    case (Inl x)
    then have "session_step sv fs (W_exists path data) = Some (Written (Inl x), fs)"
      using parent by (simp add: session_step_def)
    then show ?thesis
      using Inl parent by (auto simp: alone_iff session_step_def [of _ _ "Written _"] DefaultWriteHandler_def Let_def)
  next
    case (Inr b)
    then have step: "session_step sv fs (W_exists path data) = Some (W_mkdir path data, fs)"
      using parent by (simp add: session_step_def)
    obtain ok fs1 where cd: "create_directories fs (parent_path path) = (ok, fs1)"
      by (cases "create_directories fs (parent_path path)")
    then have "session_step sv fs (W_mkdir path data) =
        Some (if ok then W_open path data else Written (Inr False), fs1)"
      by (simp add: session_step_def)
    then show ?thesis
      using step cd Inr parent
      by (cases ok) (auto simp: alone_iff write_file_alone session_step_def [of _ _ "Written _"] DefaultWriteHandler_def Let_def)
  qed
qed

lemma read_alone: "alone sv fs (R_open path) s' fs' \<longleftrightarrow> fs' = fs \<and> s' = Read (DefaultReadHandler fs path)"
proof (cases "\<exists>loc data. resolve fs path = Inr loc \<and> fs_lookup fs loc = Some (File data)")
  case True
  then obtain loc data where loc: "resolve fs path = Inr loc" "fs_lookup fs loc = Some (File data)"
    by blast
  then have "session_step sv fs (R_open path) = Some (R_size loc, fs)"
    "session_step sv fs (R_size loc) = Some (R_data loc (length data), fs)"
    "session_step sv fs (R_data loc (length data)) = Some (Read (Inr (True, data)), fs)"
    by (simp_all add: session_step_def file_bytes_def)
  then show ?thesis
    using loc by (auto simp: alone_iff session_step_def [of _ _ "Read _"] DefaultReadHandler_def)
next
  case False
  then have "session_step sv fs (R_open path) = Some (Read (DefaultReadHandler fs path), fs)"
    by (auto simp: session_step_def DefaultReadHandler_def split: sum.splits option.splits node.splits)
  then show ?thesis
    by (auto simp: alone_iff session_step_def [of _ _ "Read _"])
qed

subsection \<open>The invariant\<close>

definition session_ok :: "location \<Rightarrow> filesystem \<Rightarrow> session \<Rightarrow> bool" where
  "session_ok r fs s = (case s of
       Checked filename acc \<Rightarrow> name_ok r filename
     | W_exists path data \<Rightarrow> path_below r path
     | W_mkdir path data \<Rightarrow> path_below r path \<and> path_names path \<noteq> []
     | W_open path data \<Rightarrow> path_below r path
     | W_write path loc data \<Rightarrow> prefix r loc \<and> (\<exists>b. fs_lookup fs loc = Some (File b))
     | R_open path \<Rightarrow> path_below r path
     | R_size loc \<Rightarrow> prefix r loc
     | R_data loc n \<Rightarrow> prefix r loc
     | _ \<Rightarrow> True)"

definition sessions_inv :: "'s server_impl \<Rightarrow> location \<Rightarrow> filesystem \<Rightarrow> sessions \<Rightarrow> bool" where
  "sessions_inv sv r fs0 st = (sv_secure_mode sv \<and> NUL \<notin> set (sv_root_dir sv) \<and>
     root_at (ss_files st) (sv_root_dir sv) r \<and> no_links_below (ss_files st) r \<and>
     changes_below r fs0 (ss_files st) \<and> list_all (session_ok r (ss_files st)) (ss_threads st))"

text \<open>What a step of one thread may do to the file system, and that it harms no other thread.\<close>

definition step_keeps :: "location \<Rightarrow> filesystem \<Rightarrow> filesystem \<Rightarrow> bool" where
  "step_keeps r fs fs' = (keeps_names fs fs' \<and> changes_below r fs fs' \<and>
     (fs_ok fs \<longrightarrow> fs_ok fs') \<and> (no_links_below fs r \<longrightarrow> no_links_below fs' r))"

lemma step_keeps_refl [simp]: "step_keeps r fs fs"
  by (simp add: step_keeps_def)

lemma step_keeps_put:
  assumes "prefix r loc" and "loc \<noteq> []" and "valid_name (last loc)" and "fs_lookup fs (butlast loc) = Some Dir"
    and "fs_lookup fs loc = None \<or> (\<exists>b. fs_lookup fs loc = Some (File b))"
  shows "step_keeps r fs (fs_put loc (File data) fs)"
  using assms keeps_names_put [OF assms(5)]
  by (auto simp: step_keeps_def changes_below_put no_links_below_def intro!: fs_ok_put)

lemma session_ok_keeps:
  assumes "session_ok r fs s" and "keeps_names fs fs'"
  shows "session_ok r fs' s"
  using assms by (auto simp: session_ok_def keeps_names_def split: session.splits)

lemma path_below_absolute:
  assumes "path_below r p"
  shows "is_absolute p"
proof -
  obtain xs where "segs p = [] # r @ xs" "xs \<noteq> []"
    using assms by (auto simp: path_below_def)
  then show ?thesis
    by (cases "r @ xs") (auto intro: is_absolute_segs)
qed

lemma path_below_resolve:
  assumes "root_at fs root r" and "no_links_below fs r" and "path_below r p" and "resolve fs p = Inr loc"
  shows "prefix r loc"
proof -
  obtain xs where xs: "segs p = [] # r @ xs" "''..'' \<notin> set xs"
    using assms(3) by (auto simp: path_below_def)
  have fs: "fs_ok fs"
    using assms(1) by (simp add: root_at_def)
  obtain m where "walk fs MAXSYMLINKS [] (r @ xs) = Inr (m, loc)"
    using assms(4) path_below_absolute [OF assms(3)] xs(1)
    by (auto simp: resolve_def start_of_def map_sum_def split: sum.splits if_splits)
  then have "walk fs MAXSYMLINKS r xs = Inr (m, loc)"
    using walk_location [OF fs present_Dir [OF root_at_Dir [OF assms(1)]]] by (simp add: walk_append)
  then show ?thesis
    using walk_below [OF assms(2) _ prefix_order.refl xs(2)] by blast
qed

lemma mkdir_keeps:
  assumes "root_at fs root r" and "no_links_below fs r" and "path_below r path" and "path_names path \<noteq> []"
    and "create_directories fs (parent_path path) = (b, fs')"
  shows "step_keeps r fs fs'"
proof -
  obtain xs where xs: "segs path = [] # r @ xs" "xs \<noteq> []" "''..'' \<notin> set xs"
    using assms(3) by (auto simp: path_below_def)
  have fs: "fs_ok fs"
    using assms(1) by (simp add: root_at_def)
  have "changes_below r fs fs'"
    by (rule create_directories_below [OF fs root_at_Dir [OF assms(1)] assms(2) path_below_absolute [OF assms(3)] xs assms(4,5)])
  then show ?thesis
    using create_directories_extends [OF assms(5)] fs keeps_names_extends no_links_below_extends
    by (auto simp: step_keeps_def)
qed

lemma open_keeps:
  assumes "root_at fs root r" and "no_links_below fs r" and "path_below r path" and "creat_location fs path = Some loc"
  shows "step_keeps r fs (fs_put loc (File data) fs)" and "prefix r loc" and "loc \<noteq> []"
proof -
  obtain xs where xs: "segs path = [] # r @ xs" "''..'' \<notin> set xs"
    using assms(3) by (auto simp: path_below_def)
  have fs: "fs_ok fs"
    using assms(1) by (simp add: root_at_def)
  show "prefix r loc"
    by (rule creat_location_below [OF fs root_at_Dir [OF assms(1)] assms(2) path_below_absolute [OF assms(3)] xs assms(4)])
  then show "step_keeps r fs (fs_put loc (File data) fs)" and "loc \<noteq> []"
    using creat_location_ok [OF assms(4)] by (auto intro: step_keeps_put)
qed

lemma overwrite_keeps:
  assumes "fs_ok fs" and "prefix r loc" and "fs_lookup fs loc = Some (File b)"
  shows "step_keeps r fs (fs_put loc (File data) fs)"
proof -
  have "loc \<noteq> []"
    using assms(3) by auto
  then obtain d c where loc: "loc = d @ [c]"
    by (metis append_butlast_last_id)
  then show ?thesis
    using fs_ok_entry [OF assms(1), of d c] assms by (intro step_keeps_put) auto
qed

lemma session_step_ok:
  assumes "sv_secure_mode sv" and "NUL \<notin> set (sv_root_dir sv)" and "root_at fs (sv_root_dir sv) r"
    and "no_links_below fs r" and "session_ok r fs s" and "session_step sv fs s = Some (s', fs')"
  shows "step_keeps r fs fs' \<and> session_ok r fs' s'"
proof -
  have fs: "fs_ok fs"
    using assms(3) by (simp add: root_at_def)
  show ?thesis
  proof (cases s)
    case (Received filename acc)
    then show ?thesis
      using assms(1,6) secure_name_ok [OF assms(3)] by (auto simp: session_step_def session_ok_def split: if_splits)
  next
    case (Checked filename acc)
    then have "path_below r (NormalizePath fs (sv_root_dir sv @ filename))"
      using name_ok_path [OF assms(3,2,4)] assms(5) by (simp add: session_ok_def)
    then show ?thesis
      using Checked assms(6) by (auto simp: session_step_def session_ok_def Let_def split: access.splits)
  next
    case (W_exists path data)
    then show ?thesis
      using assms(5,6) missing_parent_names [OF fs] path_below_absolute
      by (auto simp: session_step_def session_ok_def split: if_splits sum.splits bool.splits)
  next
    case (W_mkdir path data)
    then show ?thesis
      using assms(5,6) mkdir_keeps [OF assms(3,4)]
      by (auto simp: session_step_def session_ok_def split: prod.splits bool.splits)
  next
    case (W_open path data)
    then show ?thesis
      using assms(5,6) open_keeps [OF assms(3,4)] by (auto simp: session_step_def session_ok_def split: option.splits)
  next
    case (W_write path loc data)
    then show ?thesis
      using assms(5,6) overwrite_keeps [OF fs] by (auto simp: session_step_def session_ok_def)
  next
    case (R_open path)
    then show ?thesis
      using assms(5,6) path_below_resolve [OF assms(3,4)]
      by (auto simp: session_step_def session_ok_def split: sum.splits option.splits node.splits)
  qed (use assms(5,6) in \<open>auto simp: session_step_def session_ok_def Let_def\<close>)
qed

interpretation calls: invariant_system "sessions_init sv r fs0" "sessions_step sv" "sessions_inv sv r fs0" for sv r fs0
proof
  show "sessions_inv sv r fs0 st" if "sessions_init sv r fs0 st" for st
  proof -
    have "is_received s \<Longrightarrow> session_ok r fs0 s" for s
      by (cases s) (simp_all add: session_ok_def)
    then show ?thesis
      using that by (auto simp: sessions_init_def sessions_inv_def list_all_iff)
  qed
  show "sessions_inv sv r fs0 st'" if inv: "sessions_inv sv r fs0 st" and step: "sessions_step sv st i st'" for st i st'
    using step
  proof cases
    case (1 s' fs')
    have old: "sv_secure_mode sv" "NUL \<notin> set (sv_root_dir sv)" "root_at (ss_files st) (sv_root_dir sv) r"
      "no_links_below (ss_files st) r" "list_all (session_ok r (ss_files st)) (ss_threads st)"
      using inv by (simp_all add: sessions_inv_def)
    have "session_ok r (ss_files st) (ss_threads st ! i)"
      using old(5) 1(2) by (simp add: list_all_length)
    from session_step_ok [OF old(1-4) this 1(3)]
    have keeps: "keeps_names (ss_files st) fs'" "changes_below r (ss_files st) fs'" "fs_ok fs'" "no_links_below fs' r"
      and new: "session_ok r fs' s'"
      using old(3,4) by (auto simp: step_keeps_def root_at_def)
    have "list_all (session_ok r fs') ((ss_threads st)[i := s'])"
      using old(5) new session_ok_keeps [OF _ keeps(1)]
      by (auto simp: list_all_iff dest!: set_update_subset_insert [THEN subsetD])
    then show ?thesis
      using 1(1) inv old(1,2) keeps root_at_keeps [OF old(3) keeps(1,3)] changes_below_trans
      by (auto simp: sessions_inv_def)
  qed
qed

subsection \<open>Properties\<close>

text \<open>The file that a thread has open.\<close>

fun opened_location :: "session \<Rightarrow> location option" where
  "opened_location (W_write path loc data) = Some loc"
| "opened_location (R_size loc) = Some loc"
| "opened_location (R_data loc n) = Some loc"
| "opened_location _ = None"

lemma session_ok_opened: "session_ok r fs s \<Longrightarrow> opened_location s = Some loc \<Longrightarrow> prefix r loc"
  by (cases s) (auto simp: session_ok_def)

text \<open>
  C6. Confinement when the steps of requests are interleaved: let the root directory exist and hold no symbolic
  links when a secure server starts to handle any number of requests. However the calls of the
  worker threads are interleaved, also between the check of a name and the use of its path, nothing
  outside the root directory changes, no thread ever has a file outside of it open for reading or
  writing, and the root is still there, without links.
\<close>

theorem interleaved_calls_confined:
  assumes "reach (sessions_init sv r fs0) (sessions_step sv) st"
  shows "(\<forall>loc. fs_lookup (ss_files st) loc \<noteq> fs_lookup fs0 loc \<longrightarrow> prefix r loc) \<and>
    (\<forall>s \<in> set (ss_threads st). \<forall>loc. opened_location s = Some loc \<longrightarrow> prefix r loc) \<and>
    resolve (ss_files st) (sv_root_dir sv) = Inr r \<and> no_links_below (ss_files st) r"
proof -
  have inv: "sessions_inv sv r fs0 st"
    by (rule calls.reach_inv [OF assms])
  have "prefix r loc" if "s \<in> set (ss_threads st)" "opened_location s = Some loc" for s loc
    using inv that session_ok_opened by (auto simp: sessions_inv_def list_all_iff)
  then show ?thesis
    using inv by (auto simp: sessions_inv_def changes_below_def root_at_def)
qed

text \<open>
  The finer steps are those of the handlers: a session that runs without interruption ends with the
  result and the files of \<^verbatim>\<open>DefaultWriteHandler\<close> or \<^verbatim>\<open>DefaultReadHandler\<close>.
\<close>

lemma session_alone:
  "alone sv fs (W_exists path data) s' fs' = (s' = Written (fst (DefaultWriteHandler fs path data)) \<and>
     fs' = snd (DefaultWriteHandler fs path data))"
  "alone sv fs (R_open path) s'' fs'' = (s'' = Read (DefaultReadHandler fs path) \<and> fs'' = fs)"
  by (auto simp: write_alone read_alone)

subsection \<open>Schedules\<close>

fun run_schedule :: "'s server_impl \<Rightarrow> nat list \<Rightarrow> sessions \<Rightarrow> sessions option" where
  "run_schedule sv [] st = Some st"
| "run_schedule sv (i # is) st =
     (if i < length (ss_threads st) then
        (case session_step sv (ss_files st) (ss_threads st ! i) of
           None \<Rightarrow> None
         | Some (s', fs') \<Rightarrow> run_schedule sv is (st\<lparr>ss_files := fs', ss_threads := (ss_threads st)[i := s']\<rparr>))
      else None)"

lemma run_schedule_run: "run_schedule sv is st = Some st' \<Longrightarrow> run (sessions_step sv) st is st'"
  by (induction "is" arbitrary: st) (auto split: if_splits option.splits intro: sessions_step.intros)

lemma reach_schedule:
  assumes "run_schedule sv is st = Some st'" and "sessions_init sv r fs0 st"
  shows "reach (sessions_init sv r fs0) (sessions_step sv) st'"
  by (rule calls.reach_run [OF run_schedule_run [OF assms(1)]]) (rule reach_init, rule assms(2))

definition two_sessions :: "filesystem \<Rightarrow> access \<Rightarrow> access \<Rightarrow> sessions" where
  "two_sessions fs a b = \<lparr>ss_files = fs, ss_threads = [Received ''log'' a, Received ''log'' b]\<rparr>"

lemma fs_plain_init: "sessions_init server_example [''srv'', ''tftp''] fs_plain (two_sessions fs_plain a b)"
proof -
  have "root_at fs_plain (sv_root_dir server_example) [''srv'', ''tftp'']"
    "NUL \<notin> set (sv_root_dir server_example)" "sv_secure_mode server_example"
    by code_simp+
  moreover have "fs_lookup fs_plain l \<noteq> Some (Symlink t)" for l t
    by (auto simp: fs_lookup_def fs_plain_def)
  ultimately show ?thesis
    by (simp add: sessions_init_def two_sessions_def no_links_below_def)
qed

text \<open>
  Two uploads of the same name at the same time can both be reported as stored and leave a
  file that is neither of the two: each stream truncates the file when it opens it and then writes
  from the beginning.
\<close>

lemma concurrent_uploads_mix:
  "\<exists>st. reach (sessions_init server_example [''srv'', ''tftp''] fs_plain) (sessions_step server_example) st \<and>
     ss_threads st = [Written (Inr True), Written (Inr True)] \<and>
     run_schedule server_example [0, 0, 0, 1, 1, 1, 0, 1, 0, 1, 0, 1] (two_sessions fs_plain (Writes [1, 1, 1]) (Writes [2])) = Some st \<and>
     fs_lookup (ss_files st) [''srv'', ''tftp'', ''log''] = Some (File [2, 1, 1])"
proof -
  let ?st0 = "two_sessions fs_plain (Writes [1, 1, 1]) (Writes [2])" and ?is = "[0, 0, 0, 1, 1, 1, 0, 1, 0, 1, 0, 1] :: nat list"
  have "map_option (\<lambda>st. (ss_threads st, fs_lookup (ss_files st) [''srv'', ''tftp'', ''log''])) (run_schedule server_example ?is ?st0) =
      Some ([Written (Inr True), Written (Inr True)], Some (File [2, 1, 1]))"
    by code_simp
  then obtain st where "run_schedule server_example ?is ?st0 = Some st" "ss_threads st = [Written (Inr True), Written (Inr True)]"
    "fs_lookup (ss_files st) [''srv'', ''tftp'', ''log''] = Some (File [2, 1, 1])"
    by auto
  then show ?thesis
    using reach_schedule [OF _ fs_plain_init] by blast
qed

theorem interleaved_calls_confined_witness:
  "\<exists>st. run_schedule server_example [0, 0, 0, 0] (two_sessions fs_plain (Writes [7]) Reads) = Some st \<and>
     (\<forall>s \<in> set (ss_threads st). \<forall>loc. opened_location s = Some loc \<longrightarrow> prefix [''srv'', ''tftp''] loc)"
proof -
  let ?st0 = "two_sessions fs_plain (Writes [7]) Reads"
  have "run_schedule server_example [0, 0, 0, 0] ?st0 \<noteq> None"
    by code_simp
  then obtain st where st: "run_schedule server_example [0, 0, 0, 0] ?st0 = Some st"
    by blast
  from interleaved_calls_confined [OF reach_schedule [OF st fs_plain_init]] show ?thesis
    using st by blast
qed

text \<open>
  A download during an upload of the same name can succeed with a file that was never stored: here
  a file of one byte is replaced by another of one byte, and the reader gets an empty one.
\<close>

definition fs_log :: filesystem where
  "fs_log = fs_put [''srv'', ''tftp'', ''log''] (File [5]) fs_plain"

lemma reader_sees_truncated_file:
  "map_option (\<lambda>st. (ss_threads st, file_bytes (ss_files st) [''srv'', ''tftp'', ''log'']))
     (run_schedule server_example [0, 0, 0, 1, 1, 0, 1, 1, 1, 0, 0] (two_sessions fs_log (Writes [7]) Reads)) =
   Some ([Written (Inr True), Read (Inr (True, []))], [7])"
  by code_simp

end
