(* ===== verification/Tftp_System.thy ===== *)
theory Tftp_System
  imports Tftp_Interleaving
begin

section \<open>The running server as a whole\<close>

text \<open>
  The server with its pool and the sessions of its workers, composed: the server thread receives
  datagrams and submits them, the workers take them from the queue, and a worker that runs a task
  goes through the calls of a session on the files that all of them share. A worker begins and ends
  its task together with the corresponding step of the pool. The history of the requests that
  were accepted and of those that were handled is kept with the state; no step depends on it.
\<close>

text \<open>
  The session of a request, for the data that its upload will bring. A datagram that cannot be
  parsed and a packet that is no request touch no file.
\<close>

definition session_of :: "byte list \<Rightarrow> request \<Rightarrow> session option" where
  "session_of data q = (case Deserialize (fst q) new_packet of
       (False, _) \<Rightarrow> None
     | (True, packet) \<Rightarrow>
         if pk_op_code packet = kReadRequest then Some (Received (pk_filename packet) Reads)
         else if pk_op_code packet = kWriteRequest then Some (Received (pk_filename packet) (Writes data))
         else None)"

record 'a system =
  sy_sv :: "'a world server_impl"
  sy_files :: filesystem
  sy_work :: "nat \<rightharpoonup> session"
  sy_accepted :: "request list"
  sy_handled :: "(request \<times> session option) list"

definition worker_at :: "'s server_impl \<Rightarrow> nat \<Rightarrow> request worker option" where
  "worker_at sv i = (case sv_thread_pool sv of
       None \<Rightarrow> None
     | Some p \<Rightarrow> if i < length (tp_workers p) then Some (tp_workers p ! i) else None)"

definition has_task :: "'s server_impl \<Rightarrow> nat \<Rightarrow> bool" where
  "has_task sv i = (case worker_at sv i of Some (Got q) \<Rightarrow> True | Some (Running q) \<Rightarrow> True | _ \<Rightarrow> False)"

text \<open>What \<^verbatim>\<open>ServerLoop\<close> submits for the result of \<^verbatim>\<open>recvfrom\<close>.\<close>

definition accepted_by :: "recv_outcome \<Rightarrow> 's server_impl \<Rightarrow> request list" where
  "accepted_by r sv = (case r of
       Datagram client_addr bytes \<Rightarrow>
         (case sv_thread_pool sv of
            None \<Rightarrow> []
          | Some p \<Rightarrow> if take kMaxPacketSize bytes = [] \<or> IsShuttingDown p then []
              else [(take kMaxPacketSize bytes, client_addr)])
     | _ \<Rightarrow> [])"

datatype system_action =
    Sys_starts start_env | Sys_stops | Sys_receives recv_outcome | Sys_sets | Sys_pool "request action"
  | Sys_begins nat "byte list" | Sys_calls nat | Sys_gives_up nat | Sys_ends nat

text \<open>
  \<^verbatim>\<open>Stop\<close> returns when the workers have exited, which they do between two tasks. An upload whose
  transfer fails ends before its callback.
\<close>

inductive system_step :: "'a system \<Rightarrow> system_action \<Rightarrow> 'a system \<Rightarrow> bool" where
  sys_starts: "system_step y (Sys_starts env) (y\<lparr>sy_sv := snd (Start env (sy_sv y))\<rparr>)"
| sys_stops: "\<forall>i. \<not> has_task (sy_sv y) i \<Longrightarrow> system_step y Sys_stops (y\<lparr>sy_sv := Stop (sy_sv y)\<rparr>)"
| sys_receives: "server_step (sy_sv y) (Receives r) sv' \<Longrightarrow>
    system_step y (Sys_receives r) (y\<lparr>sy_sv := sv', sy_accepted := sy_accepted y @ accepted_by r (sy_sv y)\<rparr>)"
| sys_sets_size: "system_step y Sys_sets (y\<lparr>sy_sv := SetMaxTransferSize k (sy_sv y)\<rparr>)"
| sys_sets_timeout: "system_step y Sys_sets (y\<lparr>sy_sv := SetTimeout t (sy_sv y)\<rparr>)"
| sys_pool: "server_step (sy_sv y) (Pool_runs a) sv' \<Longrightarrow> \<forall>i. a = Works i \<longrightarrow> \<not> has_task (sy_sv y) i \<Longrightarrow>
    system_step y (Sys_pool a) (y\<lparr>sy_sv := sv'\<rparr>)"
| sys_begins: "worker_at (sy_sv y) i = Some (Got q) \<Longrightarrow> server_step (sy_sv y) (Pool_runs (Works i)) sv' \<Longrightarrow>
    system_step y (Sys_begins i data) (y\<lparr>sy_sv := sv', sy_work := (sy_work y)(i := session_of data q)\<rparr>)"
| sys_calls: "sy_work y i = Some s \<Longrightarrow> session_step (sy_sv y) (sy_files y) s = Some (s', fs') \<Longrightarrow>
    system_step y (Sys_calls i) (y\<lparr>sy_files := fs', sy_work := (sy_work y)(i \<mapsto> s')\<rparr>)"
| sys_gives_up: "sy_work y i = Some (W_exists path data) \<Longrightarrow>
    system_step y (Sys_gives_up i) (y\<lparr>sy_work := (sy_work y)(i := None)\<rparr>)"
| sys_ends: "worker_at (sy_sv y) i = Some (Running q) \<Longrightarrow>
    \<forall>s. sy_work y i = Some s \<longrightarrow> session_step (sy_sv y) (sy_files y) s = None \<Longrightarrow>
    server_step (sy_sv y) (Pool_runs (Works i)) sv' \<Longrightarrow>
    system_step y (Sys_ends i) (y\<lparr>sy_sv := sv', sy_work := (sy_work y)(i := None),
      sy_handled := sy_handled y @ [(q, sy_work y i)]\<rparr>)"

inductive_cases system_stepE [elim]: "system_step y a y'"

definition system_init :: "string \<Rightarrow> location \<Rightarrow> filesystem \<Rightarrow> 'a system \<Rightarrow> bool" where
  "system_init root r fs0 y = (server_init (sy_sv y) \<and> sv_root_dir (sy_sv y) = root \<and> NUL \<notin> set root \<and>
     root_at fs0 root r \<and> no_links_below fs0 r \<and> sy_files y = fs0 \<and> sy_work y = Map.empty \<and>
     sy_accepted y = [] \<and> sy_handled y = [])"

subsection \<open>Requests that are pending\<close>

definition pending :: "'s server_impl \<Rightarrow> request multiset" where
  "pending sv = (case sv_thread_pool sv of
       None \<Rightarrow> {#}
     | Some p \<Rightarrow> mset (concat (map in_flight (tp_workers p))) + mset (tp_tasks p))"

lemma pending_submitted:
  assumes "server_inv sv" and "sv_thread_pool sv = Some p"
  shows "tp_finished p + pending sv = mset (tp_submitted p)"
proof -
  have "inv_tasks p" "tp_dropped p = []"
    using assms by (auto simp: server_inv_def pool_inv_def inv_tasks_def inv_phase_def split: if_splits)
  then show ?thesis
    using assms(2) by (simp add: pending_def inv_tasks_def)
qed

text \<open>The steps of a pool that is up.\<close>

lemma pool_step_task:
  assumes "pool_step p a p'" and "a = Notifies_one \<or> (\<exists>i. a = Works i \<or> a = Spurious i)"
  shows "length (tp_workers p') = length (tp_workers p)" and "tp_submitted p' = tp_submitted p"
    and "tp_finished p' = tp_finished p + (case a of
       Works i \<Rightarrow> (case tp_workers p ! i of Running t \<Rightarrow> {#t#} | _ \<Rightarrow> {#}) | _ \<Rightarrow> {#})"
    and "tp_workers p ! j = Running t \<Longrightarrow> a \<noteq> Works j \<Longrightarrow> tp_workers p' ! j = Running t"
  using assms
  by (auto elim!: pool_step.cases simp: set_worker_def worker_step_def nth_list_update
      split: worker.splits if_splits list.splits)

lemma pool_runs_cases:
  assumes "server_step sv (Pool_runs a) sv'"
  obtains p p' where "sv_thread_pool sv = Some p" "pool_step p a p'" "sv' = sv\<lparr>sv_thread_pool := Some p'\<rparr>"
    "a = Notifies_one \<or> (\<exists>i. a = Works i \<or> a = Spurious i)"
  using assms by cases auto

definition finishes :: "'s server_impl \<Rightarrow> request action \<Rightarrow> request multiset" where
  "finishes sv a = (case a of
       Works i \<Rightarrow> (case worker_at sv i of Some (Running q) \<Rightarrow> {#q#} | _ \<Rightarrow> {#})
     | _ \<Rightarrow> {#})"

lemma pool_runs_pending:
  fixes sv :: "'a world server_impl"
  assumes "server_inv sv" and "server_step sv (Pool_runs a) sv'"
  shows "pending sv = finishes sv a + pending sv'"
proof -
  obtain p p' where p: "sv_thread_pool sv = Some p" "pool_step p a p'" "sv' = sv\<lparr>sv_thread_pool := Some p'\<rparr>"
    and a: "a = Notifies_one \<or> (\<exists>i. a = Works i \<or> a = Spurious i)"
    by (rule pool_runs_cases [OF assms(2)])
  have "i < length (tp_workers p)" if "a = Works i" for i
    using p(2) that by cases auto
  then have "tp_finished p' = tp_finished p + finishes sv a"
    using pool_step_task(3) [OF p(2) a] p(1) by (auto simp: finishes_def worker_at_def split: action.splits worker.splits)
  moreover have "tp_finished p' + pending sv' = mset (tp_submitted p)"
    using pending_submitted [OF server.inv_step [OF assms], of p'] pool_step_task(2) [OF p(2) a] p(3) by simp
  ultimately have "tp_finished p + (finishes sv a + pending sv') = tp_finished p + pending sv"
    using pending_submitted [OF assms(1) p(1)] by (simp add: add.assoc)
  then show ?thesis
    by simp
qed

lemma pool_runs_worker:
  assumes "server_step sv (Pool_runs a) sv'"
  shows "worker_at sv j = Some (Running q) \<Longrightarrow> a \<noteq> Works j \<Longrightarrow> worker_at sv' j = Some (Running q)"
    and "a = Works j \<Longrightarrow> worker_at sv j = Some (Got q) \<Longrightarrow> worker_at sv' j = Some (Running q)"
proof -
  obtain p p' where p: "sv_thread_pool sv = Some p" "pool_step p a p'" "sv' = sv\<lparr>sv_thread_pool := Some p'\<rparr>"
    and a: "a = Notifies_one \<or> (\<exists>i. a = Works i \<or> a = Spurious i)"
    by (rule pool_runs_cases [OF assms])
  show "worker_at sv' j = Some (Running q)" if "worker_at sv j = Some (Running q)" "a \<noteq> Works j"
    using that p(1,3) pool_step_task(1,4) [OF p(2) a] by (auto simp: worker_at_def split: if_splits)
  show "worker_at sv' j = Some (Running q)" if "a = Works j" "worker_at sv j = Some (Got q)"
    using p(2) that p(1,3) by cases (auto simp: worker_at_def worker_step_def set_worker_def split: if_splits)
qed

text \<open>The other steps of the server.\<close>

lemma receives_eq: "server_step sv (Receives r) sv' \<Longrightarrow> sv' = loop_iteration r sv"
  by (erule server_step.cases) auto

lemma receives_pending:
  assumes "server_step sv (Receives r) sv'"
  shows "pending sv' = pending sv + mset (accepted_by r sv)" and "worker_at sv' = worker_at sv"
  unfolding receives_eq [OF assms]
  by (auto simp: loop_iteration_def pending_def accepted_by_def worker_at_def Submit_def IsShuttingDown_def Let_def fun_eq_iff
      split: recv_outcome.splits option.splits)

lemma Start_pending:
  assumes "server_inv sv"
  shows "pending (snd (Start env sv)) = pending sv" and "worker_at sv i = Some w \<Longrightarrow> worker_at (snd (Start env sv)) i = Some w"
  using assms
  by (auto simp: Start_def Let_def pending_def worker_at_def server_inv_def new_pool_def split: option.splits)

lemma Stop_pending: "pending (Stop sv) \<subseteq># pending sv"
  by (simp add: Stop_def pending_def)

lemma setters_keep [simp]:
  "pending (SetMaxTransferSize k sv) = pending sv" "worker_at (SetMaxTransferSize k sv) = worker_at sv"
  "pending (SetTimeout t sv) = pending sv" "worker_at (SetTimeout t sv) = worker_at sv"
  by (simp_all add: SetMaxTransferSize_def SetTimeout_def pending_def worker_at_def fun_eq_iff)

text \<open>No step of the system but a new object changes the root directory or the secure mode.\<close>

definition same_guard :: "'s server_impl \<Rightarrow> 's server_impl \<Rightarrow> bool" where
  "same_guard sv sv' = (sv_root_dir sv' = sv_root_dir sv \<and> sv_secure_mode sv' = sv_secure_mode sv)"

lemma same_guard_steps:
  "same_guard sv sv" "same_guard sv (snd (Start env sv))" "same_guard sv (Stop sv)"
  "same_guard sv (SetMaxTransferSize k sv)" "same_guard sv (SetTimeout t sv)"
  "server_step sv (Receives r) sv' \<Longrightarrow> same_guard sv sv'" "server_step sv (Pool_runs a) sv' \<Longrightarrow> same_guard sv sv'"
  by (auto dest!: receives_eq elim!: pool_runs_cases simp: same_guard_def Start_def Stop_def SetMaxTransferSize_def SetTimeout_def loop_iteration_def Let_def
      split: recv_outcome.splits option.splits if_splits)

subsection \<open>The invariant\<close>

definition files_ok :: "string \<Rightarrow> location \<Rightarrow> filesystem \<Rightarrow> filesystem \<Rightarrow> bool" where
  "files_ok root r fs0 fs = (NUL \<notin> set root \<and> root_at fs root r \<and> no_links_below fs r \<and> changes_below r fs0 fs)"

definition guard_ok :: "string \<Rightarrow> 's server_impl \<Rightarrow> bool" where
  "guard_ok root sv = (server_inv sv \<and> sv_secure_mode sv \<and> sv_root_dir sv = root)"

definition work_ok :: "location \<Rightarrow> filesystem \<Rightarrow> 's server_impl \<Rightarrow> (nat \<rightharpoonup> session) \<Rightarrow> bool" where
  "work_ok r fs sv work = (\<forall>i s. work i = Some s \<longrightarrow> session_ok r fs s \<and> (\<exists>q. worker_at sv i = Some (Running q)))"

definition system_inv :: "string \<Rightarrow> location \<Rightarrow> filesystem \<Rightarrow> 'a system \<Rightarrow> bool" where
  "system_inv root r fs0 y = (guard_ok root (sy_sv y) \<and> files_ok root r fs0 (sy_files y) \<and>
     work_ok r (sy_files y) (sy_sv y) (sy_work y) \<and>
     mset (map fst (sy_handled y)) + pending (sy_sv y) \<subseteq># mset (sy_accepted y))"

lemma guard_ok_step:
  fixes sv :: "'a world server_impl"
  assumes "guard_ok root sv" and "server_step sv a sv'" and "same_guard sv sv'"
  shows "guard_ok root sv'"
  using assms server.inv_step [OF _ assms(2)] by (simp add: guard_ok_def same_guard_def)

lemma work_ok_workers:
  assumes "work_ok r fs sv work" and "\<And>i q. worker_at sv i = Some (Running q) \<Longrightarrow> work i \<noteq> None \<Longrightarrow> worker_at sv' i = Some (Running q)"
  shows "work_ok r fs sv' work"
  using assms unfolding work_ok_def by (metis option.distinct(1))

lemma work_ok_update:
  assumes "work_ok r fs sv work"
    and "\<And>j q. j \<noteq> i \<Longrightarrow> worker_at sv j = Some (Running q) \<Longrightarrow> worker_at sv' j = Some (Running q)"
    and "\<And>s. x = Some s \<Longrightarrow> session_ok r fs s \<and> (\<exists>q. worker_at sv' i = Some (Running q))"
  shows "work_ok r fs sv' (work(i := x))"
  unfolding work_ok_def
proof (intro allI impI)
  fix j s
  assume "(work(i := x)) j = Some s"
  then show "session_ok r fs s \<and> (\<exists>q. worker_at sv' j = Some (Running q))"
    using assms unfolding work_ok_def by (cases "j = i") (simp, metis fun_upd_other)
qed

lemma running_has_task: "worker_at sv i = Some (Running q) \<Longrightarrow> has_task sv i"
  by (simp add: has_task_def)

lemma session_of_ok: "session_of data q = Some s \<Longrightarrow> session_ok r fs s"
  by (auto simp: session_of_def session_ok_def split: prod.splits bool.splits if_splits)

lemma files_ok_call:
  assumes "guard_ok root sv" and "files_ok root r fs0 fs" and "work_ok r fs sv work"
    and "work i = Some s" and "session_step sv fs s = Some (s', fs')"
  shows "files_ok root r fs0 fs' \<and> work_ok r fs' sv (work(i \<mapsto> s'))"
proof -
  have old: "sv_secure_mode sv" "NUL \<notin> set (sv_root_dir sv)" "root_at fs (sv_root_dir sv) r" "no_links_below fs r"
    and root: "sv_root_dir sv = root"
    using assms(1,2) by (simp_all add: guard_ok_def files_ok_def)
  have "session_ok r fs s"
    using assms(3,4) by (auto simp: work_ok_def)
  from session_step_ok [OF old this assms(5)]
  have keeps: "keeps_names fs fs'" "changes_below r fs fs'" "fs_ok fs'" "no_links_below fs' r" and new: "session_ok r fs' s'"
    using old(3,4) by (auto simp: step_keeps_def root_at_def)
  have "work_ok r fs' sv (work(i \<mapsto> s'))"
    using assms(3,4) new session_ok_keeps [OF _ keeps(1)] by (auto simp: work_ok_def)
  then show ?thesis
    using assms(2) keeps root_at_keeps [OF old(3) keeps(1,3)] changes_below_trans [of r fs0 fs fs'] root
    by (auto simp: files_ok_def)
qed

lemma system_inv_server:
  fixes y y' :: "'a system"
  assumes "system_inv root r fs0 y" and "server_step (sy_sv y) b (sy_sv y')" and "same_guard (sy_sv y) (sy_sv y')"
    and "sy_files y' = sy_files y" and "work_ok r (sy_files y) (sy_sv y') (sy_work y')"
    and "mset (map fst (sy_handled y')) + pending (sy_sv y') \<subseteq># mset (sy_accepted y')"
  shows "system_inv root r fs0 y'"
  using assms guard_ok_step [OF _ assms(2,3), of root] by (simp add: system_inv_def)

lemma system_invD:
  assumes "system_inv root r fs0 y"
  shows "server_inv (sy_sv y)" and "work_ok r (sy_files y) (sy_sv y) (sy_work y)"
    and "mset (map fst (sy_handled y)) + pending (sy_sv y) \<subseteq># mset (sy_accepted y)"
  using assms by (simp_all add: system_inv_def guard_ok_def)

lemma starts_inv:
  assumes "system_inv root r fs0 y"
  shows "system_inv root r fs0 (y\<lparr>sy_sv := snd (Start env (sy_sv y))\<rparr>)"
proof -
  note inv = system_invD [OF assms]
  have "work_ok r (sy_files y) (snd (Start env (sy_sv y))) (sy_work y)"
    by (rule work_ok_workers [OF inv(2)]) (rule Start_pending(2) [OF inv(1)])
  then show ?thesis
    by (intro system_inv_server [OF assms, of "Starts env"])
      (use inv(3) in \<open>simp_all add: starts same_guard_steps Start_pending(1) [OF inv(1)]\<close>)
qed

lemma stops_inv:
  assumes "system_inv root r fs0 y" and "\<forall>i. \<not> has_task (sy_sv y) i"
  shows "system_inv root r fs0 (y\<lparr>sy_sv := Stop (sy_sv y)\<rparr>)"
proof -
  note inv = system_invD [OF assms(1)]
  have "sy_work y i = None" for i
    using inv(2) assms(2) running_has_task unfolding work_ok_def by (metis not_Some_eq)
  then have "work_ok r (sy_files y) (Stop (sy_sv y)) (sy_work y)"
    by (simp add: work_ok_def)
  moreover have "mset (map fst (sy_handled y)) + pending (Stop (sy_sv y)) \<subseteq># mset (sy_accepted y)"
    using inv(3) Stop_pending by (meson mset_subset_eq_mono_add_left_cancel subset_mset.order_trans)
  ultimately show ?thesis
    by (intro system_inv_server [OF assms(1), of Stops]) (simp_all add: stops same_guard_steps)
qed

lemma receives_inv:
  assumes "system_inv root r fs0 y" and "server_step (sy_sv y) (Receives ro) sv'"
  shows "system_inv root r fs0 (y\<lparr>sy_sv := sv', sy_accepted := sy_accepted y @ accepted_by ro (sy_sv y)\<rparr>)"
  by (rule system_inv_server [OF assms(1), of "Receives ro"])
    (use system_invD [OF assms(1)] receives_pending [OF assms(2)] assms(2) in
      \<open>simp_all add: work_ok_def same_guard_steps(6)\<close>)

lemma pool_runs_inv:
  fixes y :: "'a system"
  assumes "system_inv root r fs0 y" and "server_step (sy_sv y) (Pool_runs a) sv'"
    and "work_ok r (sy_files y) sv' work" and "mset done = finishes (sy_sv y) a"
  shows "system_inv root r fs0 (y\<lparr>sy_sv := sv', sy_work := work, sy_handled := sy_handled y @ map (\<lambda>q. (q, f q)) done\<rparr>)"
proof -
  note inv = system_invD [OF assms(1)]
  have "mset (map fst (sy_handled y @ map (\<lambda>q. (q, f q)) done)) + pending sv' = mset (map fst (sy_handled y)) + pending (sy_sv y)"
    using pool_runs_pending [OF inv(1) assms(2)] assms(4) by (simp add: comp_def)
  then show ?thesis
    by (intro system_inv_server [OF assms(1), of "Pool_runs a"])
      (use inv(3) assms(2,3) in \<open>simp_all add: same_guard_steps(7) comp_def add.assoc\<close>)
qed

lemma pool_only_inv:
  assumes "system_inv root r fs0 y" and "server_step (sy_sv y) (Pool_runs a) sv'"
    and "\<forall>i. a = Works i \<longrightarrow> \<not> has_task (sy_sv y) i"
  shows "system_inv root r fs0 (y\<lparr>sy_sv := sv'\<rparr>)"
proof -
  have "work_ok r (sy_files y) sv' (sy_work y)"
    by (rule work_ok_workers [OF system_invD(2) [OF assms(1)]], rule pool_runs_worker(1) [OF assms(2)])
      (use assms(3) in \<open>auto simp: has_task_def\<close>)
  moreover have "finishes (sy_sv y) a = {#}"
    using assms(3) running_has_task [of "sy_sv y"] by (auto simp: finishes_def split: action.splits option.splits worker.splits)
  ultimately show ?thesis
    by (intro system_inv_server [OF assms(1), of "Pool_runs a"])
      (use system_invD [OF assms(1)] pool_runs_pending [OF _ assms(2)] assms(2) in \<open>simp_all add: same_guard_steps(7)\<close>)
qed

lemma begins_inv:
  assumes "system_inv root r fs0 y" and "worker_at (sy_sv y) i = Some (Got q)"
    and "server_step (sy_sv y) (Pool_runs (Works i)) sv'"
  shows "system_inv root r fs0 (y\<lparr>sy_sv := sv', sy_work := (sy_work y)(i := session_of data q)\<rparr>)"
proof -
  have "work_ok r (sy_files y) sv' ((sy_work y)(i := session_of data q))"
    by (rule work_ok_update [OF system_invD(2) [OF assms(1)]])
      (use pool_runs_worker [OF assms(3)] assms(2) session_of_ok in blast)+
  then show ?thesis
    using pool_runs_inv [OF assms(1,3), of _ "[]"] assms(2) by (simp add: finishes_def)
qed

lemma ends_inv:
  assumes "system_inv root r fs0 y" and "worker_at (sy_sv y) i = Some (Running q)"
    and "server_step (sy_sv y) (Pool_runs (Works i)) sv'"
  shows "system_inv root r fs0 (y\<lparr>sy_sv := sv', sy_work := (sy_work y)(i := None), sy_handled := sy_handled y @ [(q, s)]\<rparr>)"
proof -
  have "work_ok r (sy_files y) sv' ((sy_work y)(i := None))"
    by (rule work_ok_update [OF system_invD(2) [OF assms(1)]]) (use pool_runs_worker(1) [OF assms(3)] in auto)
  then show ?thesis
    using pool_runs_inv [OF assms(1,3), of _ "[q]" "\<lambda>_. s"] assms(2) by (simp add: finishes_def)
qed

lemma system_step_inv:
  fixes y :: "'a system"
  assumes "system_inv root r fs0 y" and "system_step y a y'"
  shows "system_inv root r fs0 y'"
  using assms(2)
proof cases
  case (sys_sets_size k)
  then show ?thesis
    by (intro system_inv_server [OF assms(1), of Configures])
      (use system_invD [OF assms(1)] in \<open>simp_all add: work_ok_def same_guard_steps sets_size\<close>)
next
  case (sys_sets_timeout t)
  then show ?thesis
    by (intro system_inv_server [OF assms(1), of Configures])
      (use system_invD [OF assms(1)] in \<open>simp_all add: work_ok_def same_guard_steps sets_timeout\<close>)
next
  case (sys_calls i s s' fs')
  then show ?thesis
    using files_ok_call [of root "sy_sv y" r fs0 "sy_files y" "sy_work y" i s s' fs'] assms(1) by (simp add: system_inv_def)
next
  case (sys_gives_up i path data)
  then show ?thesis
    using assms(1) by (auto simp: system_inv_def work_ok_def)
qed (simp_all add: assms(1) starts_inv stops_inv receives_inv pool_only_inv begins_inv ends_inv)

interpretation system: invariant_system "system_init root r fs0" system_step "system_inv root r fs0" for root r fs0
proof
  show "system_inv root r fs0 y" if "system_init root r fs0 y" for y :: "'a system"
    using that server.inv_init [of "sy_sv y"]
    by (auto simp: system_init_def system_inv_def guard_ok_def files_ok_def work_ok_def server_init_def new_server_impl_def pending_def)
qed (rule system_step_inv)

text \<open>Seen from outside, the system makes steps of the server.\<close>

interpretation system_server: refinement "system_init root r fs0" system_step "system_inv root r fs0" server_init server_step sy_sv
  for root r fs0
proof
  show "server_init (sy_sv y)" if "system_init root r fs0 y" for y :: "'a system"
    using that by (simp add: system_init_def)
  show "sy_sv y' = sy_sv y \<or> (\<exists>b. server_step (sy_sv y) b (sy_sv y'))" if "system_step y a y'" for y y' :: "'a system" and a
    using that by cases (auto intro: server_step.intros)
qed

subsection \<open>Properties\<close>

lemma worker_bound:
  assumes "server_inv sv" and "worker_at sv i = Some w"
  shows "i < 64"
  using assms
  by (auto simp: server_inv_def worker_at_def pool_inv_def inv_count_def split: option.splits if_splits)

lemma work_bounded:
  assumes "server_inv sv" and "work_ok r fs sv work"
  shows "finite (dom work) \<and> card (dom work) \<le> 64"
proof -
  have "dom work \<subseteq> {..<64}"
    using assms worker_bound unfolding work_ok_def by blast
  then show ?thesis
    using card_mono [of "{..<64}" "dom work"] by (simp add: finite_subset)
qed

text \<open>
  C2. The whole server, from its construction on, in secure mode and with the default handlers:
  whatever datagrams arrive, whenever it is started, stopped and given other limits, and however the
  server thread and the calls of the workers are interleaved, nothing outside the root directory
  changes and no file outside of it is opened, provided that the root existed and held no links. The
  requests that were handled or are being handled are requests that were received, none of them
  more often than it was received; at most 64 sessions are open; and the server itself goes through its life cycle.
\<close>

theorem system_confined:
  assumes "reach (system_init root r fs0) system_step y"
  shows "(\<forall>loc. fs_lookup (sy_files y) loc \<noteq> fs_lookup fs0 loc \<longrightarrow> prefix r loc) \<and>
    (\<forall>i s loc. sy_work y i = Some s \<and> opened_location s = Some loc \<longrightarrow> prefix r loc) \<and>
    mset (map fst (sy_handled y)) + pending (sy_sv y) \<subseteq># mset (sy_accepted y) \<and>
    finite (dom (sy_work y)) \<and> card (dom (sy_work y)) \<le> 64 \<and>
    reach server_init server_step (sy_sv y)"
proof -
  have inv: "system_inv root r fs0 y"
    by (rule system.reach_inv [OF assms])
  then have "\<forall>loc. fs_lookup (sy_files y) loc \<noteq> fs_lookup fs0 loc \<longrightarrow> prefix r loc"
    "work_ok r (sy_files y) (sy_sv y) (sy_work y)" "server_inv (sy_sv y)"
    "mset (map fst (sy_handled y)) + pending (sy_sv y) \<subseteq># mset (sy_accepted y)"
    by (simp_all add: system_inv_def guard_ok_def files_ok_def changes_below_def)
  moreover have "\<forall>i s loc. sy_work y i = Some s \<and> opened_location s = Some loc \<longrightarrow> prefix r loc"
    using calculation(2) session_ok_opened unfolding work_ok_def by blast
  ultimately show ?thesis
    using system_server.reach_view [OF assms] work_bounded by blast
qed

definition system_example :: "unit system" where
  "system_example = \<lparr>sy_sv = server_example, sy_files = fs_plain, sy_work = Map.empty, sy_accepted = [], sy_handled = []\<rparr>"

abbreviation example_reach :: "unit system \<Rightarrow> bool" where
  "example_reach \<equiv> reach (system_init ''/srv/tftp/'' [''srv'', ''tftp''] fs_plain) system_step"

lemma system_example_reach: "example_reach system_example"
proof (rule reach_init)
  have "root_at fs_plain ''/srv/tftp/'' [''srv'', ''tftp'']" "NUL \<notin> set ''/srv/tftp/''" "sv_root_dir server_example = ''/srv/tftp/''"
    by code_simp+
  moreover have "no_links_below fs_plain [''srv'', ''tftp'']"
    by (auto simp: no_links_below_def fs_lookup_def fs_plain_def)
  moreover have "server_init server_example"
    by (auto simp: server_init_def server_example_def)
  ultimately show "system_init ''/srv/tftp/'' [''srv'', ''tftp''] fs_plain system_example"
    by (simp add: system_init_def system_example_def)
qed

text \<open>The server of the example after it was started and has received a request.\<close>

abbreviation example_request :: request where
  "example_request \<equiv> (rrq_bytes ''log'', client)"

definition system_received :: "unit system" where
  "system_received = system_example\<lparr>
     sy_sv := loop_iteration (Datagram client (rrq_bytes ''log'')) (snd (Start start_ok server_example)),
     sy_accepted := [example_request]\<rparr>"

lemma system_received_reach: "example_reach system_received" "pending (sy_sv system_received) = {#example_request#}"
proof -
  let ?sv = "snd (Start start_ok server_example)" and ?dg = "Datagram client (rrq_bytes ''log'')"
  have acc: "accepted_by ?dg ?sv = [example_request]"
    by code_simp
  have rec: "server_step ?sv (Receives ?dg) (loop_iteration ?dg ?sv)"
    by (rule receives) code_simp+
  have "example_reach (system_example\<lparr>sy_sv := ?sv\<rparr>)"
    using reach_step [where step = system_step, OF system_example_reach sys_starts [of _ start_ok]]
    by (simp add: system_example_def)
  then show "example_reach system_received"
    using reach_step [where step = system_step, OF _ sys_receives [of "system_example\<lparr>sy_sv := ?sv\<rparr>"]] rec acc
    by (fastforce simp: system_received_def system_example_def)
  have "server_inv server_example" "pending server_example = {#}"
    using server.inv_init [of server_example] by (auto simp: server_init_def server_example_def new_server_impl_def pending_def)
  then show "pending (sy_sv system_received) = {#example_request#}"
    using receives_pending(1) [OF rec] Start_pending(1) [of server_example start_ok] acc by (simp add: system_received_def)
qed

theorem system_confined_witness:
  "example_reach system_received \<and> reach server_init server_step (sy_sv system_received) \<and>
   mset (map fst (sy_handled system_received)) + {#example_request#} \<subseteq># mset [example_request]"
  using system_confined [OF system_received_reach(1)] system_received_reach
  by (auto simp: system_received_def)

end
