(* ===== verification/Tftp_System_Progress.thy ===== *)
theory Tftp_System_Progress
  imports Tftp_System Tftp_Pool_Effort
begin

section \<open>Every request is handled\<close>

text \<open>
  The threads of the system of \<^verbatim>\<open>Tftp_System\<close>, left to themselves: a measure of the steps that they can
  make, and a step that one of them can make as long as a request is pending.
\<close>

text \<open>The steps that the threads of the server make by themselves, other than spurious wake-ups.\<close>

fun own_step :: "system_action \<Rightarrow> bool" where
  "own_step (Sys_pool a) = (\<forall>i. a \<noteq> Spurious i)"
| "own_step (Sys_begins i data) = True"
| "own_step (Sys_calls i) = True"
| "own_step (Sys_gives_up i) = True"
| "own_step (Sys_ends i) = True"
| "own_step _ = False"

subsection \<open>Progress\<close>

text \<open>A step of a worker in the pool is one of the system, or the session of the worker goes on first.\<close>

lemma works_system:
  assumes "sv_thread_pool (sy_sv y) = Some p" and "pool_step p (Works i) p'"
  shows "\<exists>a y'. own_step a \<and> system_step y a y'"
proof -
  have i: "i < length (tp_workers p)"
    using assms(2) by cases auto
  have run: "server_step (sy_sv y) (Pool_runs (Works i)) ((sy_sv y)\<lparr>sv_thread_pool := Some p'\<rparr>)"
    using assms by (intro pool_runs) auto
  have at: "worker_at (sy_sv y) i = Some (tp_workers p ! i)"
    using assms(1) i by (simp add: worker_at_def)
  have idle: ?thesis if "\<not> has_task (sy_sv y) i"
    using sys_pool [OF run] that by (intro exI [of _ "Sys_pool (Works i)"]) auto
  show ?thesis
  proof (cases "tp_workers p ! i")
    case (Got q)
    then show ?thesis
      using sys_begins [OF _ run, of q "[]"] at by (intro exI [of _ "Sys_begins i []"]) auto
  next
    case (Running q)
    show ?thesis
    proof (cases "\<exists>s x. sy_work y i = Some s \<and> session_step (sy_sv y) (sy_files y) s = Some x")
      case True
      then show ?thesis
        using sys_calls [of y i] by (intro exI [of _ "Sys_calls i"]) auto
    next
      case False
      then have "\<forall>s. sy_work y i = Some s \<longrightarrow> session_step (sy_sv y) (sy_files y) s = None"
        by (metis not_None_eq)
      then show ?thesis
        using sys_ends [OF _ _ run, of q] at Running by (intro exI [of _ "Sys_ends i"]) auto
    qed
  qed (use idle at in \<open>auto simp: has_task_def\<close>)
qed

lemma in_flight_awake: "in_flight w \<noteq> [] \<Longrightarrow> awake w"
  by (cases w) auto

lemma pending_progress:
  assumes "server_inv (sy_sv y)" and "pending (sy_sv y) \<noteq> {#}"
  shows "\<exists>a y'. own_step a \<and> system_step y a y'"
proof -
  obtain p where p: "sv_thread_pool (sy_sv y) = Some p" "pool_inv p" "\<not> tp_stopping p"
    using assms by (auto simp: server_inv_def pending_def split: option.splits)
  show ?thesis
  proof (cases "tp_tasks p = []")
    case True
    then obtain w where "w \<in> set (tp_workers p)" "in_flight w \<noteq> []"
      using assms(2) p(1) by (auto simp: pending_def)
    then show ?thesis
      using worker_enabled [OF p(2)] in_flight_awake works_system [OF p(1)] by blast
  next
    case False
    from queued_task_progress [OF p(2,3) this]
    consider p' where "pool_step p Notifies_one p'" | i p' where "pool_step p (Works i) p'"
      by blast
    then show ?thesis
    proof cases
      case 1
      then have "server_step (sy_sv y) (Pool_runs Notifies_one) ((sy_sv y)\<lparr>sv_thread_pool := Some p'\<rparr>)"
        using p(1) by (intro pool_runs) auto
      then show ?thesis
        using sys_pool [of y Notifies_one] by (intro exI [of _ "Sys_pool Notifies_one"]) auto
    qed (rule works_system [OF p(1)])
  qed
qed

subsection \<open>Effort\<close>

fun session_rank :: "session \<Rightarrow> nat" where
  "session_rank (Received filename acc) = 7"
| "session_rank (Checked filename acc) = 6"
| "session_rank (W_exists path data) = 5"
| "session_rank (W_mkdir path data) = 4"
| "session_rank (W_open path data) = 3"
| "session_rank (W_write path loc data) = 2"
| "session_rank (W_verify path) = 1"
| "session_rank (R_open path) = 3"
| "session_rank (R_size loc) = 2"
| "session_rank (R_data loc n) = 1"
| "session_rank _ = 0"

definition work_rank :: "session option \<Rightarrow> nat" where
  "work_rank w = (case w of None \<Rightarrow> 0 | Some s \<Rightarrow> session_rank s)"

text \<open>There are at most 64 workers.\<close>

definition work_effort :: "(nat \<rightharpoonup> session) \<Rightarrow> nat" where
  "work_effort work = (\<Sum>i<64. work_rank (work i))"

definition server_effort :: "'s server_impl \<Rightarrow> nat" where
  "server_effort sv = (case sv_thread_pool sv of None \<Rightarrow> 0 | Some p \<Rightarrow> 4 * tp_notifies p + pool_effort p)"

definition system_effort :: "'a system \<Rightarrow> nat" where
  "system_effort y = 10 * server_effort (sy_sv y) + work_effort (sy_work y)"

lemma session_step_rank:
  assumes "session_step sv fs s = Some (s', fs')"
  shows "session_rank s' < session_rank s"
  using assms
  by (cases s) (auto simp: session_step_def Let_def split: if_splits sum.splits bool.splits prod.splits option.splits
      access.splits node.splits)

lemma session_rank_bound: "work_rank (session_of data q) \<le> 7"
  by (auto simp: work_rank_def session_of_def split: prod.splits bool.splits)

lemma work_effort_update:
  assumes "i < 64"
  shows "work_effort (work(i := w)) + work_rank (work i) = work_effort work + work_rank w"
proof -
  have "work_effort f = work_rank (f i) + (\<Sum>j \<in> {..<64} - {i}. work_rank (f j))" for f
    unfolding work_effort_def using assms by (intro sum.remove) auto
  then show ?thesis
    by simp
qed

definition pool_taking :: "'s server_impl \<Rightarrow> bool" where
  "pool_taking sv = (case sv_thread_pool sv of None \<Rightarrow> True | Some p \<Rightarrow> taking_ok p)"

lemma pool_runs_effort:
  assumes "pool_taking sv" and "server_step sv (Pool_runs a) sv'" and "\<forall>i. a \<noteq> Spurious i"
  shows "server_effort sv' < server_effort sv"
proof -
  obtain p p' where p: "sv_thread_pool sv = Some p" "pool_step p a p'" "sv' = sv\<lparr>sv_thread_pool := Some p'\<rparr>"
    and a: "a = Notifies_one \<or> (\<exists>i. a = Works i \<or> a = Spurious i)"
    by (rule pool_runs_cases [OF assms(2)])
  have take: "taking_ok p"
    using assms(1) p(1) by (simp add: pool_taking_def)
  have "4 * tp_notifies p' + pool_effort p' < 4 * tp_notifies p + pool_effort p"
  proof (cases "a = Notifies_one")
    case True
    then have "tp_notifies p = Suc (tp_notifies p')"
      using p(2) by cases (auto simp: set_worker_def)
    then show ?thesis
      using notify_effort p(2) True by fastforce
  next
    case False
    then obtain i where i: "a = Works i"
      using a assms(3) by blast
    then have "i < length (tp_workers p)" "worker_step i p = Some p'"
      using p(2) by (auto elim: pool_step.cases)
    moreover have "tp_notifies p' = tp_notifies p"
      using calculation(2) by (auto simp: worker_step_def set_worker_def split: worker.splits if_splits list.splits)
    ultimately show ?thesis
      using worker_effort [OF take] by simp
  qed
  then show ?thesis
    using p by (simp add: server_effort_def)
qed

interpretation server_taking: invariant_system server_init server_step "\<lambda>sv. server_inv sv \<and> pool_taking sv"
proof
  show "server_inv sv \<and> pool_taking sv" if "server_init sv" for sv :: "'a world server_impl"
    using that server.inv_init by (auto simp: pool_taking_def server_init_def new_server_impl_def)
  show "server_inv sv' \<and> pool_taking sv'" if inv: "server_inv sv \<and> pool_taking sv" and step: "server_step sv a sv'"
    for sv sv' :: "'a world server_impl" and a
  proof
    show "server_inv sv'"
      using server.inv_step inv step by blast
    show "pool_taking sv'"
      using step
    proof cases
      case (pool_runs p b p')
      then show ?thesis
        using inv taking_ok_step [of p b p'] by (auto simp: pool_taking_def server_inv_def)
    qed (use inv in \<open>auto simp: pool_taking_def taking_ok_def Start_def Stop_def new_pool_def loop_iteration_def Submit_def Let_def
        SetReadCallback_def SetWriteCallback_def SetSecureMode_def SetMaxTransferSize_def SetTimeout_def SetThreadPoolSize_def
        split: option.splits recv_outcome.splits\<close>)
  qed
qed

lemma taking_reachable:
  assumes "reach (system_init root r fs0) system_step y"
  shows "server_inv (sy_sv y)" and "pool_taking (sy_sv y)"
  using server_taking.reach_inv [OF system_server.reach_view [OF assms]] by simp_all

text \<open>A step of the threads by themselves makes the effort smaller and loses no request.\<close>

lemma own_step_effort:
  assumes "system_inv root r fs0 y" and "pool_taking (sy_sv y)" and "system_step y a y'" and "own_step a"
  shows "system_effort y' < system_effort y"
proof -
  have bound: "i < 64" if "worker_at (sy_sv y) i = Some w" for i w
    using worker_bound [OF system_invD(1) [OF assms(1)] that] .
  have work: "i < 64" if "sy_work y i = Some s" for i s
    using system_invD(2) [OF assms(1)] that bound unfolding work_ok_def by blast
  show ?thesis
    using assms(3)
  proof cases
    case (sys_pool b sv')
    then show ?thesis
      using pool_runs_effort [OF assms(2) sys_pool(3)] assms(4) by (simp add: system_effort_def)
  next
    case (sys_begins i q sv' data)
    then show ?thesis
      using pool_runs_effort [OF assms(2) sys_begins(4)] work_effort_update [OF bound [OF sys_begins(3)], of "sy_work y" "session_of data q"]
        session_rank_bound [of data q] by (simp add: system_effort_def)
  next
    case (sys_calls i s s' fs')
    then show ?thesis
      using session_step_rank [OF sys_calls(4)] work_effort_update [OF work [OF sys_calls(3)], of "sy_work y" "Some s'"]
      by (simp add: system_effort_def work_rank_def)
  next
    case (sys_gives_up i path data)
    then show ?thesis
      using work_effort_update [OF work [OF sys_gives_up(3)], of "sy_work y" None] by (simp add: system_effort_def work_rank_def)
  next
    case (sys_ends i q sv')
    then show ?thesis
      using pool_runs_effort [OF assms(2) sys_ends(5)] work_effort_update [OF bound [OF sys_ends(3)], of "sy_work y" None]
      by (simp add: system_effort_def work_rank_def)
  qed (use assms(4) in simp_all)
qed

lemma own_step_conserves:
  fixes y y' :: "'a system"
  assumes "server_inv (sy_sv y)" and "system_step y a y'" and "own_step a"
  shows "mset (map fst (sy_handled y')) + pending (sy_sv y') = mset (map fst (sy_handled y)) + pending (sy_sv y)"
  using assms(2)
proof cases
  case (sys_pool b sv')
  have "finishes (sy_sv y) b = {#}"
    using sys_pool(4) running_has_task [of "sy_sv y"] by (auto simp: finishes_def split: action.splits option.splits worker.splits)
  then show ?thesis
    using sys_pool pool_runs_pending [OF assms(1) sys_pool(3)] by simp
next
  case (sys_begins i q sv' data)
  then show ?thesis
    using pool_runs_pending [OF assms(1) sys_begins(4)] by (simp add: finishes_def)
next
  case (sys_ends i q sv')
  then show ?thesis
    using pool_runs_pending [OF assms(1) sys_ends(5)] by (simp add: finishes_def)
qed (use assms(3) in simp_all)

lemma own_run:
  assumes "run system_step y as y'" and "reach (system_init root r fs0) system_step y" and "list_all own_step as"
  shows "length as + system_effort y' \<le> system_effort y \<and>
    mset (map fst (sy_handled y')) + pending (sy_sv y') = mset (map fst (sy_handled y)) + pending (sy_sv y)"
  using assms
proof (induction rule: run.induct)
  case (run_cons y a y' as y'')
  have reach: "reach (system_init root r fs0) system_step y'"
    using reach_step run_cons.hyps(1) run_cons.prems(1) by metis
  have "system_effort y' < system_effort y"
    using own_step_effort [OF system.reach_inv [OF run_cons.prems(1)] taking_reachable(2) [OF run_cons.prems(1)] run_cons.hyps(1)]
      run_cons.prems(2) by simp
  moreover have "mset (map fst (sy_handled y')) + pending (sy_sv y') = mset (map fst (sy_handled y)) + pending (sy_sv y)"
    using own_step_conserves [OF taking_reachable(1) [OF run_cons.prems(1)] run_cons.hyps(1)] run_cons.prems(2) by simp
  ultimately show ?case
    using run_cons.IH [OF reach] run_cons.prems(2) by simp
qed simp

subsection \<open>Properties\<close>

text \<open>
  C3. Every request that was received is handled, if the server is left to itself: from every
  reachable state, its threads make a bounded number of steps, apart from spurious wake-ups; as long as a request is
  pending one of them can go on; and when nothing is pending any more, exactly the requests that were
  pending have been handled in addition, each once.
\<close>

theorem pending_requests_handled:
  assumes "reach (system_init root r fs0) system_step y" and "run system_step y as y'" and "list_all own_step as"
  shows "length as \<le> system_effort y \<and>
    (pending (sy_sv y') \<noteq> {#} \<longrightarrow> (\<exists>a y''. own_step a \<and> system_step y' a y'')) \<and>
    (pending (sy_sv y') = {#} \<longrightarrow> mset (map fst (sy_handled y')) = mset (map fst (sy_handled y)) + pending (sy_sv y))"
proof -
  have "server_inv (sy_sv y')"
    by (rule taking_reachable(1) [OF system.reach_run [OF assms(2,1)]])
  then show ?thesis
    using own_run [OF assms(2,1,3)] pending_progress [of y'] by auto
qed

theorem pending_requests_handled_witness:
  "example_reach system_received \<and> pending (sy_sv system_received) \<noteq> {#} \<and>
   (\<exists>a y'. own_step a \<and> system_step system_received a y')"
  using pending_requests_handled [OF system_received_reach(1) run_nil] system_received_reach by simp

end
