(* ===== verification/Tftp_Logger.thy ===== *)
theory Tftp_Logger
  imports Cpp_Std
begin

section \<open>The logger\<close>

text \<open>
  \<^verbatim>\<open>TftpLogger\<close> of \<^verbatim>\<open>include/tftp/tftp_logger.h\<close> and \<^verbatim>\<open>src/tftp_logger.cpp\<close>: the levels, the level a
  build starts with, the macros that are resolved by the preprocessor, and the filtering, the format
  and the destination of messages. The clock and the conversion to local time are parameters. The
  state holds the files and the error stream that the logger writes to; each member function that
  writes does so under the mutex and is one step.
\<close>

subsection \<open>Levels\<close>

datatype LogLevel = kLogTrace | kLogDebug | kLogInfo | kLogWarn | kLogError | kLogCritical

fun loglevel_value :: "LogLevel \<Rightarrow> int" where
  "loglevel_value kLogTrace = 0"
| "loglevel_value kLogDebug = 1"
| "loglevel_value kLogInfo = 2"
| "loglevel_value kLogWarn = 3"
| "loglevel_value kLogError = 4"
| "loglevel_value kLogCritical = 5"

lemma loglevel_value_inj [simp]: "loglevel_value a = loglevel_value b \<longleftrightarrow> a = b"
  by (cases a; cases b) simp_all

instantiation LogLevel :: linorder
begin

definition less_eq_LogLevel :: "LogLevel \<Rightarrow> LogLevel \<Rightarrow> bool" where
  "less_eq_LogLevel a b = (loglevel_value a \<le> loglevel_value b)"

definition less_LogLevel :: "LogLevel \<Rightarrow> LogLevel \<Rightarrow> bool" where
  "less_LogLevel a b = (loglevel_value a < loglevel_value b)"

instance
  by standard (auto simp: less_eq_LogLevel_def less_LogLevel_def)

end

text \<open>
  The macros a build may define. A level may be given as one of the enumerators or as a number, as
  the option \<^verbatim>\<open>TFTP_CUSTOM_LOG_LEVEL\<close> of the build file passes it on.
\<close>

datatype level_text = Enumerator LogLevel | Number int

record build_flags =
  bf_log_level :: "level_text option"
  bf_minimal_logging :: bool
  bf_ndebug :: bool
  bf_production :: bool
  bf_debug :: bool

definition TFTP_LOG_LEVEL :: "build_flags \<Rightarrow> level_text" where
  "TFTP_LOG_LEVEL b = (case bf_log_level b of
       Some l \<Rightarrow> l
     | None \<Rightarrow>
         if bf_minimal_logging b then Enumerator kLogError
         else if bf_ndebug b \<or> bf_production b then Enumerator kLogWarn
         else if bf_debug b then Enumerator kLogDebug
         else Enumerator kLogInfo)"

text \<open>
  The value of a level in the program, and in a directive \<^verbatim>\<open>#if\<close>, where an identifier that is no
  macro, as an enumerator is, counts as 0.
\<close>

fun level_value :: "level_text \<Rightarrow> int" where
  "level_value (Enumerator l) = loglevel_value l"
| "level_value (Number n) = n"

fun pp_value :: "level_text \<Rightarrow> int" where
  "pp_value (Enumerator l) = 0"
| "pp_value (Number n) = n"

definition TFTP_LOG_ENABLED :: "build_flags \<Rightarrow> LogLevel \<Rightarrow> bool" where
  "TFTP_LOG_ENABLED b l = (loglevel_value l \<ge> level_value (TFTP_LOG_LEVEL b))"

definition macro_defined :: "build_flags \<Rightarrow> LogLevel \<Rightarrow> bool" where
  "macro_defined b l = (pp_value (Enumerator l) \<ge> pp_value (TFTP_LOG_LEVEL b))"

subsection \<open>Lines\<close>

record tm =
  tm_year :: nat
  tm_mon :: nat
  tm_mday :: nat
  tm_hour :: nat
  tm_min :: nat
  tm_sec :: nat

text \<open>A number padded with zeros to a width, as \<^verbatim>\<open>setfill\<close> and \<^verbatim>\<open>setw\<close> or \<^verbatim>\<open>put_time\<close> do.\<close>

definition padded :: "nat \<Rightarrow> nat \<Rightarrow> string" where
  "padded w n = replicate (w - length (show_nat n)) (CHR ''0'') @ show_nat n"

text \<open>\<^verbatim>\<open>put_time\<close> with the format \<^verbatim>\<open>%Y-%m-%d %H:%M:%S\<close>; the year counts from 1900, the month from 0.\<close>

definition put_time :: "tm \<Rightarrow> string" where
  "put_time t = show_nat (1900 + tm_year t) @ ''-'' @ padded 2 (tm_mon t + 1) @ ''-'' @ padded 2 (tm_mday t)
     @ '' '' @ padded 2 (tm_hour t) @ '':'' @ padded 2 (tm_min t) @ '':'' @ padded 2 (tm_sec t)"

definition level_str :: "int \<Rightarrow> string" where
  "level_str level =
     (if level = loglevel_value kLogTrace then ''TRACE''
      else if level = loglevel_value kLogDebug then ''DEBUG''
      else if level = loglevel_value kLogInfo then ''INFO''
      else if level = loglevel_value kLogWarn then ''WARN''
      else if level = loglevel_value kLogError then ''ERROR''
      else if level = loglevel_value kLogCritical then ''CRITICAL''
      else ''UNKNOWN'')"

definition log_line :: "(nat \<Rightarrow> tm) \<Rightarrow> nat \<Rightarrow> int \<Rightarrow> string \<Rightarrow> string" where
  "log_line localtime now_ms level message =
     put_time (localtime (now_ms div 1000)) @ ''.'' @ padded 3 (now_ms mod 1000)
     @ '' ['' @ level_str level @ ''] '' @ message @ [CHR 10]"

subsection \<open>The logger object\<close>

record logger =
  lg_log_level :: int
  lg_log_file :: "string option"   \<comment> \<open>the name of the file that is open\<close>
  lg_files :: "string \<Rightarrow> string"
  lg_cerr :: string

definition new_logger :: "build_flags \<Rightarrow> (string \<Rightarrow> string) \<Rightarrow> string \<Rightarrow> logger" where
  "new_logger b files err = \<lparr>lg_log_level = level_value (TFTP_LOG_LEVEL b), lg_log_file = None,
     lg_files = files, lg_cerr = err\<rparr>"

text \<open>Whether a file can be opened for appending is a parameter; a failure leaves the stream closed.\<close>

definition SetLogFile :: "(string \<Rightarrow> bool) \<Rightarrow> string \<Rightarrow> logger \<Rightarrow> logger" where
  "SetLogFile can_open filename lg = (let lg1 = lg\<lparr>lg_log_file := None\<rparr> in
     if can_open filename then lg1\<lparr>lg_log_file := Some filename\<rparr> else lg1)"

definition TftpLogger_destroy :: "logger \<Rightarrow> logger" where
  "TftpLogger_destroy lg = lg\<lparr>lg_log_file := None\<rparr>"

definition SetLogLevel :: "int \<Rightarrow> logger \<Rightarrow> logger" where
  "SetLogLevel level lg = lg\<lparr>lg_log_level := level\<rparr>"

definition GetLogLevel :: "logger \<Rightarrow> int" where
  "GetLogLevel lg = lg_log_level lg"

definition ShouldLog :: "int \<Rightarrow> logger \<Rightarrow> bool" where
  "ShouldLog level lg = (level \<ge> lg_log_level lg)"

definition Log :: "(nat \<Rightarrow> tm) \<Rightarrow> nat \<Rightarrow> int \<Rightarrow> string \<Rightarrow> logger \<Rightarrow> logger" where
  "Log localtime now_ms level message lg =
     (if level < lg_log_level lg then lg
      else (let line = log_line localtime now_ms level message in
        case lg_log_file lg of
          Some f \<Rightarrow> lg\<lparr>lg_files := (lg_files lg)(f := lg_files lg f @ line)\<rparr>
        | None \<Rightarrow> lg\<lparr>lg_cerr := lg_cerr lg @ line\<rparr>))"

text \<open>
  What \<^verbatim>\<open>snprintf\<close> leaves in a buffer of a given size, read as a string; the text that the format and
  the arguments expand to is a parameter.
\<close>

definition snprintf :: "nat \<Rightarrow> string \<Rightarrow> string" where
  "snprintf size' text' = takeWhile (\<lambda>c. c \<noteq> NUL) (take (size' - 1) text')"

definition LogFormat :: "(nat \<Rightarrow> tm) \<Rightarrow> nat \<Rightarrow> int \<Rightarrow> string \<Rightarrow> logger \<Rightarrow> logger" where
  "LogFormat localtime now_ms level text' lg =
     (if level \<ge> lg_log_level lg then Log localtime now_ms level (snprintf 1024 text') lg else lg)"

text \<open>The text that is sent to the debugger on Windows; an unknown level counts as \<^verbatim>\<open>INFO\<close>.\<close>

definition debug_text :: "int \<Rightarrow> string \<Rightarrow> string" where
  "debug_text level text' =
     (let s = (if level_str level = ''UNKNOWN'' then ''INFO'' else level_str level)
      in snprintf 1024 (''['' @ s @ ''] '' @ snprintf 1024 text' @ [CHR 10]))"

definition OutputDebugLog :: "string \<Rightarrow> string \<Rightarrow> string list" where
  "OutputDebugLog level text' =
     (let buf = snprintf 1024 (''[SERVER '' @ level @ ''] '')
      in [buf @ snprintf (1024 - length buf) text', [CHR 10]])"

text \<open>The macros \<^verbatim>\<open>TFTP_TRACE\<close> to \<^verbatim>\<open>TFTP_CRITICAL\<close>, \<^verbatim>\<open>TFTP_LOG_IF\<close> and \<^verbatim>\<open>TFTP_LOG_RUNTIME\<close>.\<close>

definition tftp_log :: "build_flags \<Rightarrow> LogLevel \<Rightarrow> (nat \<Rightarrow> tm) \<Rightarrow> nat \<Rightarrow> string \<Rightarrow> logger \<Rightarrow> logger" where
  "tftp_log b l localtime now_ms text' lg =
     (if macro_defined b l then LogFormat localtime now_ms (loglevel_value l) text' lg else lg)"

definition TFTP_LOG_IF ::
  "build_flags \<Rightarrow> LogLevel \<Rightarrow> bool \<Rightarrow> (nat \<Rightarrow> tm) \<Rightarrow> nat \<Rightarrow> string \<Rightarrow> logger \<Rightarrow> logger" where
  "TFTP_LOG_IF b l condition localtime now_ms text' lg =
     (if TFTP_LOG_ENABLED b l \<and> condition then LogFormat localtime now_ms (loglevel_value l) text' lg else lg)"

definition TFTP_LOG_RUNTIME :: "LogLevel \<Rightarrow> (nat \<Rightarrow> tm) \<Rightarrow> nat \<Rightarrow> string \<Rightarrow> logger \<Rightarrow> logger" where
  "TFTP_LOG_RUNTIME l localtime now_ms text' lg =
     (if ShouldLog (loglevel_value l) lg then LogFormat localtime now_ms (loglevel_value l) text' lg else lg)"

subsection \<open>Filtering\<close>

text \<open>Where the logger writes to at present, and a sequence of messages, each with its time.\<close>

definition sink :: "logger \<Rightarrow> string" where
  "sink lg = (case lg_log_file lg of None \<Rightarrow> lg_cerr lg | Some f \<Rightarrow> lg_files lg f)"

definition set_sink :: "string \<Rightarrow> logger \<Rightarrow> logger" where
  "set_sink s lg = (case lg_log_file lg of
       None \<Rightarrow> lg\<lparr>lg_cerr := s\<rparr> | Some f \<Rightarrow> lg\<lparr>lg_files := (lg_files lg)(f := s)\<rparr>)"

lemma sink_set_sink [simp]:
  "sink (set_sink s lg) = s" "set_sink (sink lg) lg = lg" "set_sink s (set_sink t lg) = set_sink s lg"
  "lg_log_level (set_sink s lg) = lg_log_level lg" "lg_log_file (set_sink s lg) = lg_log_file lg"
  by (auto simp: sink_def set_sink_def split: option.splits)

lemma Log_sink:
  "Log localtime now_ms level message lg =
   (if level < lg_log_level lg then lg
    else set_sink (sink lg @ log_line localtime now_ms level message) lg)"
  by (simp add: Log_def sink_def set_sink_def Let_def split: option.split)

lemma LogFormat_Log: "LogFormat localtime now_ms level text' lg = Log localtime now_ms level (snprintf 1024 text') lg"
  by (simp add: LogFormat_def Log_def)

type_synonym log_entry = "nat \<times> int \<times> string"

fun run_log :: "(nat \<Rightarrow> tm) \<Rightarrow> log_entry list \<Rightarrow> logger \<Rightarrow> logger" where
  "run_log localtime [] lg = lg"
| "run_log localtime ((now_ms, level, message) # es) lg =
     run_log localtime es (Log localtime now_ms level message lg)"

definition log_text :: "(nat \<Rightarrow> tm) \<Rightarrow> log_entry list \<Rightarrow> string" where
  "log_text localtime es = concat (map (\<lambda>(now_ms, level, message). log_line localtime now_ms level message) es)"

text \<open>
  C31. The log is the sequence of the messages that pass the level: whatever messages are logged, the
  open file, or the error stream when no file is open, is extended by exactly the lines of those whose
  level is at least that of the logger, complete and in order, and nothing else changes.
\<close>

theorem log_is_filter:
  "run_log localtime es lg =
   set_sink (sink lg @ log_text localtime (filter (\<lambda>(now_ms, level, message). ShouldLog level lg) es)) lg"
proof (induction es arbitrary: lg)
  case (Cons e es)
  obtain now_ms level message where e: "e = (now_ms, level, message)"
    by (cases e)
  have "ShouldLog level (set_sink s lg) = ShouldLog level lg" for level s
    by (simp add: ShouldLog_def)
  then show ?case
    using Cons.IH by (auto simp: e Log_sink ShouldLog_def log_text_def not_le not_less)
qed (simp add: log_text_def)

subsection \<open>Reading a log\<close>

definition tm_ok :: "tm \<Rightarrow> bool" where
  "tm_ok t = (tm_year t \<le> 8099 \<and> tm_mon t \<le> 11 \<and> 1 \<le> tm_mday t \<and> tm_mday t \<le> 31 \<and> tm_hour t \<le> 23 \<and>
     tm_min t \<le> 59 \<and> tm_sec t \<le> 60)"

lemma length_padded: "0 < w \<Longrightarrow> n < 10 ^ w \<Longrightarrow> length (padded w n) = w"
  using length_show_nat [of w n] by (simp add: padded_def)

lemma length_year:
  assumes "1900 \<le> n" and "n \<le> 9999"
  shows "length (show_nat n) = 4"
proof -
  have "\<not> length (show_nat n) \<le> 3"
  proof
    assume "length (show_nat n) \<le> 3"
    then have "(10 :: nat) ^ length (show_nat n) \<le> 10 ^ 3"
      by (intro power_increasing) auto
    moreover have "n < 10 ^ length (show_nat n)"
      using dec_value_bound [OF show_nat_digits, of n] by simp
    ultimately show False
      using assms(1) by simp
  qed
  moreover have "length (show_nat n) \<le> 4"
    using assms(2) by (intro length_show_nat) auto
  ultimately show ?thesis
    by simp
qed

lemma length_put_time: "tm_ok t \<Longrightarrow> length (put_time t) = 19"
  by (simp add: tm_ok_def put_time_def length_padded length_year)

text \<open>What a reader of the log takes from a line: the name of the level and the message.\<close>

definition parse_line :: "string \<Rightarrow> string \<times> string" where
  "parse_line s = (let r = drop 25 s in
     (takeWhile (\<lambda>c. c \<noteq> CHR '']'') r, butlast (drop 2 (dropWhile (\<lambda>c. c \<noteq> CHR '']'') r))))"

lemma level_str_no_bracket: "CHR '']'' \<notin> set (level_str level)"
  by (simp add: level_str_def)

lemma split_at_first:
  assumes "c \<notin> set xs"
  shows "takeWhile (\<lambda>x. x \<noteq> c) (xs @ c # ys) = xs" and "dropWhile (\<lambda>x. x \<noteq> c) (xs @ c # ys) = c # ys"
  using assms by (induction xs) auto

text \<open>
  A line gives back the message: for every time that the calendar can give, the time takes 23
  characters, and the name of the level and the message, whatever characters it has, are
  recovered from the rest; a formatted message is cut to 1023 characters.
\<close>

lemma log_line_parses:
  assumes "tm_ok (localtime (now_ms div 1000))"
  shows "parse_line (log_line localtime now_ms level message) = (level_str level, message) \<and>
    length (snprintf 1024 text') \<le> 1023 \<and>
    (length text' \<le> 1023 \<and> NUL \<notin> set text' \<longrightarrow> snprintf 1024 text' = text')"
proof -
  let ?time = "put_time (localtime (now_ms div 1000)) @ ''.'' @ padded 3 (now_ms mod 1000) @ '' ['' "
  have "length ?time = 25"
    using length_put_time [OF assms] by (simp add: length_padded)
  then have "drop 25 (log_line localtime now_ms level message) = level_str level @ ''] '' @ message @ [CHR 10]"
    unfolding log_line_def using append_eq_conv_conj [of ?time] by (metis append.assoc)
  then have "parse_line (log_line localtime now_ms level message) = (level_str level, message)"
    using level_str_no_bracket [of level]
    by (simp add: parse_line_def Let_def split_at_first)
  moreover have "length (snprintf 1024 text') \<le> 1023"
    unfolding snprintf_def by (rule order_trans [OF length_takeWhile_le]) simp
  moreover have "snprintf 1024 text' = text'" if "length text' \<le> 1023" "NUL \<notin> set text'"
    using that by (auto simp: snprintf_def)
  ultimately show ?thesis
    by blast
qed

definition epoch :: tm where
  "epoch = \<lparr>tm_year = 70, tm_mon = 0, tm_mday = 1, tm_hour = 0, tm_min = 0, tm_sec = 0\<rparr>"

text \<open>
  A message with a line break forges a line: logging it leaves the same text as logging two
  messages, the second one of any time, level and content.
\<close>

lemma newline_forges_line:
  "Log localtime now_ms level (message @ CHR 10 # butlast (log_line localtime2 now_ms2 level2 message2)) lg =
   (if ShouldLog level lg
    then set_sink (sink (Log localtime now_ms level message lg) @ log_line localtime2 now_ms2 level2 message2) lg
    else lg)"
  by (simp add: Log_sink ShouldLog_def log_line_def butlast_append)

subsection \<open>The macros\<close>

lemma enabled_named:
  "TFTP_LOG_LEVEL b = Enumerator l' \<Longrightarrow> TFTP_LOG_ENABLED b l \<longleftrightarrow> l' \<le> l"
  by (simp add: TFTP_LOG_ENABLED_def less_eq_LogLevel_def)

text \<open>
  The macros of a build: in a new logger a macro writes exactly if its level is at least the one
  the build asks for, unless this level is given as a positive number; then no macro writes anything,
  not even for a critical error. The preprocessor itself removes no macro as long as the levels are
  named.
\<close>

lemma macros_follow_build:
  "tftp_log b l localtime now_ms text' (new_logger b files err) =
     (if (case bf_log_level b of Some (Number n) \<Rightarrow> n > 0 | _ \<Rightarrow> False) then new_logger b files err
      else TFTP_LOG_IF b l True localtime now_ms text' (new_logger b files err)) \<and>
   (macro_defined b l \<longleftrightarrow> (case bf_log_level b of Some (Number n) \<Rightarrow> n \<le> 0 | _ \<Rightarrow> True))"
  by (auto simp: tftp_log_def TFTP_LOG_IF_def macro_defined_def TFTP_LOG_ENABLED_def TFTP_LOG_LEVEL_def
      LogFormat_def new_logger_def split: option.splits level_text.splits)

end
