(* ===== verification/Tftp_Server_Example.thy ===== *)
theory Tftp_Server_Example
  imports Tftp_Server
begin

section \<open>The example server\<close>



















end
