(* ===== verification/Tftp_Socket_Address.thy ===== *)
theory Tftp_Socket_Address
  imports Tftp_Validation
begin

section \<open>Socket addresses\<close>

text \<open>
  \<^verbatim>\<open>SocketAddress\<close> of \<^verbatim>\<open>include/tftp/tftp_socket.h\<close> and \<^verbatim>\<open>src/tftp_socket.cpp\<close>. The object owns its
  \<^verbatim>\<open>sockaddr_in\<close> through a pointer that is null once the object was moved from; an operation on such
  an object dereferences null, which is the result \<open>None\<close>. The address is kept as its four bytes in
  memory, the port as the word in memory, which depends on the byte order of the host.
\<close>

type_synonym in_addr = "byte \<times> byte \<times> byte \<times> byte"

record sockaddr_in =
  sin_family :: nat
  sin_port :: uint16
  sin_addr :: in_addr

definition AF_INET :: nat where "AF_INET = 2"
definition INADDR_ANY :: in_addr where "INADDR_ANY = (0, 0, 0, 0)"
definition INET_ADDRSTRLEN :: nat where "INET_ADDRSTRLEN = 16"

text \<open>\<^verbatim>\<open>inet_ntop\<close> into a buffer of a given size; \<open>None\<close> when the text and its NUL do not fit.\<close>

definition inet_text :: "in_addr \<Rightarrow> string" where
  "inet_text = (\<lambda>(a, b, c, d). show_nat (unat a) @ ''.'' @ show_nat (unat b) @ ''.'' @
     show_nat (unat c) @ ''.'' @ show_nat (unat d))"

definition inet_ntop :: "in_addr \<Rightarrow> nat \<Rightarrow> string option" where
  "inet_ntop addr size' = (if length (inet_text addr) < size' then Some (inet_text addr) else None)"

text \<open>The characters of \<^verbatim>\<open>c_str()\<close> up to the first NUL.\<close>

definition c_str :: "string \<Rightarrow> string" where
  "c_str s = takeWhile (\<lambda>c. c \<noteq> NUL) s"

type_synonym socket_address = "sockaddr_in option"

definition SocketAddress_default :: "endian \<Rightarrow> socket_address" where
  "SocketAddress_default e = Some \<lparr>sin_family = AF_INET, sin_port = htons e 0, sin_addr = INADDR_ANY\<rparr>"

text \<open>\<^verbatim>\<open>inet_pton\<close> is a parameter: the address a text denotes, \<open>None\<close> when it is refused.\<close>

definition set_address :: "endian \<Rightarrow> (string \<Rightarrow> in_addr option) \<Rightarrow> string \<Rightarrow> uint16 \<Rightarrow> sockaddr_in \<Rightarrow> sockaddr_in" where
  "set_address e pton ip port a =
     (let a1 = a\<lparr>sin_family := AF_INET, sin_port := htons e port\<rparr> in
      if ip = [] \<or> ip = ''0.0.0.0'' then a1\<lparr>sin_addr := INADDR_ANY\<rparr>
      else (case pton (c_str ip) of
          Some addr \<Rightarrow> a1\<lparr>sin_addr := addr\<rparr>
        | None \<Rightarrow> a1\<lparr>sin_addr := INADDR_ANY\<rparr>))"

definition SocketAddress_Set ::
  "endian \<Rightarrow> (string \<Rightarrow> in_addr option) \<Rightarrow> string \<Rightarrow> uint16 \<Rightarrow> socket_address \<Rightarrow> socket_address option" where
  "SocketAddress_Set e pton ip port this = map_option (\<lambda>a. Some (set_address e pton ip port a)) this"

definition SocketAddress_new ::
  "endian \<Rightarrow> (string \<Rightarrow> in_addr option) \<Rightarrow> string \<Rightarrow> uint16 \<Rightarrow> socket_address option" where
  "SocketAddress_new e pton ip port = SocketAddress_Set e pton ip port (SocketAddress_default e)"

definition SocketAddress_of :: "sockaddr_in \<Rightarrow> socket_address" where
  "SocketAddress_of addr = Some addr"

definition SocketAddress_copy :: "socket_address \<Rightarrow> socket_address option" where
  "SocketAddress_copy other = map_option Some other"

text \<open>The new object and what is left in the other one.\<close>

definition SocketAddress_move :: "socket_address \<Rightarrow> socket_address \<times> socket_address" where
  "SocketAddress_move other = (other, None)"

text \<open>The assignments, for two different objects; assigning an object to itself does nothing.\<close>

definition SocketAddress_assign :: "socket_address \<Rightarrow> socket_address \<Rightarrow> socket_address option" where
  "SocketAddress_assign this other = (case (this, other) of
       (Some a, Some b) \<Rightarrow> Some (Some b) | _ \<Rightarrow> None)"

definition SocketAddress_move_assign ::
  "socket_address \<Rightarrow> socket_address \<Rightarrow> socket_address \<times> socket_address" where
  "SocketAddress_move_assign this other = (other, None)"

definition SocketAddress_GetSockAddr :: "socket_address \<Rightarrow> sockaddr_in option" where
  "SocketAddress_GetSockAddr this = this"

definition SocketAddress_GetIP :: "socket_address \<Rightarrow> string option" where
  "SocketAddress_GetIP this = map_option (\<lambda>a. case inet_ntop (sin_addr a) INET_ADDRSTRLEN of
       Some ip_str \<Rightarrow> ip_str | None \<Rightarrow> ''0.0.0.0'') this"

definition SocketAddress_GetPort :: "endian \<Rightarrow> socket_address \<Rightarrow> uint16 option" where
  "SocketAddress_GetPort e this = map_option (\<lambda>a. htons e (sin_port a)) this"

subsection \<open>Text and addresses\<close>

lemma htons_htons [simp]: "htons e (htons e v) = v"
  by (cases e) (simp_all add: htons_def bswap16_def word_unat_eq_iff)

lemma octet_show: "octet (show_nat (unat (a :: byte)))"
proof -
  have "unat a < 1000"
    using unat_less_256 [of a] by linarith
  then have "length (show_nat (unat a)) \<le> 3"
    by (intro length_show_nat) simp_all
  then show ?thesis
    by (simp add: octet_def show_nat_digits)
qed

lemma inet_text_short: "length (inet_text addr) < INET_ADDRSTRLEN"
proof -
  obtain a b c d where addr: "addr = (a, b, c, d)"
    by (cases addr)
  show ?thesis
    using octet_show [of a] octet_show [of b] octet_show [of c] octet_show [of d]
    by (simp add: addr inet_text_def INET_ADDRSTRLEN_def octet_def)
qed

lemma inet_ntop_fits [simp]: "inet_ntop addr INET_ADDRSTRLEN = Some (inet_text addr)"
  by (simp add: inet_ntop_def inet_text_short)

lemma inet_text_any: "inet_text INADDR_ANY = ''0.0.0.0''"
  by code_simp

lemma inet_text_no_NUL: "NUL \<notin> set (inet_text addr)"
proof -
  have "c \<noteq> NUL" if "isdigit c" for c
    using that by (auto simp: isdigit_def NUL_def)
  then have "NUL \<notin> set (show_nat n)" for n
    using show_nat_digits [of n] by (auto simp: list_all_iff)
  then show ?thesis
    by (cases addr) (simp add: inet_text_def NUL_def)
qed

lemma c_str_inet_text [simp]: "c_str (inet_text addr) = inet_text addr"
  using inet_text_no_NUL [of addr] by (auto simp: c_str_def)

lemma inet_text_nonempty [simp]: "inet_text addr \<noteq> []"
  by (cases addr) (simp add: inet_text_def)

text \<open>What the code relies on: \<^verbatim>\<open>inet_pton\<close> accepts the text that \<^verbatim>\<open>inet_ntop\<close> gives for an address.\<close>

locale inet =
  fixes pton :: "string \<Rightarrow> in_addr option"
  assumes pton_ntop: "pton (inet_text addr) = Some addr"
begin

lemma inet_text_eq_any: "inet_text addr = ''0.0.0.0'' \<longleftrightarrow> addr = INADDR_ANY"
  using pton_ntop [of addr] pton_ntop [of INADDR_ANY] inet_text_any by auto

lemma set_address_text:
  "set_address e pton (inet_text addr) port a = \<lparr>sin_family = AF_INET, sin_port = htons e port, sin_addr = addr\<rparr>"
  using inet_text_eq_any [of addr] by (simp add: set_address_def Let_def pton_ntop)

end

text \<open>A parser of dotted quads.\<close>

definition dotted_quad :: "string \<Rightarrow> in_addr option" where
  "dotted_quad s = (case split_at (CHR ''.'') s of
       [a, b, c, d] \<Rightarrow>
         if list_all (\<lambda>x. octet x \<and> dec_value x \<le> 255) [a, b, c, d]
         then Some (word_of_nat (dec_value a), word_of_nat (dec_value b), word_of_nat (dec_value c),
           word_of_nat (dec_value d))
         else None
     | _ \<Rightarrow> None)"

interpretation quads: inet dotted_quad
proof
  fix addr :: in_addr
  obtain a b c d where addr: "addr = (a, b, c, d)"
    by (cases addr)
  have dots: "CHR ''.'' \<notin> set (show_nat (unat (x :: byte)))" for x
    by (rule octet_no_dot [OF octet_show])
  have small: "unat (x :: byte) \<le> 255" for x
    using unat_less_256 [of x] by linarith
  have "split_at (CHR ''.'') (inet_text addr) =
      [show_nat (unat a), show_nat (unat b), show_nat (unat c), show_nat (unat d)]"
    by (simp add: addr inet_text_def split_at_append [OF dots] split_at_name [OF dots])
  then show "dotted_quad (inet_text addr) = Some addr"
    by (simp add: dotted_quad_def addr octet_show small)
qed

lemma address_of_text:
  assumes "inet pton"
  shows "SocketAddress_new e pton (inet_text addr) port =
    Some (Some \<lparr>sin_family = AF_INET, sin_port = htons e port, sin_addr = addr\<rparr>)"
  by (simp add: SocketAddress_new_def SocketAddress_default_def SocketAddress_Set_def inet.set_address_text [OF assms])

text \<open>
  C37. Addresses and their text: on hosts of either byte order, and for every parser of addresses
  that accepts the text printed for an address, an address object made from the text of an address
  and a port gives back the same text and port, also through a copy and a move; the text of an
  address always fits into the buffer. A text that the parser refuses gives the address 0.0.0.0,
  with the port as asked.
\<close>

theorem address_roundtrip:
  assumes "\<forall>addr. pton (inet_text addr) = Some addr"
    and "SocketAddress_new e pton ip port = Some obj" and "pton (c_str ip) = None"
  shows "(\<exists>a. SocketAddress_new e pton (inet_text addr) port = Some a \<and>
      SocketAddress_GetIP a = Some (inet_text addr) \<and> SocketAddress_GetPort e a = Some port \<and>
      SocketAddress_copy a = Some a \<and> fst (SocketAddress_move a) = a) \<and>
    inet_ntop addr INET_ADDRSTRLEN \<noteq> None \<and>
    SocketAddress_GetIP obj = Some ''0.0.0.0'' \<and> SocketAddress_GetPort e obj = Some port"
proof -
  have "inet pton"
    by (rule inet.intro) (use assms(1) in blast)
  from address_of_text [OF this, of e addr port]
  show ?thesis
    using assms(2,3) inet_text_any
    by (auto simp: SocketAddress_GetIP_def SocketAddress_GetPort_def SocketAddress_copy_def SocketAddress_move_def
        SocketAddress_new_def SocketAddress_default_def SocketAddress_Set_def set_address_def Let_def)
qed

theorem address_roundtrip_witness:
  "\<exists>a. SocketAddress_new Little dotted_quad (inet_text (192, 168, 0, 7)) 69 = Some a \<and>
     SocketAddress_GetIP a = Some ''192.168.0.7'' \<and> SocketAddress_GetPort Little a = Some 69"
proof -
  have law: "\<forall>addr. dotted_quad (inet_text addr) = Some addr"
    by (simp add: quads.pton_ntop)
  have refused: "dotted_quad (c_str ''localhost'') = None"
    by code_simp
  obtain obj where new: "SocketAddress_new Little dotted_quad ''localhost'' 69 = Some obj"
    by (auto simp: SocketAddress_new_def SocketAddress_Set_def SocketAddress_default_def)
  have "inet_text (192, 168, 0, 7) = ''192.168.0.7''"
    by code_simp
  then show ?thesis
    using address_roundtrip [OF law new refused, of "(192, 168, 0, 7)"] by auto
qed

end
