(* ===== verification/Tftp_Socket_Impl.thy ===== *)
theory Tftp_Socket_Impl
  imports Tftp_Socket_Address Transition_System
begin

section \<open>Sockets of the two platforms\<close>

text \<open>
  \<^verbatim>\<open>SocketImpl\<close> of \<^verbatim>\<open>src/internal/tftp_socket_impl.h\<close>, with its two implementations in
  \<^verbatim>\<open>tftp_socket_impl_unix.cpp\<close> and \<^verbatim>\<open>tftp_socket_impl_win32.cpp\<close>. The descriptor type is a parameter:
  \<^verbatim>\<open>int\<close> on Unix, a 64-bit word on Windows. An operation works on the object and on the state of the
  operating system, which holds the open descriptors and records the calls made; the results of
  the calls and the text of a system error are parameters. Log output is left out.
\<close>

record 'fd socket_impl =
  sk_socket :: 'fd
  sk_last_error :: string

datatype 'fd syscall =
    Sys_socket 'fd
  | Sys_bind 'fd sockaddr_in
  | Sys_setsockopt 'fd int
  | Sys_sendto 'fd "byte list" int sockaddr_in
  | Sys_select 'fd int int
  | Sys_recvfrom 'fd int
  | Sys_close 'fd

record 'fd os =
  os_open :: "'fd set"
  os_calls :: "'fd syscall list"

definition call_os :: "'fd syscall \<Rightarrow> 'fd os \<Rightarrow> 'fd os" where
  "call_os c os = os\<lparr>os_calls := os_calls os @ [c]\<rparr>"

type_synonym 'fd sock_state = "'fd socket_impl \<times> 'fd os"

definition SetLastError :: "string \<Rightarrow> 'fd socket_impl \<Rightarrow> 'fd socket_impl" where
  "SetLastError error impl = impl\<lparr>sk_last_error := error\<rparr>"

text \<open>A conversion to a 32-bit \<^verbatim>\<open>int\<close>, and the division of \<^verbatim>\<open>int\<close>, which rounds towards 0.\<close>

definition cast_int :: "int \<Rightarrow> int" where
  "cast_int n = (n + 2 ^ 31) mod 2 ^ 32 - 2 ^ 31"

definition c_div :: "int \<Rightarrow> int \<Rightarrow> int" where
  "c_div a b = sgn a * sgn b * (\<bar>a\<bar> div \<bar>b\<bar>)"

definition c_mod :: "int \<Rightarrow> int \<Rightarrow> int" where
  "c_mod a b = a - c_div a b * b"

text \<open>What \<^verbatim>\<open>recvfrom\<close> finds: an error, or a datagram with its sender.\<close>

type_synonym arrival = "(sockaddr_in \<times> byte list) option"

text \<open>What receiving gives: the result, the bytes in the buffer and the address of the sender.\<close>

type_synonym reception = "int \<times> byte list \<times> sockaddr_in"

subsection \<open>Unix\<close>

definition unix_invalid :: int where
  "unix_invalid = -1"

definition unix_new :: "int socket_impl" where
  "unix_new = \<lparr>sk_socket = unix_invalid, sk_last_error = []\<rparr>"

definition unix_Close :: "int sock_state \<Rightarrow> int sock_state" where
  "unix_Close s = (let (impl, os) = s in
     if sk_socket impl \<noteq> unix_invalid then
       (impl\<lparr>sk_socket := unix_invalid\<rparr>,
        call_os (Sys_close (sk_socket impl)) (os\<lparr>os_open := os_open os - {sk_socket impl}\<rparr>))
     else s)"

text \<open>
  The new object and what is left in the other one, whose text is empty after the move; the assignment
  is for two different objects.
\<close>

definition unix_move :: "int socket_impl \<Rightarrow> int socket_impl \<times> int socket_impl" where
  "unix_move other = (\<lparr>sk_socket = sk_socket other, sk_last_error = sk_last_error other\<rparr>,
     other\<lparr>sk_socket := unix_invalid, sk_last_error := []\<rparr>)"

definition unix_move_assign ::
  "int socket_impl \<Rightarrow> int socket_impl \<Rightarrow> int os \<Rightarrow> int socket_impl \<times> int socket_impl \<times> int os" where
  "unix_move_assign this other os = (let (this1, os1) = unix_Close (this, os) in
     (this1\<lparr>sk_socket := sk_socket other, sk_last_error := sk_last_error other\<rparr>,
      other\<lparr>sk_socket := unix_invalid, sk_last_error := []\<rparr>, os1))"

definition unix_Create :: "int \<Rightarrow> string \<Rightarrow> int sock_state \<Rightarrow> bool \<times> int sock_state" where
  "unix_Create fd sys_error s =
     (let (impl, os) = unix_Close s;
          impl1 = impl\<lparr>sk_socket := fd\<rparr>;
          os1 = call_os (Sys_socket fd) (if fd = unix_invalid then os else os\<lparr>os_open := insert fd (os_open os)\<rparr>)
      in if sk_socket impl1 = unix_invalid then
           (False, SetLastError (''Failed to create UDP socket: '' @ sys_error) impl1, os1)
         else (True, impl1, os1))"

definition unix_Bind :: "sockaddr_in \<Rightarrow> int \<Rightarrow> string \<Rightarrow> int sock_state \<Rightarrow> bool \<times> int sock_state" where
  "unix_Bind sock_addr result sys_error s = (let (impl, os) = s in
     if sk_socket impl = unix_invalid then (False, SetLastError ''Cannot bind invalid socket'' impl, os)
     else (let os1 = call_os (Sys_bind (sk_socket impl) sock_addr) os in
       if result \<noteq> 0 then (False, SetLastError (''Failed to bind socket: '' @ sys_error) impl, os1)
       else (True, impl, os1)))"

definition unix_SetReuseAddress :: "bool \<Rightarrow> int \<Rightarrow> string \<Rightarrow> int sock_state \<Rightarrow> bool \<times> int sock_state" where
  "unix_SetReuseAddress reuse result sys_error s = (let (impl, os) = s in
     if sk_socket impl = unix_invalid then
       (False, SetLastError ''Cannot set option on invalid socket'' impl, os)
     else (let opt = (if reuse then 1 else 0); os1 = call_os (Sys_setsockopt (sk_socket impl) opt) os in
       if result \<noteq> 0 then (False, SetLastError (''Failed to set SO_REUSEADDR: '' @ sys_error) impl, os1)
       else (True, impl, os1)))"

text \<open>The data is \<open>None\<close> for a null pointer; its length is the size argument.\<close>

definition unix_SendTo ::
  "byte list option \<Rightarrow> sockaddr_in \<Rightarrow> int \<Rightarrow> string \<Rightarrow> int sock_state \<Rightarrow> int \<times> int sock_state" where
  "unix_SendTo data sock_addr sent sys_error s = (let (impl, os) = s in
     if sk_socket impl = unix_invalid then (-1, SetLastError ''Cannot send on invalid socket'' impl, os)
     else (case data of
         None \<Rightarrow> (-1, SetLastError ''Invalid send parameters'' impl, os)
       | Some bytes \<Rightarrow>
           if length bytes = 0 then (-1, SetLastError ''Invalid send parameters'' impl, os)
           else (let os1 = call_os (Sys_sendto (sk_socket impl) bytes (int (length bytes)) sock_addr) os in
             if sent < 0 then (-1, SetLastError (''Failed to send data: '' @ sys_error) impl, os1)
             else (cast_int sent, impl, os1))))"

text \<open>The buffer is its size, \<open>None\<close> for a null pointer.\<close>

definition unix_ReceiveFrom ::
  "nat option \<Rightarrow> sockaddr_in \<Rightarrow> arrival \<Rightarrow> string \<Rightarrow> int sock_state \<Rightarrow> reception \<times> int sock_state" where
  "unix_ReceiveFrom buffer sender_addr arrives sys_error s = (let (impl, os) = s in
     if sk_socket impl = unix_invalid then
       ((-1, [], sender_addr), SetLastError ''Cannot receive on invalid socket'' impl, os)
     else (case buffer of
         None \<Rightarrow> ((-1, [], sender_addr), SetLastError ''Invalid receive parameters'' impl, os)
       | Some buffer_size \<Rightarrow>
           if buffer_size = 0 then ((-1, [], sender_addr), SetLastError ''Invalid receive parameters'' impl, os)
           else (let os1 = call_os (Sys_recvfrom (sk_socket impl) (int buffer_size)) os in
             case arrives of
               None \<Rightarrow> ((-1, [], sender_addr), SetLastError (''Failed to receive data: '' @ sys_error) impl, os1)
             | Some (sock_addr, bytes) \<Rightarrow>
                 (let received = take buffer_size bytes
                  in ((cast_int (int (length received)), received, sock_addr), impl, os1)))))"

definition unix_ReceiveFromTimeout ::
  "nat option \<Rightarrow> sockaddr_in \<Rightarrow> int \<Rightarrow> int \<Rightarrow> arrival \<Rightarrow> string \<Rightarrow> int sock_state \<Rightarrow> reception \<times> int sock_state" where
  "unix_ReceiveFromTimeout buffer sender_addr timeout_ms result arrives sys_error s = (let (impl, os) = s in
     if sk_socket impl = unix_invalid then
       ((-1, [], sender_addr), SetLastError ''Cannot receive on invalid socket'' impl, os)
     else
       (let os1 = call_os (Sys_select (sk_socket impl) (c_div timeout_ms 1000) (c_mod timeout_ms 1000 * 1000)) os in
        if result < 0 then ((-1, [], sender_addr), SetLastError (''Select failed: '' @ sys_error) impl, os1)
        else if result = 0 then ((0, [], sender_addr), SetLastError ''Receive timeout'' impl, os1)
        else unix_ReceiveFrom buffer sender_addr arrives sys_error (impl, os1)))"

definition unix_IsValid :: "int socket_impl \<Rightarrow> bool" where
  "unix_IsValid impl = (sk_socket impl \<noteq> unix_invalid)"

definition unix_GetLastError :: "int socket_impl \<Rightarrow> string" where
  "unix_GetLastError impl = sk_last_error impl"

definition unix_GetNativeHandle :: "int socket_impl \<Rightarrow> int" where
  "unix_GetNativeHandle impl = sk_socket impl"


subsection \<open>Windows\<close>

text \<open>
  The same operations, with the sizes converted to \<^verbatim>\<open>int\<close> for the calls, and the text of an error from
  \<^verbatim>\<open>FormatMessageA\<close>, which is empty when no text is found.
\<close>

type_synonym handle = "64 word"

definition win_invalid :: handle where
  "win_invalid = -1"

definition win_new :: "handle socket_impl" where
  "win_new = \<lparr>sk_socket = win_invalid, sk_last_error = []\<rparr>"

definition win_Close :: "handle sock_state \<Rightarrow> handle sock_state" where
  "win_Close s = (let (impl, os) = s in
     if sk_socket impl \<noteq> win_invalid then
       (impl\<lparr>sk_socket := win_invalid\<rparr>,
        call_os (Sys_close (sk_socket impl)) (os\<lparr>os_open := os_open os - {sk_socket impl}\<rparr>))
     else s)"

text \<open>
  The new object and what is left in the other one, whose text is empty after the move; the assignment
  is for two different objects.
\<close>

definition win_move :: "handle socket_impl \<Rightarrow> handle socket_impl \<times> handle socket_impl" where
  "win_move other = (\<lparr>sk_socket = sk_socket other, sk_last_error = sk_last_error other\<rparr>,
     other\<lparr>sk_socket := win_invalid, sk_last_error := []\<rparr>)"

definition win_move_assign ::
  "handle socket_impl \<Rightarrow> handle socket_impl \<Rightarrow> handle os \<Rightarrow> handle socket_impl \<times> handle socket_impl \<times> handle os" where
  "win_move_assign this other os = (let (this1, os1) = win_Close (this, os) in
     (this1\<lparr>sk_socket := sk_socket other, sk_last_error := sk_last_error other\<rparr>,
      other\<lparr>sk_socket := win_invalid, sk_last_error := []\<rparr>, os1))"

definition win_Create :: "handle \<Rightarrow> string \<Rightarrow> handle sock_state \<Rightarrow> bool \<times> handle sock_state" where
  "win_Create fd sys_error s =
     (let (impl, os) = win_Close s;
          impl1 = impl\<lparr>sk_socket := fd\<rparr>;
          os1 = call_os (Sys_socket fd) (if fd = win_invalid then os else os\<lparr>os_open := insert fd (os_open os)\<rparr>)
      in if sk_socket impl1 = win_invalid then
           (False, SetLastError (''Failed to create UDP socket: '' @ sys_error) impl1, os1)
         else (True, impl1, os1))"

definition win_Bind :: "sockaddr_in \<Rightarrow> int \<Rightarrow> string \<Rightarrow> handle sock_state \<Rightarrow> bool \<times> handle sock_state" where
  "win_Bind sock_addr result sys_error s = (let (impl, os) = s in
     if sk_socket impl = win_invalid then (False, SetLastError ''Cannot bind invalid socket'' impl, os)
     else (let os1 = call_os (Sys_bind (sk_socket impl) sock_addr) os in
       if result \<noteq> 0 then (False, SetLastError (''Failed to bind socket: '' @ sys_error) impl, os1)
       else (True, impl, os1)))"

definition win_SetReuseAddress :: "bool \<Rightarrow> int \<Rightarrow> string \<Rightarrow> handle sock_state \<Rightarrow> bool \<times> handle sock_state" where
  "win_SetReuseAddress reuse result sys_error s = (let (impl, os) = s in
     if sk_socket impl = win_invalid then
       (False, SetLastError ''Cannot set option on invalid socket'' impl, os)
     else (let opt = (if reuse then 1 else 0); os1 = call_os (Sys_setsockopt (sk_socket impl) opt) os in
       if result \<noteq> 0 then (False, SetLastError (''Failed to set SO_REUSEADDR: '' @ sys_error) impl, os1)
       else (True, impl, os1)))"

text \<open>The data is \<open>None\<close> for a null pointer; its length is the size argument.\<close>

definition win_SendTo ::
  "byte list option \<Rightarrow> sockaddr_in \<Rightarrow> int \<Rightarrow> string \<Rightarrow> handle sock_state \<Rightarrow> int \<times> handle sock_state" where
  "win_SendTo data sock_addr sent sys_error s = (let (impl, os) = s in
     if sk_socket impl = win_invalid then (-1, SetLastError ''Cannot send on invalid socket'' impl, os)
     else (case data of
         None \<Rightarrow> (-1, SetLastError ''Invalid send parameters'' impl, os)
       | Some bytes \<Rightarrow>
           if length bytes = 0 then (-1, SetLastError ''Invalid send parameters'' impl, os)
           else (let os1 = call_os (Sys_sendto (sk_socket impl) bytes (cast_int (int (length bytes))) sock_addr) os in
             if sent < 0 then (-1, SetLastError (''Failed to send data: '' @ sys_error) impl, os1)
             else (sent, impl, os1))))"

text \<open>
  The buffer is its size, \<open>None\<close> for a null pointer. The \<^verbatim>\<open>recvfrom\<close> of Winsock fails for a negative length,
  and with \<^verbatim>\<open>WSAEMSGSIZE\<close> for a datagram that does not fit; then the buffer holds its first part.
\<close>

definition win_ReceiveFrom ::
  "nat option \<Rightarrow> sockaddr_in \<Rightarrow> arrival \<Rightarrow> string \<Rightarrow> handle sock_state \<Rightarrow> reception \<times> handle sock_state" where
  "win_ReceiveFrom buffer sender_addr arrives sys_error s = (let (impl, os) = s in
     if sk_socket impl = win_invalid then
       ((-1, [], sender_addr), SetLastError ''Cannot receive on invalid socket'' impl, os)
     else (case buffer of
         None \<Rightarrow> ((-1, [], sender_addr), SetLastError ''Invalid receive parameters'' impl, os)
       | Some buffer_size \<Rightarrow>
           if buffer_size = 0 then ((-1, [], sender_addr), SetLastError ''Invalid receive parameters'' impl, os)
           else (let os1 = call_os (Sys_recvfrom (sk_socket impl) (cast_int (int buffer_size))) os in
             case arrives of
               None \<Rightarrow> ((-1, [], sender_addr), SetLastError (''Failed to receive data: '' @ sys_error) impl, os1)
             | Some (sock_addr, bytes) \<Rightarrow>
                 if int (length bytes) > cast_int (int buffer_size) then
                   ((-1, take (nat (cast_int (int buffer_size))) bytes, sock_addr),
                    SetLastError (''Failed to receive data: '' @ sys_error) impl, os1)
                 else ((int (length bytes), bytes, sock_addr), impl, os1))))"

definition win_ReceiveFromTimeout ::
  "nat option \<Rightarrow> sockaddr_in \<Rightarrow> int \<Rightarrow> int \<Rightarrow> arrival \<Rightarrow> string \<Rightarrow> handle sock_state \<Rightarrow> reception \<times> handle sock_state" where
  "win_ReceiveFromTimeout buffer sender_addr timeout_ms result arrives sys_error s = (let (impl, os) = s in
     if sk_socket impl = win_invalid then
       ((-1, [], sender_addr), SetLastError ''Cannot receive on invalid socket'' impl, os)
     else
       (let os1 = call_os (Sys_select (sk_socket impl) (c_div timeout_ms 1000) (c_mod timeout_ms 1000 * 1000)) os in
        if result < 0 then ((-1, [], sender_addr), SetLastError (''Select failed: '' @ sys_error) impl, os1)
        else if result = 0 then ((0, [], sender_addr), SetLastError ''Receive timeout'' impl, os1)
        else win_ReceiveFrom buffer sender_addr arrives sys_error (impl, os1)))"

definition win_IsValid :: "handle socket_impl \<Rightarrow> bool" where
  "win_IsValid impl = (sk_socket impl \<noteq> win_invalid)"

definition win_GetLastError :: "handle socket_impl \<Rightarrow> string" where
  "win_GetLastError impl = sk_last_error impl"

definition win_GetNativeHandle :: "handle socket_impl \<Rightarrow> handle" where
  "win_GetNativeHandle impl = sk_socket impl"

definition win_GetSystemErrorMessage :: "int \<Rightarrow> string \<Rightarrow> string" where
  "win_GetSystemErrorMessage error_code message_buffer =
     (if length message_buffer > 0 then rev (dropWhile isspace (rev message_buffer))
      else ''WSA Error code '' @ show_int error_code)"

subsection \<open>The interface of the implementations\<close>

datatype 'fd sock_op =
    Op_Create 'fd string
  | Op_Bind sockaddr_in int string
  | Op_SetReuseAddress bool int string
  | Op_SendTo "byte list option" sockaddr_in int string
  | Op_ReceiveFrom "nat option" sockaddr_in arrival string
  | Op_ReceiveFromTimeout "nat option" sockaddr_in int int arrival string
  | Op_Close

datatype op_result = Ret_bool bool | Ret_int int | Ret_reception reception | Ret_void

fun unix_op :: "int sock_op \<Rightarrow> int sock_state \<Rightarrow> op_result \<times> int sock_state" where
  "unix_op (Op_Create fd err) s = apfst Ret_bool (unix_Create fd err s)"
| "unix_op (Op_Bind addr r err) s = apfst Ret_bool (unix_Bind addr r err s)"
| "unix_op (Op_SetReuseAddress b r err) s = apfst Ret_bool (unix_SetReuseAddress b r err s)"
| "unix_op (Op_SendTo data addr r err) s = apfst Ret_int (unix_SendTo data addr r err s)"
| "unix_op (Op_ReceiveFrom buf addr a err) s = apfst Ret_reception (unix_ReceiveFrom buf addr a err s)"
| "unix_op (Op_ReceiveFromTimeout buf addr t r a err) s =
     apfst Ret_reception (unix_ReceiveFromTimeout buf addr t r a err s)"
| "unix_op Op_Close s = (Ret_void, unix_Close s)"

fun win_op :: "handle sock_op \<Rightarrow> handle sock_state \<Rightarrow> op_result \<times> handle sock_state" where
  "win_op (Op_Create fd err) s = apfst Ret_bool (win_Create fd err s)"
| "win_op (Op_Bind addr r err) s = apfst Ret_bool (win_Bind addr r err s)"
| "win_op (Op_SetReuseAddress b r err) s = apfst Ret_bool (win_SetReuseAddress b r err s)"
| "win_op (Op_SendTo data addr r err) s = apfst Ret_int (win_SendTo data addr r err s)"
| "win_op (Op_ReceiveFrom buf addr a err) s = apfst Ret_reception (win_ReceiveFrom buf addr a err s)"
| "win_op (Op_ReceiveFromTimeout buf addr t r a err) s =
     apfst Ret_reception (win_ReceiveFromTimeout buf addr t r a err s)"
| "win_op Op_Close s = (Ret_void, win_Close s)"

text \<open>
  When a sequence of calls is legal, and the descriptors that are open after it: a new descriptor is
  not open before, and every other call is made on an open one.
\<close>

fun sys_effect :: "'fd \<Rightarrow> 'fd syscall \<Rightarrow> 'fd set \<Rightarrow> 'fd set option" where
  "sys_effect invalid (Sys_socket fd) fds =
     (if fd = invalid then Some fds else if fd \<in> fds then None else Some (insert fd fds))"
| "sys_effect invalid (Sys_close fd) fds = (if fd \<in> fds then Some (fds - {fd}) else None)"
| "sys_effect invalid (Sys_bind fd addr) fds = (if fd \<in> fds then Some fds else None)"
| "sys_effect invalid (Sys_setsockopt fd opt) fds = (if fd \<in> fds then Some fds else None)"
| "sys_effect invalid (Sys_sendto fd bytes len addr) fds = (if fd \<in> fds then Some fds else None)"
| "sys_effect invalid (Sys_select fd sec usec) fds = (if fd \<in> fds then Some fds else None)"
| "sys_effect invalid (Sys_recvfrom fd len) fds = (if fd \<in> fds then Some fds else None)"

fun legal_calls :: "'fd \<Rightarrow> 'fd syscall list \<Rightarrow> 'fd set \<Rightarrow> 'fd set option" where
  "legal_calls invalid [] fds = Some fds"
| "legal_calls invalid (c # cs) fds =
     (case sys_effect invalid c fds of None \<Rightarrow> None | Some fds' \<Rightarrow> legal_calls invalid cs fds')"

lemma legal_calls_append:
  "legal_calls invalid (cs @ ds) fds =
   (case legal_calls invalid cs fds of None \<Rightarrow> None | Some fds' \<Rightarrow> legal_calls invalid ds fds')"
  by (induction cs arbitrary: fds) (simp_all split: option.split)

text \<open>The descriptors an object owns, and that the kernel gives no descriptor that is open.\<close>

definition owned :: "'fd \<Rightarrow> 'fd socket_impl \<Rightarrow> 'fd set" where
  "owned invalid impl = {sk_socket impl} - {invalid}"

fun fresh_for :: "'fd sock_op \<Rightarrow> 'fd set \<Rightarrow> bool" where
  "fresh_for (Op_Create fd err) fds = (fd \<notin> fds)"
| "fresh_for _ fds = True"

text \<open>
  The contract of an implementation: an operation on an object that owns its descriptor makes legal
  calls only and exchanges the descriptor it owns; closing leaves it with none.
\<close>

locale socket_platform =
  fixes invalid :: 'fd and op :: "'fd sock_op \<Rightarrow> 'fd sock_state \<Rightarrow> op_result \<times> 'fd sock_state"
  assumes op_calls: "op x (impl, os) = (r, impl', os') \<Longrightarrow> owned invalid impl \<subseteq> os_open os \<Longrightarrow>
      fresh_for x (os_open os - owned invalid impl) \<Longrightarrow>
      \<exists>cs. os_calls os' = os_calls os @ cs \<and> legal_calls invalid cs (os_open os) = Some (os_open os')"
    and op_owned: "op x (impl, os) = (r, impl', os') \<Longrightarrow> owned invalid impl \<subseteq> os_open os \<Longrightarrow>
      os_open os' = os_open os - owned invalid impl \<union> owned invalid impl'"
    and op_fresh: "op x (impl, os) = (r, impl', os') \<Longrightarrow> owned invalid impl \<subseteq> os_open os \<Longrightarrow>
      fresh_for x (os_open os - owned invalid impl) \<Longrightarrow> 
      owned invalid impl' \<inter> (os_open os - owned invalid impl) = {}"
    and op_close: "op Op_Close (impl, os) = (r, impl', os') \<Longrightarrow> owned invalid impl' = {}"

lemmas unix_defs = unix_Create_def unix_Bind_def unix_SetReuseAddress_def unix_SendTo_def unix_ReceiveFrom_def
  unix_ReceiveFromTimeout_def unix_Close_def SetLastError_def call_os_def owned_def

lemmas win_defs = win_Create_def win_Bind_def win_SetReuseAddress_def win_SendTo_def win_ReceiveFrom_def
  win_ReceiveFromTimeout_def win_Close_def SetLastError_def call_os_def owned_def

interpretation unix: socket_platform unix_invalid unix_op
proof
  fix x :: "int sock_op" and impl os r impl' os'
  assume run: "unix_op x (impl, os) = (r, impl', os')" and own: "owned unix_invalid impl \<subseteq> os_open os"
  show "os_open os' = os_open os - owned unix_invalid impl \<union> owned unix_invalid impl'"
    using run own
    by (cases x) (auto simp: unix_defs Let_def split: if_splits option.splits prod.splits)
  assume fresh: "fresh_for x (os_open os - owned unix_invalid impl)"
  then show "\<exists>cs. os_calls os' = os_calls os @ cs \<and> legal_calls unix_invalid cs (os_open os) = Some (os_open os')"
    using run own
    by (cases x) (auto simp: unix_defs Let_def split: if_splits option.splits prod.splits)
  show "owned unix_invalid impl' \<inter> (os_open os - owned unix_invalid impl) = {}"
    using run own fresh
    by (cases x) (auto simp: unix_defs Let_def split: if_splits option.splits prod.splits)
next
  show "owned unix_invalid impl' = {}" if "unix_op Op_Close (impl, os) = (r, impl', os')" for impl os r impl' os'
    using that by (auto simp: unix_defs split: if_splits)
qed

interpretation win: socket_platform win_invalid win_op
proof
  fix x :: "handle sock_op" and impl os r impl' os'
  assume run: "win_op x (impl, os) = (r, impl', os')" and own: "owned win_invalid impl \<subseteq> os_open os"
  show "os_open os' = os_open os - owned win_invalid impl \<union> owned win_invalid impl'"
    using run own
    by (cases x) (auto simp: win_defs Let_def split: if_splits option.splits prod.splits)
  assume fresh: "fresh_for x (os_open os - owned win_invalid impl)"
  then show "\<exists>cs. os_calls os' = os_calls os @ cs \<and> legal_calls win_invalid cs (os_open os) = Some (os_open os')"
    using run own
    by (cases x) (auto simp: win_defs Let_def split: if_splits option.splits prod.splits)
  show "owned win_invalid impl' \<inter> (os_open os - owned win_invalid impl) = {}"
    using run own fresh
    by (cases x) (auto simp: win_defs Let_def split: if_splits option.splits prod.splits)
next
  show "owned win_invalid impl' = {}" if "win_op Op_Close (impl, os) = (r, impl', os')" for impl os r impl' os'
    using that by (auto simp: win_defs split: if_splits)
qed

subsection \<open>The two implementations agree\<close>

text \<open>
  The state of one platform with its descriptors renamed, and operations whose sizes fit an \<^verbatim>\<open>int\<close> and
  whose buffers hold the datagram that arrives.
\<close>

definition rename_impl :: "('a \<Rightarrow> 'b) \<Rightarrow> 'a socket_impl \<Rightarrow> 'b socket_impl" where
  "rename_impl h impl = \<lparr>sk_socket = h (sk_socket impl), sk_last_error = sk_last_error impl\<rparr>"

definition rename_os :: "('a \<Rightarrow> 'b) \<Rightarrow> 'a os \<Rightarrow> 'b os" where
  "rename_os h os = \<lparr>os_open = h ` os_open os, os_calls = map (map_syscall h) (os_calls os)\<rparr>"

definition rename_state :: "('a \<Rightarrow> 'b) \<Rightarrow> 'a sock_state \<Rightarrow> 'b sock_state" where
  "rename_state h s = (rename_impl h (fst s), rename_os h (snd s))"

fun int_sized :: "'fd sock_op \<Rightarrow> bool" where
  "int_sized (Op_SendTo data addr sent err) =
     ((case data of None \<Rightarrow> True | Some bytes \<Rightarrow> length bytes < 2 ^ 31) \<and> sent < 2 ^ 31)"
| "int_sized (Op_ReceiveFrom buf addr a err) =
     (case buf of None \<Rightarrow> True | Some n \<Rightarrow> n < 2 ^ 31 \<and> pred_option (\<lambda>d. length (snd d) \<le> n) a)"
| "int_sized (Op_ReceiveFromTimeout buf addr t r a err) =
     (case buf of None \<Rightarrow> True | Some n \<Rightarrow> n < 2 ^ 31 \<and> pred_option (\<lambda>d. length (snd d) \<le> n) a)"
| "int_sized _ = True"

fun run_ops :: "('fd sock_op \<Rightarrow> 'fd sock_state \<Rightarrow> op_result \<times> 'fd sock_state) \<Rightarrow> 'fd sock_op list \<Rightarrow>
    'fd sock_state \<Rightarrow> op_result list \<times> 'fd sock_state" where
  "run_ops op [] s = ([], s)"
| "run_ops op (x # xs) s = (let (r, s1) = op x s; (rs, s2) = run_ops op xs s1 in (r # rs, s2))"

lemma cast_int_small: "- (2 ^ 31) \<le> n \<Longrightarrow> n < 2 ^ 31 \<Longrightarrow> cast_int n = n"
  by (simp add: cast_int_def)

definition descriptors :: "int sock_state \<Rightarrow> int set" where
  "descriptors s = insert (sk_socket (fst s)) (os_open (snd s))"

lemma rename_simps:
  "sk_socket (rename_impl h impl) = h (sk_socket impl)"
  "rename_impl h (impl\<lparr>sk_socket := fd\<rparr>) = (rename_impl h impl)\<lparr>sk_socket := h fd\<rparr>"
  "rename_impl h (SetLastError e impl) = SetLastError e (rename_impl h impl)"
  "rename_os h (call_os c os) = call_os (map_syscall h c) (rename_os h os)"
  "rename_os h (os\<lparr>os_open := fds\<rparr>) = (rename_os h os)\<lparr>os_open := h ` fds\<rparr>"
  "os_open (rename_os h os) = h ` os_open os"
  "os_open (call_os c os) = os_open os"
  by (simp_all add: rename_impl_def rename_os_def SetLastError_def call_os_def)

lemma win_op_eq:
  assumes h: "inj_on h D" "h unix_invalid = win_invalid" "unix_invalid \<in> D" and "descriptors s \<subseteq> D"
    and "set_sock_op x \<subseteq> D" and "int_sized x"
  shows "win_op (map_sock_op h x) (rename_state h s) = apsnd (rename_state h) (unix_op x s)"
    and "descriptors (snd (unix_op x s)) \<subseteq> D"
proof -
  obtain impl os where s: "s = (impl, os)"
    by (cases s)
  have D: "sk_socket impl \<in> D" "os_open os \<subseteq> D"
    using assms(4) by (auto simp: descriptors_def s)
  have eq: "h fd = win_invalid \<longleftrightarrow> fd = unix_invalid" if "fd \<in> D" for fd
    using h that by (metis inj_on_eq_iff)
  have del: "h ` (os_open os - {sk_socket impl}) = h ` os_open os - {h (sk_socket impl)}"
    using inj_on_image_set_diff [OF h(1), of "os_open os" "{sk_socket impl}"] D by auto
  note facts = s rename_state_def rename_simps eq [OF D(1)] del h(2) Let_def cast_int_small
  show "win_op (map_sock_op h x) (rename_state h s) = apsnd (rename_state h) (unix_op x s)"
    using assms(5,6) eq
    by (cases x) (auto simp: facts
        unix_Create_def unix_Bind_def unix_SetReuseAddress_def unix_SendTo_def unix_ReceiveFrom_def
        unix_ReceiveFromTimeout_def unix_Close_def win_Create_def win_Bind_def win_SetReuseAddress_def win_SendTo_def
        win_ReceiveFrom_def win_ReceiveFromTimeout_def win_Close_def split: option.splits prod.splits)
  show "descriptors (snd (unix_op x s)) \<subseteq> D"
    using assms(5) D h(3)
    by (cases x) (auto simp: s descriptors_def unix_defs Let_def split: option.splits prod.splits if_splits)
qed

lemma run_ops_agree:
  assumes "inj_on h D" and "h unix_invalid = win_invalid" and "unix_invalid \<in> D" and "descriptors s \<subseteq> D"
    and "\<Union> (set_sock_op ` set xs) \<subseteq> D" and "list_all int_sized xs"
  shows "run_ops win_op (map (map_sock_op h) xs) (rename_state h s) =
    apsnd (rename_state h) (run_ops unix_op xs s)"
  using assms(4-6)
proof (induction xs arbitrary: s)
  case (Cons x xs)
  obtain r s1 where op: "unix_op x s = (r, s1)"
    by (cases "unix_op x s")
  have "win_op (map_sock_op h x) (rename_state h s) = (r, rename_state h s1)" "descriptors s1 \<subseteq> D"
    using win_op_eq [OF assms(1-3) Cons.prems(1), of x] Cons.prems(2,3) op by auto
  then show ?case
    using Cons.IH [of s1] Cons.prems(2,3) op by (simp add: case_prod_beta)
qed simp

text \<open>
  C25. Both implementations of the socket behave alike as long as no datagram is longer than the buffer
  it is received into: with the descriptors of one platform renamed to those of the other, such that
  the invalid ones correspond, every sequence of such operations whose sizes are below 2 to the power of
  31 gives the same results, the same error texts, the same open descriptors and the same system calls.
  A longer datagram is where they differ: on a valid socket Unix returns its first part, Windows an error.
\<close>

theorem platforms_agree:
  assumes "inj_on h D" and "h unix_invalid = win_invalid" and "unix_invalid \<in> D" and "descriptors s \<subseteq> D"
    and "\<Union> (set_sock_op ` set xs) \<subseteq> D" and "list_all int_sized xs"
  shows "run_ops win_op (map (map_sock_op h) xs) (rename_state h s) =
      apsnd (rename_state h) (run_ops unix_op xs s) \<and>
    (unix_IsValid impl \<and> win_IsValid impl' \<and> 0 < n \<and> n < 2 ^ 31 \<and> n < length bytes \<longrightarrow>
      fst (unix_op (Op_ReceiveFrom (Some n) a (Some (from, bytes)) err) (impl, os)) = Ret_reception (int n, take n bytes, from) \<and>
      fst (win_op (Op_ReceiveFrom (Some n) a (Some (from, bytes)) err) (impl', os')) = Ret_reception (-1, take n bytes, from))"
proof (intro conjI impI)
  show "run_ops win_op (map (map_sock_op h) xs) (rename_state h s) = apsnd (rename_state h) (run_ops unix_op xs s)"
    by (rule run_ops_agree [OF assms])
  assume "unix_IsValid impl \<and> win_IsValid impl' \<and> 0 < n \<and> n < 2 ^ 31 \<and> n < length bytes"
  then show "fst (unix_op (Op_ReceiveFrom (Some n) a (Some (from, bytes)) err) (impl, os)) = Ret_reception (int n, take n bytes, from)"
    and "fst (win_op (Op_ReceiveFrom (Some n) a (Some (from, bytes)) err) (impl', os')) = Ret_reception (-1, take n bytes, from)"
    by (simp_all add: unix_ReceiveFrom_def win_ReceiveFrom_def unix_IsValid_def win_IsValid_def Let_def cast_int_small)
qed

theorem platforms_agree_witness:
  "fst (run_ops win_op [Op_Create 5 [], Op_Close] (rename_state word_of_int (unix_new, \<lparr>os_open = {}, os_calls = []\<rparr>))) =
   fst (run_ops unix_op [Op_Create 5 [], Op_Close] (unix_new, \<lparr>os_open = {}, os_calls = []\<rparr>))"
proof -
  have "inj_on (word_of_int :: int \<Rightarrow> handle) {-1, 5}"
    by (simp add: inj_on_def)
  then show ?thesis
    using platforms_agree [of word_of_int "{-1, 5}" "(unix_new, \<lparr>os_open = {}, os_calls = []\<rparr>)" "[Op_Create 5 [], Op_Close]"]
    by (simp add: unix_invalid_def win_invalid_def descriptors_def unix_new_def case_prod_beta)
qed

end
