(* ===== verification/Tftp_Socket.thy ===== *)
theory Tftp_Socket
  imports Tftp_Socket_Impl
begin

section \<open>Sockets\<close>

text \<open>
  \<^verbatim>\<open>UdpSocket\<close>, the library functions and \<^verbatim>\<open>SocketLibraryGuard\<close> of \<^verbatim>\<open>include/tftp/tftp_socket.h\<close> and
  \<^verbatim>\<open>src/tftp_socket.cpp\<close>. A socket owns its implementation through a pointer, which is null once it
  was moved from; a call then dereferences null (\<open>None\<close>). The implementation of the platform is a
  parameter, as it is chosen when the library is built.
\<close>

type_synonym 'fd udp_socket = "'fd socket_impl option"
type_synonym 'fd platform_op = "'fd sock_op \<Rightarrow> 'fd sock_state \<Rightarrow> op_result \<times> 'fd sock_state"

definition UdpSocket_new :: "'fd \<Rightarrow> 'fd udp_socket" where
  "UdpSocket_new invalid = Some \<lparr>sk_socket = invalid, sk_last_error = []\<rparr>"

definition UdpSocket_destroy :: "'fd platform_op \<Rightarrow> 'fd udp_socket \<Rightarrow> 'fd os \<Rightarrow> 'fd os" where
  "UdpSocket_destroy op this os = (case this of
       None \<Rightarrow> os | Some impl \<Rightarrow> snd (snd (op Op_Close (impl, os))))"

text \<open>The new object and what is left in the other one; the assignment is for two different objects.\<close>

definition UdpSocket_move :: "'fd udp_socket \<Rightarrow> 'fd udp_socket \<times> 'fd udp_socket" where
  "UdpSocket_move other = (other, None)"

definition UdpSocket_move_assign ::
  "'fd platform_op \<Rightarrow> 'fd udp_socket \<Rightarrow> 'fd udp_socket \<Rightarrow> 'fd os \<Rightarrow> 'fd udp_socket \<times> 'fd udp_socket \<times> 'fd os" where
  "UdpSocket_move_assign op this other os = (other, None, UdpSocket_destroy op this os)"

text \<open>The member functions from \<^verbatim>\<open>Create\<close> to \<^verbatim>\<open>Close\<close>, which forward to the implementation.\<close>

definition UdpSocket_call ::
  "'fd platform_op \<Rightarrow> 'fd sock_op \<Rightarrow> 'fd udp_socket \<Rightarrow> 'fd os \<Rightarrow> (op_result \<times> 'fd udp_socket \<times> 'fd os) option" where
  "UdpSocket_call op x this os = (case this of
       None \<Rightarrow> None
     | Some impl \<Rightarrow> (let (r, impl', os') = op x (impl, os) in Some (r, Some impl', os')))"

definition UdpSocket_IsValid :: "'fd \<Rightarrow> 'fd udp_socket \<Rightarrow> bool option" where
  "UdpSocket_IsValid invalid this = map_option (\<lambda>impl. sk_socket impl \<noteq> invalid) this"

definition UdpSocket_GetLastError :: "'fd udp_socket \<Rightarrow> string option" where
  "UdpSocket_GetLastError this = map_option sk_last_error this"

definition UdpSocket_GetNativeHandle :: "'fd udp_socket \<Rightarrow> 'fd option" where
  "UdpSocket_GetNativeHandle this = map_option sk_socket this"

subsection \<open>Programs with several sockets\<close>

text \<open>
  The objects that exist, by a number, and the steps of a program: construct an object, call a member
  function, move and destroy. The kernel returns only descriptors that are not open.
\<close>

record 'fd udp_state =
  us_objects :: "nat \<rightharpoonup> 'fd udp_socket"
  us_os :: "'fd os"

datatype 'fd udp_action =
    Construct nat | Calls nat "'fd sock_op" | Move_construct nat nat | Move_assign nat nat | Destroy nat

definition holding :: "'fd \<Rightarrow> 'fd udp_state \<Rightarrow> nat \<Rightarrow> 'fd set" where
  "holding invalid st i = (case us_objects st i of Some (Some impl) \<Rightarrow> owned invalid impl | _ \<Rightarrow> {})"

inductive udp_step ::
  "'fd \<Rightarrow> 'fd platform_op \<Rightarrow> 'fd udp_state \<Rightarrow> 'fd udp_action \<Rightarrow> 'fd udp_state \<Rightarrow> bool" for invalid op where
  construct: "us_objects st i = None \<Longrightarrow>
    udp_step invalid op st (Construct i) (st\<lparr>us_objects := (us_objects st)(i \<mapsto> UdpSocket_new invalid)\<rparr>)"
| calls: "us_objects st i = Some this \<Longrightarrow> UdpSocket_call op x this (us_os st) = Some (r, this', os') \<Longrightarrow>
    fresh_for x (os_open (us_os st) - holding invalid st i) \<Longrightarrow>
    udp_step invalid op st (Calls i x) (st\<lparr>us_objects := (us_objects st)(i \<mapsto> this'), us_os := os'\<rparr>)"
| move_construct: "us_objects st i = None \<Longrightarrow> us_objects st j = Some other \<Longrightarrow>
    UdpSocket_move other = (this', other') \<Longrightarrow>
    udp_step invalid op st (Move_construct i j) (st\<lparr>us_objects := (us_objects st)(j \<mapsto> other', i \<mapsto> this')\<rparr>)"
| move_assign: "i \<noteq> j \<Longrightarrow> us_objects st i = Some this \<Longrightarrow> us_objects st j = Some other \<Longrightarrow>
    UdpSocket_move_assign op this other (us_os st) = (this', other', os') \<Longrightarrow>
    udp_step invalid op st (Move_assign i j) (st\<lparr>us_objects := (us_objects st)(j \<mapsto> other', i \<mapsto> this'), us_os := os'\<rparr>)"
| destroy: "us_objects st i = Some this \<Longrightarrow>
    udp_step invalid op st (Destroy i)
      (st\<lparr>us_objects := (us_objects st)(i := None), us_os := UdpSocket_destroy op this (us_os st)\<rparr>)"

definition udp_init :: "'fd udp_state \<Rightarrow> bool" where
  "udp_init st = (st = \<lparr>us_objects = (\<lambda>i. None), us_os = \<lparr>os_open = {}, os_calls = []\<rparr>\<rparr>)"

text \<open>Every open descriptor is owned by exactly one object, and the calls made so far are legal.\<close>

definition partitioned :: "(nat \<Rightarrow> 'fd set) \<Rightarrow> 'fd set \<Rightarrow> bool" where
  "partitioned own fds = (fds = (\<Union>i. own i) \<and> (\<forall>i j. i \<noteq> j \<longrightarrow> own i \<inter> own j = {}))"

definition udp_inv :: "'fd \<Rightarrow> 'fd udp_state \<Rightarrow> bool" where
  "udp_inv invalid st = (partitioned (holding invalid st) (os_open (us_os st)) \<and>
     legal_calls invalid (os_calls (us_os st)) {} = Some (os_open (us_os st)))"

lemma partitioned_update:
  assumes "partitioned own fds" and "A \<inter> (fds - own i) = {}"
  shows "partitioned (own(i := A)) (fds - own i \<union> A)"
  unfolding partitioned_def
proof
  have own: "fds = (\<Union>i. own i)" "\<And>i j. i \<noteq> j \<Longrightarrow> own i \<inter> own j = {}"
    using assms(1) by (auto simp: partitioned_def)
  have rest: "own k \<subseteq> fds - own i" if "k \<noteq> i" for k
    using own that by blast
  show "fds - own i \<union> A = (\<Union>k. (own(i := A)) k)"
  proof
    show "fds - own i \<union> A \<subseteq> (\<Union>k. (own(i := A)) k)"
      using own(1) by (auto split: if_splits)
    show "(\<Union>k. (own(i := A)) k) \<subseteq> fds - own i \<union> A"
      using rest by (auto split: if_splits)
  qed
  show "\<forall>k j. k \<noteq> j \<longrightarrow> (own(i := A)) k \<inter> (own(i := A)) j = {}"
  proof (intro allI impI)
    fix k j :: nat
    assume "k \<noteq> j"
    then consider "k = i" "j \<noteq> i" | "j = i" "k \<noteq> i" | "k \<noteq> i" "j \<noteq> i"
      by blast
    then show "(own(i := A)) k \<inter> (own(i := A)) j = {}"
    proof cases
      case 3
      then show ?thesis
        using own(2) [OF \<open>k \<noteq> j\<close>] by simp
    qed (use rest assms(2) in fastforce)+
  qed
qed

lemma partitioned_swap:
  assumes "partitioned own fds" and "own i = {}" and "i \<noteq> j"
  shows "partitioned (own(j := {}, i := own j)) fds"
proof -
  have "fds - own j \<union> {} - {} \<union> own j = fds"
    using assms(1) by (auto simp: partitioned_def)
  moreover have "partitioned (own(j := {})) (fds - own j \<union> {})"
    by (rule partitioned_update [OF assms(1)]) simp
  ultimately show ?thesis
    using partitioned_update [of "own(j := {})" "fds - own j" "own j" i] assms(2,3) by auto
qed

context socket_platform
begin

lemma owned_invalid [simp]: "owned invalid \<lparr>sk_socket = invalid, sk_last_error = e\<rparr> = {}"
  by (simp add: owned_def)

lemma op_keeps:
  assumes "udp_inv invalid st" and "us_objects st i = Some (Some impl)"
    and "op x (impl, us_os st) = (r, impl', os')" and "fresh_for x (os_open (us_os st) - owned invalid impl)"
  shows "partitioned ((holding invalid st)(i := owned invalid impl')) (os_open os') \<and>
    legal_calls invalid (os_calls os') {} = Some (os_open os')"
proof -
  let ?os = "us_os st"
  have part: "partitioned (holding invalid st) (os_open ?os)" and legal: "legal_calls invalid (os_calls ?os) {} = Some (os_open ?os)"
    using assms(1) by (simp_all add: udp_inv_def)
  have hold: "holding invalid st i = owned invalid impl"
    using assms(2) by (simp add: holding_def)
  then have own: "owned invalid impl \<subseteq> os_open ?os"
    using part by (auto simp: partitioned_def)
  obtain cs where "os_calls os' = os_calls ?os @ cs" "legal_calls invalid cs (os_open ?os) = Some (os_open os')"
    using op_calls [OF assms(3) own assms(4)] by blast
  then have "legal_calls invalid (os_calls os') {} = Some (os_open os')"
    by (simp add: legal_calls_append legal)
  moreover have "partitioned ((holding invalid st)(i := owned invalid impl')) (os_open os')"
    using partitioned_update [OF part, of "owned invalid impl'" i] op_owned [OF assms(3) own]
      op_fresh [OF assms(3) own assms(4)]
    by (simp add: hold)
  ultimately show ?thesis
    by blast
qed

lemma holding_update:
  "holding invalid (st\<lparr>us_objects := (us_objects st)(i := v), us_os := os\<rparr>) =
   (holding invalid st)(i := (case v of Some (Some impl) \<Rightarrow> owned invalid impl | _ \<Rightarrow> {}))"
  by (rule ext) (simp add: holding_def)

lemma destroy_keeps:
  assumes "udp_inv invalid st" and "us_objects st i = Some this" and "v = None \<or> v = Some None"
  shows "udp_inv invalid (st\<lparr>us_objects := (us_objects st)(i := v), us_os := UdpSocket_destroy op this (us_os st)\<rparr>)"
proof (cases this)
  case None
  then have "(holding invalid st)(i := {}) = holding invalid st"
    using assms(2) by (intro ext) (simp add: holding_def)
  then show ?thesis
    using assms(1,3) None holding_update [where st = st and i = i and v = v and os = "us_os st"]
    by (auto simp: udp_inv_def UdpSocket_destroy_def)
next
  case (Some impl)
  obtain r impl' os' where op: "op Op_Close (impl, us_os st) = (r, impl', os')"
    by (cases "op Op_Close (impl, us_os st)") auto
  then have "owned invalid impl' = {}" "UdpSocket_destroy op this (us_os st) = os'"
    using op_close by (auto simp: UdpSocket_destroy_def Some)
  then show ?thesis
    using op_keeps [OF assms(1) assms(2) [unfolded Some] op] assms(3) holding_update [where st = st and i = i and v = v and os = os']
    by (auto simp: udp_inv_def)
qed

lemma move_keeps:
  assumes "udp_inv invalid st" and "holding invalid st i = {}" and "us_objects st j = Some other" and "i \<noteq> j"
  shows "udp_inv invalid (st\<lparr>us_objects := (us_objects st)(j \<mapsto> None, i \<mapsto> other)\<rparr>)"
proof -
  have "holding invalid (st\<lparr>us_objects := (us_objects st)(j \<mapsto> None, i \<mapsto> other)\<rparr>) =
      (holding invalid st)(j := {}, i := holding invalid st j)"
    using assms(3,4) by (intro ext) (simp add: holding_def)
  then show ?thesis
    using assms(1) partitioned_swap [of "holding invalid st" _ i j] assms(2,4) by (simp add: udp_inv_def)
qed

lemma udp_inv_step:
  assumes "udp_inv invalid st" and "udp_step invalid op st a st'"
  shows "udp_inv invalid st'"
  using assms(2)
proof cases
  case (construct i)
  then have "(holding invalid st)(i := {}) = holding invalid st"
    by (intro ext) (simp add: holding_def)
  then show ?thesis
    using construct assms(1) holding_update [where st = st and i = i and v = "Some (UdpSocket_new invalid)" and os = "us_os st"]
    by (simp add: udp_inv_def UdpSocket_new_def)
next
  case (calls i this x r this' os')
  then obtain impl impl' where impl: "this = Some impl" "this' = Some impl'" "op x (impl, us_os st) = (r, impl', os')"
    by (auto simp: UdpSocket_call_def split: option.splits prod.splits)
  moreover have "holding invalid st i = owned invalid impl"
    using calls(3) impl(1) by (simp add: holding_def)
  ultimately show ?thesis
    using op_keeps [OF assms(1), of i impl x r impl' os'] calls holding_update [where st = st and i = i and v = "Some this'" and os = os']
    by (simp add: udp_inv_def)
next
  case (move_construct i j other this' other')
  then have "i \<noteq> j"
    by auto
  then show ?thesis
    using move_construct move_keeps [OF assms(1), of i j other] by (auto simp: UdpSocket_move_def holding_def)
next
  case (move_assign i j this other this' other' os')
  let ?st1 = "st\<lparr>us_objects := (us_objects st)(i := Some None), us_os := UdpSocket_destroy op this (us_os st)\<rparr>"
  have "udp_inv invalid ?st1"
    using destroy_keeps [OF assms(1) move_assign(4), of "Some None"] by simp
  moreover have "holding invalid ?st1 i = {}" "us_objects ?st1 j = Some other"
    using move_assign by (simp_all add: holding_def)
  ultimately have "udp_inv invalid (?st1\<lparr>us_objects := (us_objects ?st1)(j \<mapsto> None, i \<mapsto> other)\<rparr>)"
    using move_keeps [of ?st1 i j other] move_assign(3) by blast
  moreover have "st' = ?st1\<lparr>us_objects := (us_objects ?st1)(j \<mapsto> None, i \<mapsto> other)\<rparr>"
    using move_assign by (cases st) (auto simp: UdpSocket_move_assign_def fun_upd_twist)
  ultimately show ?thesis
    by simp
next
  case (destroy i this)
  then show ?thesis
    using destroy_keeps [OF assms(1), of i this None] by simp
qed

lemma udp_inv_init: "udp_init st \<Longrightarrow> udp_inv invalid st"
  by (simp add: udp_init_def udp_inv_def partitioned_def holding_def)

end

sublocale socket_platform \<subseteq> udp: invariant_system udp_init "udp_step invalid op" "udp_inv invalid"
  by standard (auto intro: udp_inv_init udp_inv_step)

subsection \<open>The socket library\<close>

text \<open>
  \<^verbatim>\<open>InitializeSocketLibrary\<close>, \<^verbatim>\<open>CleanupSocketLibrary\<close> and the guard, with the number of successful calls
  of \<^verbatim>\<open>WSAStartup\<close> that are not yet undone; the result of \<^verbatim>\<open>WSAStartup\<close> is a parameter.
\<close>

datatype build_target = Unix | Win32

definition InitializeSocketLibrary :: "build_target \<Rightarrow> int \<Rightarrow> nat \<Rightarrow> bool \<times> nat" where
  "InitializeSocketLibrary target result startups = (case target of
       Win32 \<Rightarrow> if result \<noteq> 0 then (False, startups) else (True, Suc startups)
     | Unix \<Rightarrow> (True, startups))"

definition CleanupSocketLibrary :: "build_target \<Rightarrow> nat \<Rightarrow> nat" where
  "CleanupSocketLibrary target startups = (case target of Win32 \<Rightarrow> startups - 1 | Unix \<Rightarrow> startups)"

definition SocketLibraryGuard_new :: "build_target \<Rightarrow> int \<Rightarrow> nat \<Rightarrow> bool \<times> nat" where
  "SocketLibraryGuard_new target result startups = InitializeSocketLibrary target result startups"

definition SocketLibraryGuard_destroy :: "build_target \<Rightarrow> bool \<Rightarrow> nat \<Rightarrow> nat" where
  "SocketLibraryGuard_destroy target initialized startups =
     (if initialized then CleanupSocketLibrary target startups else startups)"

definition SocketLibraryGuard_IsInitialized :: "bool \<Rightarrow> bool" where
  "SocketLibraryGuard_IsInitialized initialized = initialized"

lemma guard_balanced:
  "SocketLibraryGuard_new target result startups = (initialized, startups') \<Longrightarrow>
   SocketLibraryGuard_destroy target initialized startups' = startups"
  by (auto simp: SocketLibraryGuard_new_def SocketLibraryGuard_destroy_def InitializeSocketLibrary_def
      CleanupSocketLibrary_def split: build_target.splits if_splits)

subsection \<open>Properties\<close>

text \<open>
  The descriptors are clean: the calls made so far are legal, every open descriptor belongs to a valid
  socket object and the other way round, no two objects share one, and once all objects are gone
  nothing is open.
\<close>

definition descriptors_clean :: "'fd \<Rightarrow> 'fd udp_state \<Rightarrow> bool" where
  "descriptors_clean invalid st =
     (legal_calls invalid (os_calls (us_os st)) {} = Some (os_open (us_os st)) \<and>
      (\<forall>fd. fd \<in> os_open (us_os st) \<longleftrightarrow> fd \<noteq> invalid \<and>
        (\<exists>!i. \<exists>impl. us_objects st i = Some (Some impl) \<and> sk_socket impl = fd)) \<and>
      (us_objects st = (\<lambda>i. None) \<longrightarrow> os_open (us_os st) = {}))"

lemma udp_inv_clean:
  assumes "udp_inv invalid st"
  shows "descriptors_clean invalid st"
proof -
  have open_iff: "fd \<in> os_open (us_os st) \<longleftrightarrow> (\<exists>i. fd \<in> holding invalid st i)" for fd
    using assms by (auto simp: udp_inv_def partitioned_def)
  have hold: "fd \<in> holding invalid st i \<longleftrightarrow>
      fd \<noteq> invalid \<and> (\<exists>impl. us_objects st i = Some (Some impl) \<and> sk_socket impl = fd)" for fd i
    by (auto simp: holding_def owned_def split: option.splits)
  have unique: "i = j" if "fd \<in> holding invalid st i" "fd \<in> holding invalid st j" for fd i j
    using assms that by (auto simp: udp_inv_def partitioned_def)
  have "fd \<in> os_open (us_os st) \<longleftrightarrow> (\<exists>!i. fd \<in> holding invalid st i)" for fd
    using open_iff unique by blast
  then have "fd \<in> os_open (us_os st) \<longleftrightarrow> fd \<noteq> invalid \<and>
      (\<exists>!i. \<exists>impl. us_objects st i = Some (Some impl) \<and> sk_socket impl = fd)" for fd
    unfolding hold by blast
  then show ?thesis
    using assms by (auto simp: descriptors_clean_def udp_inv_def)
qed

text \<open>
  C24. Sockets are neither leaked nor closed twice: whatever sequence of constructions, calls, moves
  and destructions a program makes, on either platform, every system call is made on a descriptor
  that is open, each open descriptor is owned by exactly one socket object, and when all objects are
  destroyed no descriptor is open.
\<close>

theorem sockets_never_leak:
  assumes "reach udp_init (udp_step unix_invalid unix_op) st" and "reach udp_init (udp_step win_invalid win_op) st'"
  shows "descriptors_clean unix_invalid st \<and> descriptors_clean win_invalid st'"
  using udp_inv_clean [OF unix.udp.reach_inv [OF assms(1)]] udp_inv_clean [OF win.udp.reach_inv [OF assms(2)]]
  by blast

definition udp_empty :: "'fd udp_state" where
  "udp_empty = \<lparr>us_objects = (\<lambda>i. None), us_os = \<lparr>os_open = {}, os_calls = []\<rparr>\<rparr>"

theorem sockets_never_leak_witness:
  "\<exists>st. run (udp_step unix_invalid unix_op) udp_empty
     [Construct 0, Calls 0 (Op_Create 3 []), Move_construct 1 0, Destroy 0] st \<and>
     os_open (us_os st) = {3} \<and> descriptors_clean unix_invalid st"
proof -
  let ?impl = "\<lparr>sk_socket = 3, sk_last_error = []\<rparr> :: int socket_impl"
  let ?os = "\<lparr>os_open = {3}, os_calls = [Sys_socket 3]\<rparr>"
  let ?step = "udp_step unix_invalid unix_op"
  let ?st0 = "udp_empty\<lparr>us_objects := (us_objects udp_empty)(0 \<mapsto> UdpSocket_new unix_invalid)\<rparr>"
  let ?st1 = "?st0\<lparr>us_objects := (us_objects ?st0)(0 \<mapsto> Some ?impl), us_os := ?os\<rparr>"
  let ?st2 = "?st1\<lparr>us_objects := (us_objects ?st1)(0 \<mapsto> None, 1 \<mapsto> Some ?impl)\<rparr>"
  let ?st3 = "?st2\<lparr>us_objects := (us_objects ?st2)(0 := None), us_os := UdpSocket_destroy unix_op None (us_os ?st2)\<rparr>"
  have "?step udp_empty (Construct 0) ?st0"
    by (rule udp_step.construct) (simp add: udp_empty_def)
  moreover have "?step ?st0 (Calls 0 (Op_Create 3 [])) ?st1"
    by (rule udp_step.calls [where this = "UdpSocket_new unix_invalid" and r = "Ret_bool True"])
      (simp_all add: UdpSocket_call_def UdpSocket_new_def unix_defs unix_invalid_def udp_empty_def)
  moreover have "?step ?st1 (Move_construct 1 0) ?st2"
    by (rule udp_step.move_construct [where other = "Some ?impl"]) (simp_all add: UdpSocket_move_def udp_empty_def)
  moreover have "?step ?st2 (Destroy 0) ?st3"
    by (rule udp_step.destroy) simp
  ultimately have run: "run ?step udp_empty [Construct 0, Calls 0 (Op_Create 3 []), Move_construct 1 0, Destroy 0] ?st3"
    by (simp only: run_simps) blast
  moreover have start: "reach udp_init ?step udp_empty" "reach udp_init (udp_step win_invalid win_op) udp_empty"
    by (rule reach_init, simp add: udp_init_def udp_empty_def)+
  ultimately have "descriptors_clean unix_invalid ?st3"
    using sockets_never_leak [OF unix.udp.reach_run [OF run start(1)] start(2)] by blast
  moreover have "os_open (us_os ?st3) = {3}"
    by (simp add: UdpSocket_destroy_def)
  ultimately show ?thesis
    using run by blast
qed

lemma c_div_nonneg:
  assumes "0 \<le> t"
  shows "c_div t 1000 = t div 1000" and "c_mod t 1000 = t mod 1000"
proof -
  show "c_div t 1000 = t div 1000"
    using assms by (cases "t = 0") (simp_all add: c_div_def)
  then show "c_mod t 1000 = t mod 1000"
    by (simp add: c_mod_def minus_div_mult_eq_mod)
qed

lemma timeval_normal:
  fixes t :: int
  assumes "0 \<le> t"
  shows "t div 1000 * 1000000 + t mod 1000 * 1000 = t * 1000" and "0 \<le> t div 1000" and "0 \<le> t mod 1000 * 1000"
    and "t mod 1000 * 1000 < 1000000"
proof -
  have "t div 1000 * 1000 + t mod 1000 = t"
    by (rule div_mult_mod_eq)
  then show "t div 1000 * 1000000 + t mod 1000 * 1000 = t * 1000"
    by linarith
qed (use assms in \<open>simp_all add: pos_imp_zdiv_nonneg_iff\<close>)

text \<open>
  C36. What a wait for a datagram returns: on a valid socket with a buffer of a size up to 2 to the
  power of 31, a result below 0 means that \<^verbatim>\<open>select\<close> or \<^verbatim>\<open>recvfrom\<close> failed, and otherwise the result is the
  number of bytes received, which fit the buffer; a result of 0 means a timeout or an empty datagram.
  The timeout is passed on exactly, in normal form, if it is not negative.
\<close>

theorem receive_timeout_contract:
  assumes "unix_IsValid impl" and "0 < n" and "n < 2 ^ 31" and "0 \<le> timeout_ms"
    and "unix_ReceiveFromTimeout (Some n) sender timeout_ms result arrives err (impl, os) = ((ret, bytes, from), impl', os')"
  shows "(ret < 0 \<longleftrightarrow> result < 0 \<or> result > 0 \<and> arrives = None) \<and>
    (0 \<le> ret \<longrightarrow> ret = int (length bytes) \<and> length bytes \<le> n) \<and>
    (ret = 0 \<longleftrightarrow> result = 0 \<or> result > 0 \<and> (\<exists>a. arrives = Some (a, []))) \<and>
    (0 < ret \<longrightarrow> (\<exists>d. arrives = Some (from, d) \<and> bytes = take n d)) \<and>
    (\<exists>sec usec cs. os_calls os' = os_calls os @ Sys_select (sk_socket impl) sec usec # cs \<and>
      sec * 1000000 + usec = timeout_ms * 1000 \<and> 0 \<le> sec \<and> 0 \<le> usec \<and> usec < 1000000) \<and>
    impl' = impl\<lparr>sk_last_error := sk_last_error impl'\<rparr> \<and> os_open os' = os_open os"
proof -
  let ?os1 = "call_os (Sys_select (sk_socket impl) (timeout_ms div 1000) (timeout_ms mod 1000 * 1000)) os"
  have len: "cast_int (int (length (take n d))) = int (length (take n d))" for d :: "byte list"
    using assms(3) by (intro cast_int_small) simp_all
  have valid: "sk_socket impl \<noteq> unix_invalid"
    using assms(1) by (simp add: unix_IsValid_def)
  have run: "(if result < 0 then ((-1, [], sender), SetLastError (''Select failed: '' @ err) impl, ?os1)
      else if result = 0 then ((0, [], sender), SetLastError ''Receive timeout'' impl, ?os1)
      else unix_ReceiveFrom (Some n) sender arrives err (impl, ?os1)) = ((ret, bytes, from), impl', os')"
    using assms(5) valid by (simp add: unix_ReceiveFromTimeout_def Let_def c_div_nonneg [OF assms(4)])
  have select: "\<exists>cs. os_calls os' =
      os_calls os @ Sys_select (sk_socket impl) (timeout_ms div 1000) (timeout_ms mod 1000 * 1000) # cs"
    using run valid assms(2)
    by (auto simp: unix_ReceiveFrom_def call_os_def Let_def split: if_splits option.splits)
  have calls: "\<exists>sec usec cs. os_calls os' = os_calls os @ Sys_select (sk_socket impl) sec usec # cs \<and>
      sec * 1000000 + usec = timeout_ms * 1000 \<and> 0 \<le> sec \<and> 0 \<le> usec \<and> usec < 1000000"
    using select timeval_normal [OF assms(4)] by blast
  consider "result < 0" | "result = 0" | "result > 0" "arrives = None" | a d where "result > 0" "arrives = Some (a, d)"
    by (cases arrives) (force, metis linorder_cases prod.exhaust)
  then show ?thesis
  proof cases
    case 4
    then have "ret = int (length (take n d))" "bytes = take n d" "from = a" "impl' = impl" "os_open os' = os_open os"
      using run valid assms(2) len [of d] by (auto simp: unix_ReceiveFrom_def call_os_def Let_def)
    then show ?thesis
      using 4 calls assms(2) by (cases d; cases n) auto
  qed (use run valid assms(2) calls in \<open>auto simp: unix_ReceiveFrom_def call_os_def SetLastError_def Let_def\<close>)
qed

theorem receive_timeout_contract_witness:
  "\<exists>os'. unix_ReceiveFromTimeout (Some 516) (the (SocketAddress_default Big)) 2500 1
     (Some (the (SocketAddress_default Big), [7, 7])) [] (\<lparr>sk_socket = 3, sk_last_error = []\<rparr>, \<lparr>os_open = {3}, os_calls = []\<rparr>) =
     ((2, [7, 7], the (SocketAddress_default Big)), \<lparr>sk_socket = 3, sk_last_error = []\<rparr>, os') \<and> os_open os' = {3}"
proof -
  let ?a = "the (SocketAddress_default Big)"
  let ?impl = "\<lparr>sk_socket = 3, sk_last_error = []\<rparr> :: int socket_impl"
  let ?os = "\<lparr>os_open = {3}, os_calls = []\<rparr> :: int os"
  have valid: "unix_IsValid ?impl" "0 < (516 :: nat)" "(516 :: nat) < 2 ^ 31" "0 \<le> (2500 :: int)"
    by (simp_all add: unix_IsValid_def unix_invalid_def)
  obtain os' where run: "unix_ReceiveFromTimeout (Some 516) ?a 2500 1 (Some (?a, [7, 7])) [] (?impl, ?os) =
      ((2, [7, 7], ?a), ?impl, os')"
    by (simp add: unix_ReceiveFromTimeout_def unix_ReceiveFrom_def unix_invalid_def Let_def cast_int_def)
  then show ?thesis
    using receive_timeout_contract [OF valid run] by auto
qed

end
