(* ===== verification/Tftp_Socket_Demo.thy ===== *)
theory Tftp_Socket_Demo
  imports Tftp_Socket "HOL-Library.Monad_Syntax"
begin

section \<open>The demonstration of the sockets\<close>

text \<open>
  The program of \<^verbatim>\<open>examples/socket_demo.cpp\<close>: a server that echoes one datagram, a client, and some
  addresses. Console output is left out, but for the addresses that are printed. As in \<^verbatim>\<open>Tftp_Socket\<close>
  the implementation of the platform and the results of system calls are parameters, and a
  dereferenced null pointer is \<open>None\<close>. The state is the number of library start-ups that are not
  undone and the state of the operating system.
\<close>

record 'fd demo_env =
  de_startup :: int      \<comment> \<open>result of \<^verbatim>\<open>WSAStartup\<close>\<close>
  de_fd :: 'fd           \<comment> \<open>result of \<^verbatim>\<open>socket\<close>\<close>
  de_reuse :: int        \<comment> \<open>result of \<^verbatim>\<open>setsockopt\<close>\<close>
  de_bind :: int         \<comment> \<open>result of \<^verbatim>\<open>bind\<close>\<close>
  de_sent :: int         \<comment> \<open>result of \<^verbatim>\<open>sendto\<close>\<close>
  de_polls :: "(int \<times> arrival) list"
    \<comment> \<open>results of \<^verbatim>\<open>select\<close> and \<^verbatim>\<open>recvfrom\<close>, until the time is over\<close>
  de_error :: string

definition demo_address :: "endian \<Rightarrow> (string \<Rightarrow> in_addr option) \<Rightarrow> string \<Rightarrow> uint16 \<Rightarrow> sockaddr_in option" where
  "demo_address e pton ip port = SocketAddress_new e pton ip port \<bind> SocketAddress_GetSockAddr"

text \<open>The loop of the server, while the time is not over.\<close>

fun echo_loop :: "'fd platform_op \<Rightarrow> 'fd demo_env \<Rightarrow> (int \<times> arrival) list \<Rightarrow> sockaddr_in \<Rightarrow> 'fd udp_socket \<Rightarrow> 'fd os \<Rightarrow>
    ('fd udp_socket \<times> 'fd os) option" where
  "echo_loop op env [] client_addr this os = Some (this, os)"
| "echo_loop op env ((result, arrives) # polls) client_addr this os = do {
     (r, this1, os1) \<leftarrow> UdpSocket_call op (Op_ReceiveFromTimeout (Some 1024) client_addr 1000 result arrives (de_error env)) this os;
     case r of
       Ret_reception (received, buffer, from) \<Rightarrow>
         if received > 0 then do {
           (r2, this2, os2) \<leftarrow> UdpSocket_call op (Op_SendTo (Some (bytes_of ''Echo: '' @ buffer)) from (de_sent env) (de_error env)) this1 os1;
           Some (this2, os2) }
         else if received = 0 then echo_loop op env polls from this1 os1
         else Some (this1, os1)
     | _ \<Rightarrow> None }"

text \<open>The part of \<^verbatim>\<open>ServerDemo\<close> between the construction and the destruction of the socket.\<close>

definition server_body :: "'fd platform_op \<Rightarrow> endian \<Rightarrow> (string \<Rightarrow> in_addr option) \<Rightarrow> 'fd demo_env \<Rightarrow>
    'fd udp_socket \<Rightarrow> 'fd os \<Rightarrow> ('fd udp_socket \<times> 'fd os) option" where
  "server_body op e pton env this os = do {
     (r1, this1, os1) \<leftarrow> UdpSocket_call op (Op_Create (de_fd env) (de_error env)) this os;
     if r1 \<noteq> Ret_bool True then Some (this1, os1) else do {
       (r2, this2, os2) \<leftarrow> UdpSocket_call op (Op_SetReuseAddress True (de_reuse env) (de_error env)) this1 os1;
       if r2 \<noteq> Ret_bool True then Some (this2, os2) else do {
         bind_addr \<leftarrow> demo_address e pton ''127.0.0.1'' 6969;
         (r3, this3, os3) \<leftarrow> UdpSocket_call op (Op_Bind bind_addr (de_bind env) (de_error env)) this2 os2;
         if r3 \<noteq> Ret_bool True then Some (this3, os3) else do {
           client_addr \<leftarrow> SocketAddress_GetSockAddr (SocketAddress_default e);
           echo_loop op env (de_polls env) client_addr this3 os3 } } } }"

definition client_body :: "'fd platform_op \<Rightarrow> endian \<Rightarrow> (string \<Rightarrow> in_addr option) \<Rightarrow> 'fd demo_env \<Rightarrow>
    'fd udp_socket \<Rightarrow> 'fd os \<Rightarrow> ('fd udp_socket \<times> 'fd os) option" where
  "client_body op e pton env this os = do {
     (r1, this1, os1) \<leftarrow> UdpSocket_call op (Op_Create (de_fd env) (de_error env)) this os;
     if r1 \<noteq> Ret_bool True then Some (this1, os1) else do {
       server_addr \<leftarrow> demo_address e pton ''127.0.0.1'' 6969;
       (r2, this2, os2) \<leftarrow> UdpSocket_call op
         (Op_SendTo (Some (bytes_of ''Hello from TFTP socket wrapper!'')) server_addr (de_sent env) (de_error env)) this1 os1;
       case r2 of
         Ret_int sent \<Rightarrow>
           if sent > 0 then do {
             response_addr \<leftarrow> SocketAddress_GetSockAddr (SocketAddress_default e);
             let (result, arrives) = (case de_polls env of [] \<Rightarrow> (0, None) | poll # polls \<Rightarrow> poll);
             (r3, this3, os3) \<leftarrow> UdpSocket_call op
               (Op_ReceiveFromTimeout (Some 1024) response_addr 2000 result arrives (de_error env)) this2 os2;
             Some (this3, os3) }
           else Some (this2, os2)
       | _ \<Rightarrow> None } }"

text \<open>
  Both functions: the guard, the socket in its scope, and the destructors in reverse order.
\<close>

definition with_guard :: "'fd platform_op \<Rightarrow> 'fd \<Rightarrow> build_target \<Rightarrow> 'fd demo_env \<Rightarrow>
    ('fd udp_socket \<Rightarrow> 'fd os \<Rightarrow> ('fd udp_socket \<times> 'fd os) option) \<Rightarrow> nat \<times> 'fd os \<Rightarrow> (nat \<times> 'fd os) option" where
  "with_guard op invalid target env body s = (let (startups, os) = s;
       (initialized, startups1) = SocketLibraryGuard_new target (de_startup env) startups in
     if \<not> SocketLibraryGuard_IsInitialized initialized then
       Some (SocketLibraryGuard_destroy target initialized startups1, os)
     else do {
       (this, os1) \<leftarrow> body (UdpSocket_new invalid) os;
       Some (SocketLibraryGuard_destroy target initialized startups1, UdpSocket_destroy op this os1) })"

definition ServerDemo :: "'fd platform_op \<Rightarrow> 'fd \<Rightarrow> build_target \<Rightarrow> endian \<Rightarrow> (string \<Rightarrow> in_addr option) \<Rightarrow> 'fd demo_env \<Rightarrow>
    nat \<times> 'fd os \<Rightarrow> (nat \<times> 'fd os) option" where
  "ServerDemo op invalid target e pton env = with_guard op invalid target env (server_body op e pton env)"

definition ClientDemo :: "'fd platform_op \<Rightarrow> 'fd \<Rightarrow> build_target \<Rightarrow> endian \<Rightarrow> (string \<Rightarrow> in_addr option) \<Rightarrow> 'fd demo_env \<Rightarrow>
    nat \<times> 'fd os \<Rightarrow> (nat \<times> 'fd os) option" where
  "ClientDemo op invalid target e pton env = with_guard op invalid target env (client_body op e pton env)"

text \<open>The addresses that \<^verbatim>\<open>AddressDemo\<close> prints.\<close>

definition printed :: "endian \<Rightarrow> socket_address \<Rightarrow> (string \<times> uint16) option" where
  "printed e a = do { ip \<leftarrow> SocketAddress_GetIP a; port \<leftarrow> SocketAddress_GetPort e a; Some (ip, port) }"

definition AddressDemo :: "endian \<Rightarrow> (string \<Rightarrow> in_addr option) \<Rightarrow> (string \<times> uint16) list option" where
  "AddressDemo e pton = do {
     let addr1 = SocketAddress_default e;
     out1 \<leftarrow> printed e addr1;
     addr2 \<leftarrow> SocketAddress_new e pton ''192.168.1.100'' 8080;
     out2 \<leftarrow> printed e addr2;
     addr2' \<leftarrow> SocketAddress_Set e pton ''10.0.0.1'' 443 addr2;
     out3 \<leftarrow> printed e addr2';
     addr3 \<leftarrow> SocketAddress_copy addr2';
     out4 \<leftarrow> printed e addr3;
     let (addr4, addr3') = SocketAddress_move addr3;
     out5 \<leftarrow> printed e addr4;
     Some [out1, out2, out3, out4, out5] }"

definition socket_demo_main :: "'fd platform_op \<Rightarrow> 'fd \<Rightarrow> build_target \<Rightarrow> endian \<Rightarrow> (string \<Rightarrow> in_addr option) \<Rightarrow>
    'fd demo_env \<Rightarrow> 'fd demo_env \<Rightarrow> nat \<times> 'fd os \<Rightarrow> (int \<times> nat \<times> 'fd os) option" where
  "socket_demo_main op invalid target e pton server_env client_env s = do {
     addresses \<leftarrow> AddressDemo e pton;
     s1 \<leftarrow> ServerDemo op invalid target e pton server_env s;
     s2 \<leftarrow> ClientDemo op invalid target e pton client_env s1;
     Some (0, s2) }"

subsection \<open>A socket in its scope\<close>

text \<open>The socket owns what was opened since \<open>os0\<close>, by legal calls.\<close>

definition scoped :: "'fd \<Rightarrow> 'fd os \<Rightarrow> 'fd udp_socket \<Rightarrow> 'fd os \<Rightarrow> bool" where
  "scoped invalid os0 this os = (\<exists>impl cs. this = Some impl \<and> os_open os = os_open os0 \<union> owned invalid impl \<and>
     owned invalid impl \<inter> os_open os0 = {} \<and> os_calls os = os_calls os0 @ cs \<and>
     legal_calls invalid cs (os_open os0) = Some (os_open os))"

context socket_platform
begin

lemma scoped_new: "scoped invalid os0 (UdpSocket_new invalid) os0"
  by (auto simp: scoped_def UdpSocket_new_def owned_def)

lemma scoped_op:
  assumes "scoped invalid os0 (Some impl) os" and "op x (impl, os) = (r, impl', os')" and "fresh_for x (os_open os0)"
  shows "scoped invalid os0 (Some impl') os'"
proof -
  obtain cs where own: "os_open os = os_open os0 \<union> owned invalid impl" "owned invalid impl \<inter> os_open os0 = {}"
    and cs: "os_calls os = os_calls os0 @ cs" "legal_calls invalid cs (os_open os0) = Some (os_open os)"
    using assms(1) by (auto simp: scoped_def)
  then have sub: "owned invalid impl \<subseteq> os_open os" and diff: "os_open os - owned invalid impl = os_open os0"
    by auto
  obtain ds where "os_calls os' = os_calls os @ ds" "legal_calls invalid ds (os_open os) = Some (os_open os')"
    using op_calls [OF assms(2) sub] assms(3) diff by auto
  then show ?thesis
    using op_owned [OF assms(2) sub] op_fresh [OF assms(2) sub] assms(3) diff cs
    by (auto simp: scoped_def legal_calls_append)
qed

lemma scoped_call:
  assumes "scoped invalid os0 this os" and "fresh_for x (os_open os0)"
  shows "\<exists>r this' os'. UdpSocket_call op x this os = Some (r, this', os') \<and> scoped invalid os0 this' os'"
proof -
  obtain impl where sock: "this = Some impl"
    using assms(1) by (auto simp: scoped_def)
  obtain r impl' os' where op: "op x (impl, os) = (r, impl', os')"
    by (cases "op x (impl, os)") auto
  show ?thesis
    using scoped_op [OF assms(1) [unfolded sock] op assms(2)] op by (simp add: UdpSocket_call_def sock)
qed

lemma scoped_destroy:
  assumes "scoped invalid os0 this os"
  shows "os_open (UdpSocket_destroy op this os) = os_open os0 \<and>
    (\<exists>cs. os_calls (UdpSocket_destroy op this os) = os_calls os0 @ cs \<and>
       legal_calls invalid cs (os_open os0) = Some (os_open os0))"
proof -
  obtain impl where sock: "this = Some impl"
    using assms by (auto simp: scoped_def)
  obtain r impl' os' where op: "op Op_Close (impl, os) = (r, impl', os')"
    by (cases "op Op_Close (impl, os)") auto
  then have "scoped invalid os0 (Some impl') os'" "owned invalid impl' = {}"
    using scoped_op [OF assms [unfolded sock] op] op_close by auto
  then show ?thesis
    using op by (auto simp: scoped_def UdpSocket_destroy_def sock)
qed

end

text \<open>A platform whose operations return what their signatures say.\<close>

locale demo_platform = socket_platform +
  assumes op_receives: "fst (op (Op_ReceiveFromTimeout buf addr t res arr err) s) \<in> range Ret_reception"
    and op_sends: "fst (op (Op_SendTo data addr res err) s) \<in> range Ret_int"
begin

lemma call_result:
  assumes "UdpSocket_call op x this os = Some (r, this', os')"
  obtains impl where "r = fst (op x (impl, os))"
  using assms by (auto simp: UdpSocket_call_def case_prod_unfold Let_def split: option.splits)

lemma call_receives:
  assumes "UdpSocket_call op (Op_ReceiveFromTimeout buf addr t res arr err) this os = Some (r, this', os')"
  obtains received buffer from' where "r = Ret_reception (received, buffer, from')"
  using call_result [OF assms] op_receives [of buf addr t res arr err] by (metis imageE prod_cases3)

lemma call_sends:
  assumes "UdpSocket_call op (Op_SendTo data addr res err) this os = Some (r, this', os')"
  obtains sent where "r = Ret_int sent"
  using call_result [OF assms] op_sends [of data addr res err] by (metis imageE)

lemma echo_loop_scoped:
  "scoped invalid os0 this os \<Longrightarrow>
   \<exists>this' os'. echo_loop op env polls client_addr this os = Some (this', os') \<and> scoped invalid os0 this' os'"
proof (induction polls arbitrary: client_addr this os)
  case (Cons poll polls)
  obtain result arrives where poll: "poll = (result, arrives)"
    by (cases poll)
  obtain r this1 os1 where rec: "UdpSocket_call op
      (Op_ReceiveFromTimeout (Some 1024) client_addr 1000 result arrives (de_error env)) this os = Some (r, this1, os1)"
    and s1: "scoped invalid os0 this1 os1"
    using scoped_call [OF Cons.prems] fresh_for.simps by metis
  obtain received buffer from' where r: "r = Ret_reception (received, buffer, from')"
    by (rule call_receives [OF rec])
  obtain r2 this2 os2 where "UdpSocket_call op
      (Op_SendTo (Some (bytes_of ''Echo: '' @ buffer)) from' (de_sent env) (de_error env)) this1 os1 = Some (r2, this2, os2)"
    and "scoped invalid os0 this2 os2"
    using scoped_call [OF s1] fresh_for.simps by metis
  then show ?case
    using rec r s1 Cons.IH [OF s1, of from'] by (simp add: poll)
qed simp

lemma server_body_scoped:
  assumes "scoped invalid os0 this os" and "de_fd env \<notin> os_open os0" and "demo_address e pton ''127.0.0.1'' 6969 = Some a"
  shows "\<exists>this' os'. server_body op e pton env this os = Some (this', os') \<and> scoped invalid os0 this' os'"
proof -
  obtain r1 this1 os1 where c1: "UdpSocket_call op (Op_Create (de_fd env) (de_error env)) this os = Some (r1, this1, os1)"
    and s1: "scoped invalid os0 this1 os1"
    using scoped_call [OF assms(1)] assms(2) fresh_for.simps by metis
  obtain r2 this2 os2 where c2: "UdpSocket_call op (Op_SetReuseAddress True (de_reuse env) (de_error env)) this1 os1 = Some (r2, this2, os2)"
    and s2: "scoped invalid os0 this2 os2"
    using scoped_call [OF s1] fresh_for.simps by metis
  obtain r3 this3 os3 where c3: "UdpSocket_call op (Op_Bind a (de_bind env) (de_error env)) this2 os2 = Some (r3, this3, os3)"
    and s3: "scoped invalid os0 this3 os3"
    using scoped_call [OF s2] fresh_for.simps by metis
  show ?thesis
    using c1 s1 c2 s2 c3 s3 assms(3) echo_loop_scoped [OF s3]
    by (simp add: server_body_def SocketAddress_GetSockAddr_def SocketAddress_default_def)
qed

lemma client_body_scoped:
  assumes "scoped invalid os0 this os" and "de_fd env \<notin> os_open os0" and "demo_address e pton ''127.0.0.1'' 6969 = Some a"
  shows "\<exists>this' os'. client_body op e pton env this os = Some (this', os') \<and> scoped invalid os0 this' os'"
proof -
  let ?hello = "Some (bytes_of ''Hello from TFTP socket wrapper!'')"
  obtain r1 this1 os1 where c1: "UdpSocket_call op (Op_Create (de_fd env) (de_error env)) this os = Some (r1, this1, os1)"
    and s1: "scoped invalid os0 this1 os1"
    using scoped_call [OF assms(1)] assms(2) fresh_for.simps by metis
  obtain r2 this2 os2 where c2: "UdpSocket_call op (Op_SendTo ?hello a (de_sent env) (de_error env)) this1 os1 = Some (r2, this2, os2)"
    and s2: "scoped invalid os0 this2 os2"
    using scoped_call [OF s1] fresh_for.simps by metis
  obtain sent where r2: "r2 = Ret_int sent"
    by (rule call_sends [OF c2])
  obtain result arrives where poll: "(case de_polls env of [] \<Rightarrow> (0, None) | poll # polls \<Rightarrow> poll) = (result, arrives)"
    by (cases "case de_polls env of [] \<Rightarrow> (0, None) | poll # polls \<Rightarrow> poll")
  obtain r3 this3 os3 where "UdpSocket_call op (Op_ReceiveFromTimeout (Some 1024)
      (the (SocketAddress_default e)) 2000 result arrives (de_error env)) this2 os2 = Some (r3, this3, os3)"
    and "scoped invalid os0 this3 os3"
    using scoped_call [OF s2] fresh_for.simps by metis
  then show ?thesis
    using c1 s1 c2 s2 assms(3)
    by (simp add: client_body_def SocketAddress_GetSockAddr_def SocketAddress_default_def r2 poll)
qed

text \<open>The state at the end is the one at the start, and the calls in between are legal.\<close>

lemma with_guard_clean:
  assumes "\<And>this. scoped invalid os this os \<Longrightarrow> \<exists>this' os'. body this os = Some (this', os') \<and> scoped invalid os this' os'"
  shows "\<exists>os' cs. with_guard op invalid target env body (startups, os) = Some (startups, os') \<and> os_open os' = os_open os \<and>
    os_calls os' = os_calls os @ cs \<and> legal_calls invalid cs (os_open os) = Some (os_open os)"
proof -
  obtain initialized startups1 where guard: "SocketLibraryGuard_new target (de_startup env) startups = (initialized, startups1)"
    by (cases "SocketLibraryGuard_new target (de_startup env) startups")
  obtain this' os' where "body (UdpSocket_new invalid) os = Some (this', os')" "scoped invalid os this' os'"
    using assms scoped_new by blast
  then show ?thesis
    using guard_balanced [OF guard] scoped_destroy [of os this' os'] guard by (auto simp: with_guard_def)
qed

end

interpretation unix_demo: demo_platform unix_invalid unix_op
  by unfold_locales (auto simp: unix_ReceiveFromTimeout_def)

interpretation win_demo: demo_platform win_invalid win_op
  by unfold_locales auto

subsection \<open>Properties\<close>

lemma demo_address_local:
  assumes "inet pton"
  shows "demo_address e pton ''127.0.0.1'' 6969 =
    Some \<lparr>sin_family = AF_INET, sin_port = htons e 6969, sin_addr = (127, 0, 0, 1)\<rparr>"
proof -
  have "inet_text (127, 0, 0, 1) = ''127.0.0.1''"
    by code_simp
  then show ?thesis
    using address_of_text [OF assms, of e "(127, 0, 0, 1)" 6969]
    by (simp add: demo_address_def SocketAddress_GetSockAddr_def)
qed

lemma AddressDemo_prints:
  assumes "inet pton"
  shows "AddressDemo e pton = Some [(''0.0.0.0'', 0), (''192.168.1.100'', 8080), (''10.0.0.1'', 443), (''10.0.0.1'', 443), (''10.0.0.1'', 443)]"
proof -
  have quads: "inet_text (192, 168, 1, 100) = ''192.168.1.100''" "inet_text (10, 0, 0, 1) = ''10.0.0.1''"
    by code_simp+
  have "SocketAddress_new e pton ''192.168.1.100'' 8080 =
      Some (Some \<lparr>sin_family = AF_INET, sin_port = htons e 8080, sin_addr = (192, 168, 1, 100)\<rparr>)"
    using address_of_text [OF assms, of e "(192, 168, 1, 100)" 8080] by (simp add: quads)
  moreover have "set_address e pton ''10.0.0.1'' 443 a = \<lparr>sin_family = AF_INET, sin_port = htons e 443, sin_addr = (10, 0, 0, 1)\<rparr>" for a
    using inet.set_address_text [OF assms, of e "(10, 0, 0, 1)" 443 a] by (simp add: quads)
  ultimately show ?thesis
    by (simp add: AddressDemo_def printed_def SocketAddress_default_def SocketAddress_Set_def SocketAddress_copy_def
        SocketAddress_move_def SocketAddress_GetIP_def SocketAddress_GetPort_def quads inet_text_any)
qed

context demo_platform
begin

lemma socket_demo_main_clean:
  assumes "inet pton" and "de_fd env1 \<notin> os_open os" and "de_fd env2 \<notin> os_open os"
  shows "\<exists>os' cs. socket_demo_main op invalid target e pton env1 env2 (startups, os) = Some (0, startups, os') \<and>
    os_open os' = os_open os \<and> os_calls os' = os_calls os @ cs \<and> legal_calls invalid cs (os_open os) = Some (os_open os)"
proof -
  obtain os1 cs1 where s1: "ServerDemo op invalid target e pton env1 (startups, os) = Some (startups, os1)" "os_open os1 = os_open os"
    "os_calls os1 = os_calls os @ cs1" "legal_calls invalid cs1 (os_open os) = Some (os_open os)"
    using with_guard_clean [of os "server_body op e pton env1" target env1 startups]
      server_body_scoped [OF _ assms(2) demo_address_local [OF assms(1)]]
    unfolding ServerDemo_def by blast
  moreover obtain os2 cs2 where "ClientDemo op invalid target e pton env2 (startups, os1) = Some (startups, os2)" "os_open os2 = os_open os1"
    "os_calls os2 = os_calls os1 @ cs2" "legal_calls invalid cs2 (os_open os1) = Some (os_open os1)"
    using with_guard_clean [of os1 "client_body op e pton env2" target env2 startups]
      client_body_scoped [OF _ assms(3) [folded s1(2)] demo_address_local [OF assms(1)]]
    unfolding ClientDemo_def by blast
  ultimately show ?thesis
    using AddressDemo_prints [OF assms(1)] by (simp add: socket_demo_main_def legal_calls_append)
qed

end

text \<open>
  C34. The demonstration program holds what it prints at its end, on both platforms: whatever the
  system calls return and the network delivers, it ends with exit code 0, every system call is made on
  an open descriptor, no descriptor is left open, every start-up of the socket library is undone,
  and no null pointer is dereferenced.
\<close>

theorem socket_demo_clean:
  assumes "\<forall>addr. pton (inet_text addr) = Some addr"
    and "de_fd env1 \<notin> os_open os" and "de_fd env2 \<notin> os_open os"
    and "de_fd wenv1 \<notin> os_open wos" and "de_fd wenv2 \<notin> os_open wos"
  shows "(\<exists>os' cs. socket_demo_main unix_op unix_invalid Unix e pton env1 env2 (startups, os) = Some (0, startups, os') \<and>
      os_open os' = os_open os \<and> os_calls os' = os_calls os @ cs \<and> legal_calls unix_invalid cs (os_open os) = Some (os_open os)) \<and>
    (\<exists>os' cs. socket_demo_main win_op win_invalid Win32 e pton wenv1 wenv2 (startups, wos) = Some (0, startups, os') \<and>
      os_open os' = os_open wos \<and> os_calls os' = os_calls wos @ cs \<and> legal_calls win_invalid cs (os_open wos) = Some (os_open wos))"
proof -
  have "inet pton"
    by (rule inet.intro) (use assms(1) in blast)
  then show ?thesis
    using unix_demo.socket_demo_main_clean [OF _ assms(2,3)] win_demo.socket_demo_main_clean [OF _ assms(4,5)] by blast
qed

definition demo_env_example :: "(int \<times> arrival) list \<Rightarrow> 'fd \<Rightarrow> 'fd demo_env" where
  "demo_env_example polls fd = \<lparr>de_startup = 0, de_fd = fd, de_reuse = 0, de_bind = 0, de_sent = 10, de_polls = polls, de_error = []\<rparr>"

definition os_empty :: "'fd os" where
  "os_empty = \<lparr>os_open = {}, os_calls = []\<rparr>"

theorem socket_demo_clean_witness:
  "\<exists>os'. socket_demo_main unix_op unix_invalid Unix Little dotted_quad (demo_env_example [] 3) (demo_env_example [] 3) (0, os_empty) =
     Some (0, 0, os') \<and> os_open os' = {}"
proof -
  have law: "\<forall>addr. dotted_quad (inet_text addr) = Some addr"
    by (simp add: quads.pton_ntop)
  show ?thesis
    using socket_demo_clean [OF law, of "demo_env_example [] 3" os_empty "demo_env_example [] 3"
        "demo_env_example [] 5" os_empty "demo_env_example [] 5" Little 0]
    by (auto simp: os_empty_def)
qed

text \<open>The datagrams that were sent, with their receivers.\<close>

fun sent_datagrams :: "'fd syscall list \<Rightarrow> (byte list \<times> sockaddr_in) list" where
  "sent_datagrams [] = []"
| "sent_datagrams (Sys_sendto fd bytes len addr # cs) = (bytes, addr) # sent_datagrams cs"
| "sent_datagrams (c # cs) = sent_datagrams cs"

lemma sent_datagrams_append [simp]: "sent_datagrams (cs @ ds) = sent_datagrams cs @ sent_datagrams ds"
  by (induction cs rule: sent_datagrams.induct) auto

text \<open>What a datagram that arrives at the server demonstration is answered with.\<close>

definition echo_of :: "(int \<times> arrival) list \<Rightarrow> (byte list \<times> sockaddr_in) list \<Rightarrow> bool" where
  "echo_of polls ds = (\<exists>res a d. (res, Some (a, d)) \<in> set polls \<and> res > 0 \<and> d \<noteq> [] \<and>
     ds = [(bytes_of ''Echo: '' @ take 1024 d, a)])"

lemma echo_of_Cons:
  assumes "echo_of polls ds"
  shows "echo_of (poll # polls) ds"
proof -
  obtain res a d where "(res, Some (a, d)) \<in> set (poll # polls)" "res > 0" "d \<noteq> []"
    "ds = [(bytes_of ''Echo: '' @ take 1024 d, a)]"
    using assms by (auto simp: echo_of_def)
  then show ?thesis
    unfolding echo_of_def by blast
qed

lemma unix_receive_step:
  assumes "unix_ReceiveFromTimeout (Some 1024) sender 1000 res arr err (impl, os) = ((received, buffer, from'), impl', os')"
  shows "sent_datagrams (os_calls os') = sent_datagrams (os_calls os)"
    and "received > 0 \<Longrightarrow> \<exists>d. res > 0 \<and> arr = Some (from', d) \<and> d \<noteq> [] \<and> buffer = take 1024 d"
proof -
  show "sent_datagrams (os_calls os') = sent_datagrams (os_calls os)"
    using assms
    by (auto simp: unix_ReceiveFromTimeout_def unix_ReceiveFrom_def call_os_def Let_def split: if_splits option.splits)
  assume pos: "received > 0"
  then have rec: "sk_socket impl \<noteq> unix_invalid" "res > 0" "unix_ReceiveFrom (Some 1024) sender arr err
      (impl, call_os (Sys_select (sk_socket impl) (c_div 1000 1000) (c_mod 1000 1000 * 1000)) os) = ((received, buffer, from'), impl', os')"
    using assms by (auto simp: unix_ReceiveFromTimeout_def Let_def split: if_splits)
  then obtain a d where arr: "arr = Some (a, d)"
    using pos by (auto simp: unix_ReceiveFrom_def Let_def split: if_splits option.splits)
  have "cast_int (int (length (take 1024 d))) = int (length (take 1024 d))"
    by (rule cast_int_small) simp_all
  then show "\<exists>d. res > 0 \<and> arr = Some (from', d) \<and> d \<noteq> [] \<and> buffer = take 1024 d"
    using rec pos arr by (auto simp: unix_ReceiveFrom_def Let_def)
qed

lemma unix_send_step:
  assumes "unix_SendTo (Some data) addr sent err (impl, os) = (r, impl', os')"
  shows "sent_datagrams (os_calls os') = sent_datagrams (os_calls os) \<or> sent_datagrams (os_calls os') = sent_datagrams (os_calls os) @ [(data, addr)]"
  using assms by (auto simp: unix_defs Let_def split: if_splits)

lemma unix_echo_loop:
  "echo_loop unix_op env polls client_addr (Some impl) os = Some (this', os') \<Longrightarrow>
   \<exists>ds. this' \<noteq> None \<and> sent_datagrams (os_calls os') = sent_datagrams (os_calls os) @ ds \<and> (ds = [] \<or> echo_of polls ds)"
proof (induction polls arbitrary: client_addr impl os)
  case (Cons poll polls)
  obtain res arr where poll: "poll = (res, arr)"
    by (cases poll)
  obtain received buffer from' impl1 os1 where rec: "unix_ReceiveFromTimeout (Some 1024) client_addr 1000 res arr (de_error env) (impl, os) =
      ((received, buffer, from'), impl1, os1)"
    by (metis prod_cases3)
  note quiet = unix_receive_step(1) [OF rec]
  obtain r2 impl2 os2 where send: "unix_SendTo (Some (bytes_of ''Echo: '' @ buffer)) from' (de_sent env) (de_error env) (impl1, os1) = (r2, impl2, os2)"
    by (metis prod_cases3)
  consider "received > 0" | "received = 0" | "received < 0"
    by linarith
  then show ?case
  proof cases
    case 1
    then have this': "this' = Some impl2" "os' = os2"
      using Cons.prems rec send by (simp_all add: poll UdpSocket_call_def)
    obtain d where "res > 0" "arr = Some (from', d)" "d \<noteq> []" "buffer = take 1024 d"
      using unix_receive_step(2) [OF rec 1] by blast
    then have "echo_of (poll # polls) [(bytes_of ''Echo: '' @ buffer, from')]"
      unfolding echo_of_def poll by auto
    then show ?thesis
      using unix_send_step [OF send] quiet this' by auto
  next
    case 2
    then have "echo_loop unix_op env polls from' (Some impl1) os1 = Some (this', os')"
      using Cons.prems rec by (simp add: poll UdpSocket_call_def)
    from Cons.IH [OF this] show ?thesis
      using quiet echo_of_Cons [where poll = poll] by auto
  next
    case 3
    then show ?thesis
      using Cons.prems rec quiet by (auto simp: poll UdpSocket_call_def)
  qed
qed auto

fun quiet_op :: "'fd sock_op \<Rightarrow> bool" where
  "quiet_op (Op_Create fd err) = True"
| "quiet_op (Op_Bind addr res err) = True"
| "quiet_op (Op_SetReuseAddress reuse res err) = True"
| "quiet_op Op_Close = True"
| "quiet_op _ = False"

lemma unix_op_quiet:
  assumes "unix_op x (impl, os) = (r, impl', os')" and "quiet_op x"
  shows "sent_datagrams (os_calls os') = sent_datagrams (os_calls os)"
  using assms by (cases x) (auto simp: unix_defs Let_def split: if_splits)

lemma unix_call_quiet:
  assumes "quiet_op x"
  obtains r impl' os' where "UdpSocket_call unix_op x (Some impl) os = Some (r, Some impl', os')"
    and "sent_datagrams (os_calls os') = sent_datagrams (os_calls os)"
  using unix_op_quiet [OF _ assms, of impl os] that
  by (cases "unix_op x (impl, os)") (auto simp: UdpSocket_call_def)

lemma unix_server_body:
  assumes "demo_address e pton ''127.0.0.1'' 6969 = Some a"
    and "server_body unix_op e pton env (Some impl) os = Some (this', os')"
  shows "\<exists>ds. this' \<noteq> None \<and> sent_datagrams (os_calls os') = sent_datagrams (os_calls os) @ ds \<and> (ds = [] \<or> echo_of (de_polls env) ds)"
proof -
  obtain r1 impl1 os1 where c1: "UdpSocket_call unix_op (Op_Create (de_fd env) (de_error env)) (Some impl) os = Some (r1, Some impl1, os1)"
    and q1: "sent_datagrams (os_calls os1) = sent_datagrams (os_calls os)"
    by (rule unix_call_quiet [of "Op_Create (de_fd env) (de_error env)" impl os]) simp_all
  obtain r2 impl2 os2 where c2: "UdpSocket_call unix_op (Op_SetReuseAddress True (de_reuse env) (de_error env)) (Some impl1) os1 = Some (r2, Some impl2, os2)"
    and q2: "sent_datagrams (os_calls os2) = sent_datagrams (os_calls os1)"
    by (rule unix_call_quiet [of "Op_SetReuseAddress True (de_reuse env) (de_error env)" impl1 os1]) simp_all
  obtain r3 impl3 os3 where c3: "UdpSocket_call unix_op (Op_Bind a (de_bind env) (de_error env)) (Some impl2) os2 = Some (r3, Some impl3, os3)"
    and q3: "sent_datagrams (os_calls os3) = sent_datagrams (os_calls os2)"
    by (rule unix_call_quiet [of "Op_Bind a (de_bind env) (de_error env)" impl2 os2]) simp_all
  show ?thesis
    using assms c1 c2 c3 q1 q2 q3 unix_echo_loop [of env "de_polls env" _ impl3 os3 this' os']
    by (auto simp: server_body_def SocketAddress_GetSockAddr_def SocketAddress_default_def split: if_splits)
qed

text \<open>
  The server demonstration answers at most one datagram, and with an echo: it sends nothing, or
  one datagram, the text \<^verbatim>\<open>Echo: \<close> and the first 1024 bytes of a datagram that was not empty, to the
  sender of that datagram.
\<close>

lemma server_demo_echoes:
  assumes "\<forall>addr. pton (inet_text addr) = Some addr"
    and "ServerDemo unix_op unix_invalid Unix e pton env (startups, os) = Some (startups', os')"
  shows "\<exists>ds. sent_datagrams (os_calls os') = sent_datagrams (os_calls os) @ ds \<and>
    (ds = [] \<or> (\<exists>res a d. (res, Some (a, d)) \<in> set (de_polls env) \<and> res > 0 \<and> d \<noteq> [] \<and>
       ds = [(bytes_of ''Echo: '' @ take 1024 d, a)]))"
proof -
  have "inet pton"
    by (rule inet.intro) (use assms(1) in blast)
  note addr = demo_address_local [OF this, of e]
  obtain this1 os1 where body: "server_body unix_op e pton env (Some \<lparr>sk_socket = unix_invalid, sk_last_error = []\<rparr>) os = Some (this1, os1)"
    and os': "os' = UdpSocket_destroy unix_op this1 os1"
    using assms(2)
    by (auto simp: ServerDemo_def with_guard_def SocketLibraryGuard_new_def InitializeSocketLibrary_def
        SocketLibraryGuard_IsInitialized_def UdpSocket_new_def bind_eq_Some_conv)
  obtain ds impl1 where ds: "this1 = Some impl1" "sent_datagrams (os_calls os1) = sent_datagrams (os_calls os) @ ds" "ds = [] \<or> echo_of (de_polls env) ds"
    using unix_server_body [OF addr body] by auto
  moreover have "sent_datagrams (os_calls os') = sent_datagrams (os_calls os1)"
    using unix_op_quiet [of Op_Close impl1 os1] os' ds(1) by (cases "unix_op Op_Close (impl1, os1)") (auto simp: UdpSocket_destroy_def)
  ultimately show ?thesis
    unfolding echo_of_def by auto
qed

end
