(* ===== verification/Spec2Isabelle.thy ===== *)
theory Spec2Isabelle
  imports Tftp_Effort Tftp_File_Errors Tftp_Stop Tftp_Server_Windows Tftp_Task_Queue Tftp_Config
    Tftp_System_Progress Tftp_Logger Tftp_Server_Example Tftp_Socket_Demo
begin

text \<open>
  \<^bold>\<open>A verification library for TFTPServer\<close>

  The program is a TFTP server library in C++ (\<^verbatim>\<open>src/src\<close>, \<^verbatim>\<open>src/include/tftp\<close>). A thread receives
  datagrams on the port of the server and submits each to a pool of worker threads. A worker parses
  the packet, opens a socket for the client, checks the file name against the root directory and runs
  a transfer: a download sends the file in blocks of 512 bytes and waits for an acknowledgement of
  each, an upload acknowledges the blocks it gets and hands the file to a callback. Around this
  are the interface with its validation of parameters, a client that is not finished, a logger,
  socket classes of their own, and two example programs. The theories follow the parts, each with its data, its operations and
  its properties.

  \<^bold>\<open>Language and library.\<close>
  \<^item> \<^verbatim>\<open>Cpp_Std\<close>: bytes, words of 16 and 64 bits, byte order, strings, decimal conversions, exceptions
    as values of a sum, and the collection of guard constants that all theories share.
  \<^item> \<^verbatim>\<open>Cpp_Filesystem\<close>: files, directories and symbolic links, path strings, and what the program uses
    of \<^verbatim>\<open>std::filesystem\<close>. Following links takes fuel \<^verbatim>\<open>MAXSYMLINKS = 40\<close>, the limit of the kernel;
    running out of it is the error \<^verbatim>\<open>ELOOP\<close>, as in the system.
  \<^item> \<^verbatim>\<open>Cpp_Regex\<close>: regular expressions matched by derivatives, with the proof that this is the language.
  \<^item> \<^verbatim>\<open>Transition_System\<close>: reachability and runs of labelled step relations, the locale
    \<^verbatim>\<open>invariant_system\<close> that the pool, the server, both interfaces, the sessions and the sockets
    interpret, and the locale \<^verbatim>\<open>refinement\<close> that extends it with a view of the states in which each step
    is a step of an abstract system; the pool, \<^verbatim>\<open>Stop\<close>, the server on Windows and the server as a
    whole interpret it.

  \<^bold>\<open>The protocol.\<close>
  \<^item> \<^verbatim>\<open>Tftp_Common\<close> (\<^verbatim>\<open>tftp_common.h\<close>): constants, operation codes, error codes and modes, each with the
    values outside of the enumeration.
  \<^item> \<^verbatim>\<open>Tftp_Packet\<close> (\<^verbatim>\<open>tftp_packet.h\<close>, \<^verbatim>\<open>tftp_packet.cpp\<close>): \<^verbatim>\<open>TftpPacket\<close> as a record, the factories,
    \<^verbatim>\<open>Serialize\<close> and \<^verbatim>\<open>Deserialize\<close>. Shown: round trips in both directions, what a refused datagram
    leaves behind, and the exact behaviour of the string reader.

  \<^bold>\<open>Files.\<close>
  \<^item> \<^verbatim>\<open>Tftp_Util\<close> (\<^verbatim>\<open>tftp_util.cpp\<close>): \<^verbatim>\<open>IsPathSecure\<close> and \<^verbatim>\<open>NormalizePath\<close>. Shown: what passes the check
    resolves inside the root, and ordinary names pass.
  \<^item> \<^verbatim>\<open>Tftp_File_Handlers\<close> (\<^verbatim>\<open>tftp_server_impl.cpp\<close>): the default callbacks. The locale \<^verbatim>\<open>file_store\<close> says
    what the transfers need of them. Shown: a successful write reads back; writes under checked
    names stay below a root without links; a dangling link lets a write escape. Roots are taken to end with a
    slash, which the constructor of the server sees to unless they end with a backslash; such a root
    lets a write escape too (\<^verbatim>\<open>Tftp_Server_Impl\<close>).
  \<^item> \<^verbatim>\<open>Tftp_File_Errors\<close> (\<^verbatim>\<open>tftp_server_impl.cpp\<close>): the same handlers on a device that fails, with its room
    as a parameter, and with an arbitrary function for how much the stream still has in its buffer after
    a \<^verbatim>\<open>write\<close>, of which C++ says nothing. Shown: what is left of an uploaded file, and when the client hears of it.

  \<^bold>\<open>Transfers.\<close>
  \<^item> \<^verbatim>\<open>Tftp_Transfer\<close> (\<^verbatim>\<open>tftp_server_impl.cpp\<close>): \<^verbatim>\<open>SendPacket\<close>, \<^verbatim>\<open>ReceivePacket\<close>, \<^verbatim>\<open>SendError\<close>,
    \<^verbatim>\<open>HandleReadRequest\<close>, \<^verbatim>\<open>HandleWriteRequest\<close>. The network is a script of results that the coming calls
    return; a script that has run out sends everything and receives nothing, so every behaviour of the
    network in a finite run is that of some script. The calls are recorded in a trace. The loops
    terminate by the measure of what is left of the file or of the limit, so no fuel is needed.
    Shown: the order and completeness of blocks on every network, the outcome of uploads, the
    acknowledgement of options, error replies, and a round trip of files through both transfers.
  \<^item> \<^verbatim>\<open>Tftp_Effort\<close>: bounds on the calls and on the sleeping time of every transfer.

  \<^bold>\<open>The server.\<close>
  \<^item> \<^verbatim>\<open>Tftp_Validation\<close> (\<^verbatim>\<open>tftp_validation.h\<close>, \<^verbatim>\<open>tftp_validation.cpp\<close>): all checks of parameters. Shown: the
    exact set of accepted hosts, and that requests from accepted parameters can be parsed.
  \<^item> \<^verbatim>\<open>Tftp_Thread_Pool\<close> (\<^verbatim>\<open>tftp_thread_pool.h\<close>, \<^verbatim>\<open>tftp_thread_pool.cpp\<close>): an interleaving of workers, callers
    of \<^verbatim>\<open>Submit\<close> and \<^verbatim>\<open>Shutdown\<close>, with mutex and condition variable. Shown: every task is in one place
    and tasks are taken in order, no wake-up is lost while the pool is up, and one is lost at
    shutdown.
  \<^item> \<^verbatim>\<open>Tftp_Pool_Effort\<close>: a measure of the steps that a pool has left.
  \<^item> \<^verbatim>\<open>Tftp_Task_Queue\<close>: what the pool promises, as a queue without threads. Shown: the pool refines it.
  \<^item> \<^verbatim>\<open>Tftp_Server_Impl\<close> (\<^verbatim>\<open>tftp_server_impl.h\<close>, \<^verbatim>\<open>tftp_server_impl.cpp\<close>): construction, setters, \<^verbatim>\<open>Start\<close>,
    \<^verbatim>\<open>Stop\<close>, the receiving loop and \<^verbatim>\<open>HandleClient\<close>, with the open descriptors as part of the state.
    Shown: the life cycle over all sequences of actions, what is sent for any datagram, refusal of bad names, and when the socket of a
    client is closed.
    \<^verbatim>\<open>Stop\<close> is one step here, for the case that what it waits for happens.
  \<^item> \<^verbatim>\<open>Tftp_Shutdown\<close>, \<^verbatim>\<open>Tftp_Stop\<close> (\<^verbatim>\<open>tftp_server_impl.cpp\<close>): \<^verbatim>\<open>Stop\<close> called by any number of threads,
    interleaved with the server thread and the workers; each access to a shared member is a step. The
    first theory has the steps and their invariant, the second the effort that is left, which
    every step but a spurious wake-up makes smaller. Shown: nothing uses a pool that is shut down or
    gone, the members go through the stages of one shutdown and end as the sequential \<^verbatim>\<open>Stop\<close> leaves them, all
    calls end but for two causes that are named, both causes occur, and what can go wrong with two calls at once:
    one returns early, throws, or closes the descriptor again.
  \<^item> \<^verbatim>\<open>Tftp_Server_Windows\<close> (\<^verbatim>\<open>tftp_server_impl.cpp\<close>): the branches of the life cycle for Windows, and the
    receiving loop on a \<^verbatim>\<open>recvfrom\<close> that fails for long datagrams. Shown: they
    refine the others, and which start-ups of the socket library are never undone.
  \<^item> \<^verbatim>\<open>Tftp_Config\<close> (\<^verbatim>\<open>tftp_server_impl.h\<close>, \<^verbatim>\<open>tftp_server_impl.cpp\<close>): setters called while requests are
    handled, with \<^verbatim>\<open>config_mutex_\<close> held exclusively or shared. Shown: exclusion, that each value a request uses
    was in force and those of one section together, that all threads end, and that a callback which calls a
    setter never does.
  \<^item> \<^verbatim>\<open>Tftp_Server\<close> (\<^verbatim>\<open>tftp_server.cpp\<close>): the interface. Shown: parameters are always valid, and a refused
    call has no effect.
  \<^item> \<^verbatim>\<open>Tftp_Sessions\<close>: what the parts give together. Shown: confinement for interleaved sessions of many
    clients, and that an uploaded file is stored and served.
  \<^item> \<^verbatim>\<open>Tftp_Interleaving\<close>: the same in finer steps, so that the check of a name, its use and the parts of the
    default handlers of several threads interleave; its first text lists the steps. Shown:
    confinement again, that a thread alone computes the handlers, and that concurrent uploads of one
    name can mix.
  \<^item> \<^verbatim>\<open>Tftp_System\<close>, \<^verbatim>\<open>Tftp_System_Progress\<close>: the server thread, the pool and these sessions composed, from
    construction on. Shown: confinement and the accounting of requests for the whole server, and that a server
    left to itself handles every request it has received, in a number of steps that is bounded by the
    effort of its state.

  \<^bold>\<open>Beside the server.\<close>
  \<^item> \<^verbatim>\<open>Tftp_Client\<close> (\<^verbatim>\<open>tftp_client.cpp\<close>): the validation of the client, whose transfers are stubs in the code.
  \<^item> \<^verbatim>\<open>Tftp_Logger\<close> (\<^verbatim>\<open>tftp_logger.h\<close>, \<^verbatim>\<open>tftp_logger.cpp\<close>): levels, macros, lines and their destination.
  \<^item> \<^verbatim>\<open>Tftp_Socket_Address\<close>, \<^verbatim>\<open>Tftp_Socket_Impl\<close>, \<^verbatim>\<open>Tftp_Socket\<close> (\<^verbatim>\<open>tftp_socket.h\<close>, \<^verbatim>\<open>tftp_socket.cpp\<close> and the
    implementations for Unix and Windows): addresses, the two implementations behind the locale
    \<^verbatim>\<open>socket_platform\<close>, and the objects that own them. Shown: text and addresses correspond, both
    implementations agree up to datagrams that are longer than the buffer, and no program leaks a descriptor or uses a closed one.
  \<^item> \<^verbatim>\<open>Tftp_Server_Example\<close> (\<^verbatim>\<open>examples/server_example.cpp\<close>): the example server on top of the interface.
    Shown: its outcome for all arguments.
  \<^item> \<^verbatim>\<open>Tftp_Socket_Demo\<close> (\<^verbatim>\<open>examples/socket_demo.cpp\<close>): the demonstration on top of the sockets, for every
    platform that gives the laws of the locale \<^verbatim>\<open>demo_platform\<close>. Shown: it ends with nothing left open on
    Unix and Windows, and it echoes what it receives.

  \<^bold>\<open>Parameters.\<close> The results of system calls, the hardware concurrency, the clock and local time, the
  texts of system errors, \<^verbatim>\<open>inet_pton\<close> and the callbacks of an application are arguments of the
  definitions. Where a property relies on them, it says so in a hypothesis: that \<^verbatim>\<open>bind\<close> refuses
  addresses that are not local, that callbacks do not throw, that \<^verbatim>\<open>inet_pton\<close> reads what \<^verbatim>\<open>inet_ntop\<close>
  prints. The greatest value of \<^verbatim>\<open>unsigned long\<close> is an argument of the example server.

  \<^bold>\<open>Not modelled.\<close> Log output of the server and console output of the examples (nothing depends on
  it); failing memory allocation, which the code does not handle; file operations of other processes; data races on members that are not
  atomic, whose behaviour C++ leaves undefined (\<^verbatim>\<open>sockfd_\<close> and the thread object are taken as sequentially consistent, and a second \<^verbatim>\<open>join\<close> as refused); a
  call of the library or the system as more than one step, and so \<^verbatim>\<open>IsPathSecure\<close> as more than one; transfers on
  Windows, where \<^verbatim>\<open>recvfrom\<close> fails for a datagram that is longer than the buffer; exceptions of \<^verbatim>\<open>Start\<close> when no
  thread can be created; the tests and the build files, which are no part of the
  program; and \<^verbatim>\<open>TftpPacket::Parse\<close>, which is declared and never defined.
\<close>

end
